(* ===== verification/Base.thy ===== *)
theory Base
  imports Main "HOL-Library.Word" "HOL-Library.Finite_Map"
begin

text \<open>
  Shared vocabulary of the Cathole development: machine integers, byte strings, the error
  values every \<open>ensure!\<close>, \<open>bail!\<close>, \<open>context\<close> and \<open>?\<close> of the sources can produce, the
  \<open>Result\<close> type with its early-return combinators, Rust's big-endian integer codecs, and
  \<open>HashMap\<close> as a finite map with the operations the sources call. The generic lemmas on
  lists, codecs and finite maps that several components use are proved here.
\<close>

named_theorems codec_simps \<open>lengths and round trips of the big-endian codecs\<close>
named_theorems result_simps \<open>evaluation and inversion of the early-return combinators\<close>
named_theorems fmap_simps \<open>the HashMap operations on finite maps\<close>

section \<open>Types\<close>

type_synonym byte = "8 word"
type_synonym bytes = "byte list"
type_synonym u8 = "8 word"
type_synonym u16 = "16 word"
type_synonym u32 = "32 word"
type_synonym u64 = "64 word"
type_synonym usize = "64 word"

text \<open>Monotonic clock readings (\<open>std::time::Instant\<close>) and durations, in nanoseconds.\<close>

type_synonym instant = nat
type_synonym duration = nat

abbreviation from_secs :: "nat \<Rightarrow> duration" where
  "from_secs s \<equiv> s * 1000000000"

text \<open>
  One constructor per message the sources raise, grouped by the file that raises it.
  \<open>External\<close> carries an error value of a library the program calls (Quinn, snow, tokio, the
  operating system) and \<open>Panicked\<close> stands for a Rust panic, so that the absence of panics is
  a provable statement.
\<close>

datatype config_error =
    MissingKey | BadBase64 | BadKeyLength
  | UnsupportedPattern | XXNeedsTls
  | UnsupportedTransport | TcpProxySet | FlowControlRange | TimeoutRange | ResourceRange
  | ServiceCount | ServerBindOnly | CertKeyPair | ClientRemoteOnly | RetryRange
  | ServiceNameLength | ServiceTokenLength string | ServiceRetryRange string
  | ServerServiceBind string | ClientServiceLocal string
  | InvalidToml | NoRole | NeedServer | NeedClient

datatype crypto_error =
    FrameTooLarge | OversizedFrame
  | MissingHandshakeMessage | MissingResponse | MissingRequest | ExporterFailed
  | KeyBudgetExhausted | ShortDatagram | ReplayedOrStale

datatype datagram_error =
    PayloadTooLarge | MessageIdExhausted
  | ShortFragment | InvalidLength | InvalidIndex | InvalidFragmentLength
  | InconsistentFragments

datatype proxy_error =
    NoEndpoints | MissingTcpHeader | InvalidTcpHeader | UnknownService | WrongServiceType
  | UnexpectedPayload | HandshakeRejected
  | InvalidRegistration | DuplicateService | AuthenticationFailed | UnexpectedControlData
  | RegistrationRejected | FlowIdsExhausted
  | ConnectionClosed | UnexpectedStream | ListenerStopped

datatype main_error = IdentityDirectory | NothingToDo | BothRoles

datatype error =
    ConfigError config_error
  | CryptoError crypto_error
  | DatagramError datagram_error
  | ProxyError proxy_error
  | MainError main_error
  | Elapsed
  | External string
  | Panicked

datatype 'a result = Ok 'a | Err error

text \<open>The bytes of an ASCII literal such as \<open>b"ok"\<close>.\<close>

definition ascii :: "string \<Rightarrow> bytes" where
  "ascii s = map (\<lambda>c. word_of_nat (of_char c)) s"

section \<open>Early returns\<close>

fun rbind :: "'a result \<Rightarrow> ('a \<Rightarrow> 'b result) \<Rightarrow> 'b result" where
  "rbind (Ok x) f = f x"
| "rbind (Err e) f = Err e"

definition ensure :: "bool \<Rightarrow> error \<Rightarrow> 'a result \<Rightarrow> 'a result" where
  "ensure b e r = (if b then r else Err e)"

fun ok_or :: "'a option \<Rightarrow> error \<Rightarrow> 'a result" where
  "ok_or None e = Err e"
| "ok_or (Some x) e = Ok x"

fun is_ok :: "'a result \<Rightarrow> bool" where
  "is_ok (Ok x) = True"
| "is_ok (Err e) = False"

text \<open>
  \<open>tokio::time::timeout(limit, f).await\<close> with the time \<open>took\<close> that \<open>f\<close> needs: past the
  limit the future is dropped and the error is \<open>Elapsed\<close>.
\<close>

definition timeout :: "duration \<Rightarrow> duration \<Rightarrow> 'a result \<Rightarrow> 'a result" where
  "timeout limit took r = (if took \<le> limit then r else Err Elapsed)"

lemma rbind_eq_Ok [result_simps]:
  "rbind r f = Ok y \<longleftrightarrow> (\<exists>x. r = Ok x \<and> f x = Ok y)"
  by (cases r) auto

lemma rbind_unit_eq_Ok: "rbind (r :: unit result) f = Ok y \<longleftrightarrow> r = Ok () \<and> f () = Ok y"
  by (simp add: rbind_eq_Ok)

lemma rbind_eq_Err [result_simps]:
  "rbind r f = Err e \<longleftrightarrow> r = Err e \<or> (\<exists>x. r = Ok x \<and> f x = Err e)"
  by (cases r) auto

lemma ensure_eq_Ok [result_simps]: "ensure b e r = Ok y \<longleftrightarrow> b \<and> r = Ok y"
  by (simp add: ensure_def)

lemma ensure_eq_Err [result_simps]: "ensure b e r = Err e' \<longleftrightarrow> (b \<and> r = Err e') \<or> (\<not> b \<and> e = e')"
  by (auto simp: ensure_def)

lemma ensure_True [simp]: "ensure True e r = r"
  and ensure_False [simp]: "ensure False e r = Err e"
  by (simp_all add: ensure_def)

lemma ok_or_eq_Ok [result_simps]: "ok_or v e = Ok y \<longleftrightarrow> v = Some y"
  by (cases v) auto

lemma ok_or_eq_Err [result_simps]: "ok_or v e = Err e' \<longleftrightarrow> v = None \<and> e = e'"
  by (cases v) auto

lemma timeout_eq_Ok [result_simps]: "timeout l t r = Ok y \<longleftrightarrow> t \<le> l \<and> r = Ok y"
  by (simp add: timeout_def)

lemma is_ok_iff [result_simps]: "is_ok r \<longleftrightarrow> (\<exists>x. r = Ok x)"
  by (cases r) auto

section \<open>Big-endian codecs\<close>

text \<open>
  \<open>be_encode k v\<close> is the \<open>to_be_bytes\<close> of a \<open>k\<close>-byte unsigned integer of value \<open>v\<close>, and
  \<open>be_decode\<close> the value \<open>from_be_bytes\<close> reads.
\<close>

fun be_encode :: "nat \<Rightarrow> nat \<Rightarrow> bytes" where
  "be_encode 0 v = []"
| "be_encode (Suc k) v = be_encode k (v div 256) @ [word_of_nat v]"

definition be_decode :: "bytes \<Rightarrow> nat" where
  "be_decode bs = foldl (\<lambda>a b. a * 256 + unat b) 0 bs"

definition u16_be :: "u16 \<Rightarrow> bytes" where
  "u16_be w = be_encode 2 (unat w)"

definition u32_be :: "u32 \<Rightarrow> bytes" where
  "u32_be w = be_encode 4 (unat w)"

definition u64_be :: "u64 \<Rightarrow> bytes" where
  "u64_be w = be_encode 8 (unat w)"

definition of_be :: "bytes \<Rightarrow> 'a::len word" where
  "of_be bs = word_of_nat (be_decode bs)"

lemma length_be_encode [simp, codec_simps]: "length (be_encode k v) = k"
  by (induction k arbitrary: v) auto

lemma be_decode_Nil [simp]: "be_decode [] = 0"
  by (simp add: be_decode_def)

lemma be_decode_snoc [simp]: "be_decode (bs @ [b]) = be_decode bs * 256 + unat b"
  by (simp add: be_decode_def)

lemma unat_byte_less: "unat (b :: byte) < 256"
  using unsigned_less [of b, where ?'a = nat] by simp

lemma word_unat_eqI: "unat v = unat w \<Longrightarrow> v = w"
  by (rule unsigned_word_eqI)

lemma unat_byte_of_nat [simp]: "unat (word_of_nat v :: byte) = v mod 256"
  by (simp add: unat_of_nat)

lemma be_decode_encode [codec_simps]: "be_decode (be_encode k v) = v mod 256 ^ k"
proof (induction k arbitrary: v)
  case 0
  then show ?case by simp
next
  case (Suc k)
  have "be_decode (be_encode (Suc k) v) = (v div 256) mod 256 ^ k * 256 + v mod 256"
    using Suc.IH by simp
  also have "\<dots> = v mod 256 ^ Suc k"
    by (simp add: mod_mult2_eq mult.commute)
  finally show ?case .
qed

lemma be_decode_bound: "be_decode bs < 256 ^ length bs"
proof (induction bs rule: rev_induct)
  case Nil
  then show ?case by simp
next
  case (snoc b bs)
  have "unat b < 256" by (rule unat_byte_less)
  then have "be_decode (bs @ [b]) < Suc (be_decode bs) * 256" by simp
  also have "\<dots> \<le> 256 ^ length bs * 256"
    using snoc.IH by (intro mult_le_mono1) simp
  finally show ?case by (simp add: mult.commute)
qed

lemma be_encode_decode: "be_encode (length bs) (be_decode bs) = bs"
proof (induction bs rule: rev_induct)
  case Nil
  then show ?case by simp
next
  case (snoc b bs)
  have "unat b < 256" by (rule unat_byte_less)
  then have "(be_decode bs * 256 + unat b) div 256 = be_decode bs" by simp
  moreover have "(word_of_nat (be_decode bs * 256 + unat b) :: byte) = b"
    using \<open>unat b < 256\<close> by (intro word_unat_eqI) (simp only: unat_byte_of_nat, simp)
  ultimately show ?case using snoc.IH by simp
qed


text \<open>A word of \<open>8 * k\<close> bits survives \<open>to_be_bytes\<close> followed by \<open>from_be_bytes\<close>.\<close>

lemma of_be_encode:
  fixes w :: "'a::len word"
  assumes "LENGTH('a) = 8 * k"
  shows "of_be (be_encode k (unat w)) = w"
proof -
  have "unat w < 256 ^ k"
    using unsigned_less [of w, where ?'a = nat] assms by (simp add: power_mult)
  then show ?thesis by (simp add: of_be_def be_decode_encode)
qed

lemma of_be_u16 [simp, codec_simps]: "of_be (u16_be w) = w"
  and of_be_u32 [simp, codec_simps]: "of_be (u32_be v) = v"
  and of_be_u64 [simp, codec_simps]: "of_be (u64_be x) = x"
  by (simp_all add: u16_be_def u32_be_def u64_be_def of_be_encode)

lemma length_u16_be [simp, codec_simps]: "length (u16_be w) = 2"
  and length_u32_be [simp, codec_simps]: "length (u32_be v) = 4"
  and length_u64_be [simp, codec_simps]: "length (u64_be x) = 8"
  by (simp_all add: u16_be_def u32_be_def u64_be_def)

lemma u16_be_inject [simp]: "u16_be v = u16_be w \<longleftrightarrow> v = w"
  and u64_be_inject [simp]: "u64_be x = u64_be y \<longleftrightarrow> x = y"
  by (metis of_be_u16, metis of_be_u64)

lemma unat_of_be:
  assumes "length bs = k" and "LENGTH('a::len) = 8 * k"
  shows "unat (of_be bs :: 'a word) = be_decode bs"
proof -
  have "be_decode bs < 2 ^ LENGTH('a)"
    using be_decode_bound [of bs] assms by (simp add: power_mult)
  then show ?thesis by (simp add: of_be_def unat_of_nat)
qed

lemma u64_be_of_be [codec_simps]: "length bs = 8 \<Longrightarrow> u64_be (of_be bs) = bs"
  using be_encode_decode [of bs] by (simp add: u64_be_def unat_of_be [where k = 8])

lemma u16_be_of_be [codec_simps]: "length bs = 2 \<Longrightarrow> u16_be (of_be bs) = bs"
  using be_encode_decode [of bs] by (simp add: u16_be_def unat_of_be [where k = 2])

section \<open>Integer arithmetic\<close>

text \<open>\<open>u64::checked_add(1)\<close> and \<open>usize::div_ceil\<close>.\<close>

definition checked_succ :: "u64 \<Rightarrow> u64 option" where
  "checked_succ n = (if n = - 1 then None else Some (n + 1))"

definition div_ceil :: "nat \<Rightarrow> nat \<Rightarrow> nat" where
  "div_ceil a b = (if a mod b = 0 then a div b else a div b + 1)"

lemma unat_succ_u64: "(n::u64) \<noteq> - 1 \<Longrightarrow> unat (n + 1) = unat n + 1"
  using unatSuc [of n] by (simp add: eq_neg_iff_add_eq_0 add.commute)

lemma checked_succ_Some: "checked_succ n = Some m \<Longrightarrow> unat m = unat n + 1"
  by (auto simp: checked_succ_def unat_succ_u64 split: if_splits)

lemma div_ceil_mult: "0 < b \<Longrightarrow> a \<le> div_ceil a b * b"
proof -
  assume "0 < b"
  then have le: "a mod b \<le> b" by (rule mod_less_divisor [THEN less_imp_le])
  have eq: "a div b * b + a mod b = a" by (rule div_mult_mod_eq)
  have "a \<le> a div b * b + b" using eq le by linarith
  moreover have "a mod b = 0 \<Longrightarrow> a \<le> a div b * b" using eq by linarith
  ultimately show ?thesis by (auto simp: div_ceil_def)
qed

lemma div_ceil_less:
  assumes "0 < b" and "i < div_ceil a b"
  shows "i * b < a"
proof (cases "a mod b = 0")
  case True
  then have "Suc i \<le> a div b" using assms(2) by (simp add: div_ceil_def)
  then have "Suc i * b \<le> a div b * b" by (rule mult_le_mono1)
  also have "\<dots> \<le> a" by simp
  finally show ?thesis using assms(1) by simp
next
  case False
  then have "i * b \<le> a div b * b" using assms(2) by (simp add: div_ceil_def)
  also have "\<dots> < a" using False by (metis div_mult_mod_eq less_add_same_cancel1 not_gr_zero)
  finally show ?thesis .
qed

lemma less_div_ceilI: "0 < b \<Longrightarrow> i * b < a \<Longrightarrow> i < div_ceil a b"
  using div_ceil_mult [of b a] by (metis leI le_trans linorder_not_less mult_le_mono1)

section \<open>Hash maps\<close>

text \<open>
  A \<open>HashMap\<close> is a finite map: \<open>get\<close> is \<open>fmlookup\<close>, \<open>insert\<close> is \<open>fmupd\<close>, \<open>remove\<close> is
  \<open>fmdrop\<close>; \<open>len\<close> and \<open>retain\<close> are below. No operation of the sources depends on the
  iteration order of a \<open>HashMap\<close>.
\<close>

definition hm_len :: "('k, 'v) fmap \<Rightarrow> nat" where
  "hm_len m = fcard (fmdom m)"

definition hm_contains :: "('k, 'v) fmap \<Rightarrow> 'k \<Rightarrow> bool" where
  "hm_contains m k = (fmlookup m k \<noteq> None)"

definition hm_retain :: "('k \<Rightarrow> 'v \<Rightarrow> bool) \<Rightarrow> ('k, 'v) fmap \<Rightarrow> ('k, 'v) fmap" where
  "hm_retain P m = fmfilter (\<lambda>k. case fmlookup m k of None \<Rightarrow> False | Some v \<Rightarrow> P k v) m"

lemma fmlookup_hm_retain [simp, fmap_simps]:
  "fmlookup (hm_retain P m) k = (case fmlookup m k of None \<Rightarrow> None
     | Some v \<Rightarrow> if P k v then Some v else None)"
  by (auto simp: hm_retain_def split: option.splits)

lemma hm_contains_retain [fmap_simps]:
  "hm_contains (hm_retain P m) k \<longleftrightarrow> (\<exists>v. fmlookup m k = Some v \<and> P k v)"
  by (auto simp: hm_contains_def split: option.splits)

lemma hm_len_retain: "hm_len (hm_retain P m) \<le> hm_len m"
  unfolding hm_len_def hm_retain_def fmdom_filter by (intro fcard_mono) auto

lemma hm_len_upd [fmap_simps]:
  "hm_len (fmupd k v m) = (if hm_contains m k then hm_len m else Suc (hm_len m))"
  unfolding hm_len_def hm_contains_def fmdom_fmupd fcard_finsert_if by (simp add: fmlookup_dom_iff)

lemma hm_len_drop: "hm_len (fmdrop k m) \<le> hm_len m"
  unfolding hm_len_def fmdom_drop by (intro fcard_mono) auto

lemma hm_len_empty [simp, fmap_simps]: "hm_len fmempty = 0"
  by (simp add: hm_len_def)

lemma hm_contains_empty [simp, fmap_simps]: "\<not> hm_contains fmempty k"
  by (simp add: hm_contains_def)

lemma hm_contains_upd [simp, fmap_simps]:
  "hm_contains (fmupd k v m) k' \<longleftrightarrow> k' = k \<or> hm_contains m k'"
  by (auto simp: hm_contains_def)

lemma hm_contains_drop [simp, fmap_simps]:
  "hm_contains (fmdrop k m) k' \<longleftrightarrow> k' \<noteq> k \<and> hm_contains m k'"
  by (auto simp: hm_contains_def)

lemma fmupd_twice [simp, fmap_simps]: "fmupd k v (fmupd k w m) = fmupd k v m" "fmdrop k (fmupd k w m) = fmdrop k m"
  by (auto intro: fmap_ext)

lemma fmupd_same: "fmlookup m k = Some v \<Longrightarrow> fmupd k v m = m"
  by (intro fmap_ext) auto

text \<open>The sum of a measure over the values of a map.\<close>

definition hm_sum :: "('v \<Rightarrow> nat) \<Rightarrow> ('k, 'v) fmap \<Rightarrow> nat" where
  "hm_sum f m = (\<Sum>k \<in> fset (fmdom m). f (the (fmlookup m k)))"

lemma hm_sum_empty [simp, fmap_simps]: "hm_sum f fmempty = 0"
  by (simp add: hm_sum_def)

lemma hm_sum_drop:
  "hm_sum f (fmdrop k m) + (case fmlookup m k of None \<Rightarrow> 0 | Some w \<Rightarrow> f w) = hm_sum f m"
proof -
  have "(\<Sum>j \<in> fset (fmdom m) - {k}. f (the (fmlookup (fmdrop k m) j))) = (\<Sum>j \<in> fset (fmdom m) - {k}. f (the (fmlookup m j)))"
    by (rule sum.cong) auto
  then have eq: "hm_sum f (fmdrop k m) = (\<Sum>j \<in> fset (fmdom m) - {k}. f (the (fmlookup m j)))"
    by (simp add: hm_sum_def)
  show ?thesis
  proof (cases "fmlookup m k")
    case None
    then have "fset (fmdom m) - {k} = fset (fmdom m)" by (auto simp: fmlookup_dom_iff)
    then show ?thesis using None eq by (simp add: hm_sum_def)
  next
    case (Some w)
    then have "k \<in> fset (fmdom m)" by (simp add: fmdomI)
    then show ?thesis using Some eq sum.remove [of "fset (fmdom m)" k "\<lambda>j. f (the (fmlookup m j))"]
      by (simp add: hm_sum_def)
  qed
qed

lemma hm_sum_upd:
  "hm_sum f (fmupd k v m) + (case fmlookup m k of None \<Rightarrow> 0 | Some w \<Rightarrow> f w) = hm_sum f m + f v"
  using hm_sum_drop [of f k "fmupd k v m"] hm_sum_drop [of f k m] by (simp split: option.splits)

section \<open>Event machines\<close>

text \<open>
  Concurrent components are machines that make one step per event. An invariant of the steps holds
  in every run, whatever events occur in whatever order.
\<close>

locale event_machine =
  fixes step :: "'e \<Rightarrow> 's \<Rightarrow> 's" and good :: "'s \<Rightarrow> bool"
  assumes good_step: "good s \<Longrightarrow> good (step e s)"
begin

lemma good_run: "good s \<Longrightarrow> good (fold step evs s)"
  by (induction evs arbitrary: s) (simp_all add: good_step)

end

end
