(* ===== verification/Frames.thy ===== *)
theory Frames
  imports Base
begin

text \<open>
  Length-prefixed frames on QUIC streams, \<open>write_frame\<close> and \<open>read_frame\<close> of \<open>src/crypto.rs\<close>,
  and Noise messages in frames, \<open>write_transport\<close> and \<open>read_transport\<close>. Quinn's streams and
  snow's \<open>TransportState\<close> are parameters, records of the functions the code calls; what is
  relied on of them are the hypotheses \<open>send_ordered\<close>, \<open>recv_reliable\<close> and
  \<open>transport_pair\<close>.
\<close>

section \<open>Streams and the Noise transport, parameters\<close>

text \<open>
  \<open>rcv_read R r n\<close> is \<open>recv.read(buf)\<close> with a buffer of \<open>n\<close> bytes: the bytes that arrived, or
  \<open>None\<close> at the end of the stream.
\<close>

record 's send_api =
  snd_write_all :: "'s \<Rightarrow> bytes \<Rightarrow> unit result \<times> 's"
  snd_finish :: "'s \<Rightarrow> unit result \<times> 's"

record 'r recv_api =
  rcv_read :: "'r \<Rightarrow> nat \<Rightarrow> bytes option result \<times> 'r"
  rcv_read_exact :: "'r \<Rightarrow> nat \<Rightarrow> bytes result \<times> 'r"

text \<open>
  \<open>ts_write T t plain cap\<close> is \<open>state.write_message(plain, buf)\<close> with a buffer of \<open>cap\<close> bytes;
  \<open>ts_read\<close> likewise.
\<close>

record 't transport_api =
  ts_write :: "'t \<Rightarrow> bytes \<Rightarrow> nat \<Rightarrow> bytes result \<times> 't"
  ts_read :: "'t \<Rightarrow> bytes \<Rightarrow> nat \<Rightarrow> bytes result \<times> 't"

text \<open>\<open>out s\<close> is what has been written to a stream: a successful write appends its bytes.\<close>

definition send_ordered :: "'s send_api \<Rightarrow> ('s \<Rightarrow> bytes) \<Rightarrow> bool" where
  "send_ordered W out \<longleftrightarrow>
     (\<forall>s d s'. snd_write_all W s d = (Ok (), s') \<longrightarrow> out s' = out s @ d) \<and>
     (\<forall>s s'. snd_finish W s = (Ok (), s') \<longrightarrow> out s' = out s)"

text \<open>A stream whose peer has not stopped it: writes and the final \<open>finish\<close> succeed.\<close>

definition send_live :: "'s send_api \<Rightarrow> ('s \<Rightarrow> bytes) \<Rightarrow> bool" where
  "send_live W out \<longleftrightarrow>
     (\<forall>s d. \<exists>s'. snd_write_all W s d = (Ok (), s') \<and> out s' = out s @ d) \<and>
     (\<forall>s. \<exists>s'. snd_finish W s = (Ok (), s') \<and> out s' = out s)"

text \<open>
  \<open>inp r\<close> is what is left to read before the end of a stream that is not reset: reads return
  the next bytes in order, and an exact read fails only when the stream ends too early.
\<close>

definition recv_reliable :: "'r recv_api \<Rightarrow> ('r \<Rightarrow> bytes) \<Rightarrow> bool" where
  "recv_reliable R inp \<longleftrightarrow>
     (\<forall>r n. 0 < n \<longrightarrow> inp r = [] \<longrightarrow> (\<exists>r'. rcv_read R r n = (Ok None, r') \<and> inp r' = [])) \<and>
     (\<forall>r n. 0 < n \<longrightarrow> inp r \<noteq> [] \<longrightarrow> (\<exists>b r'. rcv_read R r n = (Ok (Some b), r') \<and>
        b \<noteq> [] \<and> length b \<le> n \<and> inp r = b @ inp r')) \<and>
     (\<forall>r n. n \<le> length (inp r) \<longrightarrow>
        (\<exists>r'. rcv_read_exact R r n = (Ok (take n (inp r)), r') \<and> inp r' = drop n (inp r))) \<and>
     (\<forall>r n. length (inp r) < n \<longrightarrow> (\<exists>e r'. rcv_read_exact R r n = (Err e, r')))"

text \<open>
  The two directions of a Noise session are independent, and a message written in one end's
  sending state is 16 bytes longer than its plaintext and is read by the other end's matching
  receiving state; afterwards the states match again.
\<close>

definition transport_pair :: "'t transport_api \<Rightarrow> ('t \<Rightarrow> 'v) \<Rightarrow> ('t \<Rightarrow> 'v) \<Rightarrow> ('v \<Rightarrow> 'v \<Rightarrow> bool) \<Rightarrow> bool" where
  "transport_pair T txv rxv peer \<longleftrightarrow>
     (\<forall>t p cap x t'. ts_write T t p cap = (x, t') \<longrightarrow> rxv t' = rxv t) \<and>
     (\<forall>t c cap x t'. ts_read T t c cap = (x, t') \<longrightarrow> txv t' = txv t) \<and>
     (\<forall>a b p cap c a' cap'. peer (txv a) (rxv b) \<longrightarrow> ts_write T a p cap = (Ok c, a') \<longrightarrow>
        length c = length p + 16 \<and>
        (length c \<le> cap' \<longrightarrow> (\<exists>b'. ts_read T b c cap' = (Ok p, b') \<and> peer (txv a') (rxv b'))))"

section \<open>Frames\<close>

definition MAX_FRAME :: nat where "MAX_FRAME = 65535"

definition write_frame :: "'s send_api \<Rightarrow> 's \<Rightarrow> bytes \<Rightarrow> unit result \<times> 's" where
  "write_frame W s data =
     (if \<not> length data \<le> MAX_FRAME then (Err (CryptoError FrameTooLarge), s) else
      case snd_write_all W s (u32_be (word_of_nat (length data))) of
        (Err e, s1) \<Rightarrow> (Err e, s1)
      | (Ok _, s1) \<Rightarrow> snd_write_all W s1 data)"

text \<open>The one-byte read that tells an orderly end from a truncated frame fills \<open>prefix[0]\<close>.\<close>

definition read_frame :: "'r recv_api \<Rightarrow> 'r \<Rightarrow> bytes option result \<times> 'r" where
  "read_frame R r =
     (case rcv_read R r 1 of
        (Err e, r1) \<Rightarrow> (Err e, r1)
      | (Ok None, r1) \<Rightarrow> (Ok None, r1)
      | (Ok (Some b), r1) \<Rightarrow>
          (case rcv_read_exact R r1 3 of
             (Err e, r2) \<Rightarrow> (Err e, r2)
           | (Ok tail, r2) \<Rightarrow>
               (let len = unat (of_be (take 1 (b @ [0]) @ tail) :: u32) in
                if \<not> len \<le> MAX_FRAME then (Err (CryptoError OversizedFrame), r2) else
                case rcv_read_exact R r2 len of
                  (Err e, r3) \<Rightarrow> (Err e, r3)
                | (Ok data, r3) \<Rightarrow> (Ok (Some data), r3))))"

definition write_transport :: "'t transport_api \<Rightarrow> 's send_api \<Rightarrow> 't \<Rightarrow> 's \<Rightarrow> bytes
    \<Rightarrow> unit result \<times> 't \<times> 's" where
  "write_transport T W t s payload =
     (case ts_write T t payload (length payload + 16) of
        (Err e, t') \<Rightarrow> (Err e, t', s)
      | (Ok c, t') \<Rightarrow> (case write_frame W s c of (x, s') \<Rightarrow> (x, t', s')))"

definition read_transport :: "'t transport_api \<Rightarrow> 'r recv_api \<Rightarrow> 't \<Rightarrow> 'r
    \<Rightarrow> bytes option result \<times> 't \<times> 'r" where
  "read_transport T R t r =
     (case read_frame R r of
        (Err e, r') \<Rightarrow> (Err e, t, r')
      | (Ok None, r') \<Rightarrow> (Ok None, t, r')
      | (Ok (Some cipher), r') \<Rightarrow>
          (case ts_read T t cipher (length cipher) of
             (Err e, t') \<Rightarrow> (Err e, t', r')
           | (Ok plain, t') \<Rightarrow> (Ok (Some plain), t', r')))"

text \<open>Writing, respectively reading up to the end of the stream, a sequence of frames.\<close>

fun write_frames :: "'s send_api \<Rightarrow> 's \<Rightarrow> bytes list \<Rightarrow> unit result \<times> 's" where
  "write_frames W s [] = (Ok (), s)"
| "write_frames W s (d # ds) =
     (case write_frame W s d of (Err e, s') \<Rightarrow> (Err e, s') | (Ok _, s') \<Rightarrow> write_frames W s' ds)"

fun read_frames :: "nat \<Rightarrow> 'r recv_api \<Rightarrow> 'r \<Rightarrow> bytes list result option" where
  "read_frames 0 R r = None"
| "read_frames (Suc fuel) R r =
     (case read_frame R r of
        (Err e, r') \<Rightarrow> Some (Err e)
      | (Ok None, r') \<Rightarrow> Some (Ok [])
      | (Ok (Some d), r') \<Rightarrow> map_option (\<lambda>x. rbind x (\<lambda>ds. Ok (d # ds))) (read_frames fuel R r'))"

section \<open>The byte format\<close>

text \<open>
  The format on the wire as a codec, apart from any stream: what \<open>write_frame\<close> writes and what
  \<open>read_frame\<close> makes of the bytes ahead (\<open>None\<close> for a truncated or oversized frame).
\<close>

definition frame_bytes :: "bytes \<Rightarrow> bytes" where
  "frame_bytes d = u32_be (word_of_nat (length d)) @ d"

definition parse_frame :: "bytes \<Rightarrow> (bytes \<times> bytes) option" where
  "parse_frame bs =
     (let len = unat (of_be (take 4 bs) :: u32) in
      if 4 \<le> length bs \<and> len \<le> MAX_FRAME \<and> 4 + len \<le> length bs
      then Some (take len (drop 4 bs), drop (4 + len) bs) else None)"

text \<open>The bytes that have arrived so far do not suffice for \<open>read_frame\<close> to return: it waits.\<close>

definition frame_pending :: "bytes \<Rightarrow> bool" where
  "frame_pending bs \<longleftrightarrow> length bs < 4 \<or>
     (let len = unat (of_be (take 4 bs) :: u32) in len \<le> MAX_FRAME \<and> length bs < 4 + len)"

definition frame_fits :: "bytes \<Rightarrow> bool" where
  "frame_fits d \<longleftrightarrow> length d \<le> MAX_FRAME"

text \<open>A stream that holds its bytes in a list, for the concrete instances below.\<close>

definition list_send :: "bytes send_api" where
  "list_send = \<lparr>snd_write_all = (\<lambda>s d. (Ok (), s @ d)), snd_finish = (\<lambda>s. (Ok (), s))\<rparr>"

definition list_recv :: "bytes recv_api" where
  "list_recv = \<lparr>rcv_read = (\<lambda>r n. if r = [] then (Ok None, []) else (Ok (Some (take n r)), drop n r)),
     rcv_read_exact = (\<lambda>r n. if n \<le> length r then (Ok (take n r), drop n r)
        else (Err (External ''finished early''), []))\<rparr>"

text \<open>
  A self-delimiting format: \<open>dec\<close> finds the message \<open>enc\<close> wrote, whatever follows it. Two
  consequences serve every user of the format: a sequence of messages is recovered from the
  concatenation of its encodings, and no two sequences share it.
\<close>

locale self_delimiting =
  fixes enc :: "'m \<Rightarrow> bytes" and dec :: "bytes \<Rightarrow> ('m \<times> bytes) option" and fits :: "'m \<Rightarrow> bool"
  assumes dec_enc: "fits m \<Longrightarrow> dec (enc m @ rest) = Some (m, rest)"
    and enc_nonempty: "enc m \<noteq> []"
begin

lemma stream_prefix:
  assumes "fits m" "fits n" and eq: "enc m @ x = enc n @ y"
  shows "m = n" and "x = y"
proof -
  have "Some (m, x) = Some (n, y)"
    unfolding dec_enc [OF assms(1), of x, symmetric] dec_enc [OF assms(2), of y, symmetric] eq ..
  then show "m = n" and "x = y" by blast+
qed

lemma stream_inject:
  "\<forall>m \<in> set ms. fits m \<Longrightarrow> \<forall>m \<in> set ns. fits m \<Longrightarrow>
   concat (map enc ms) = concat (map enc ns) \<Longrightarrow> ms = ns"
proof (induction ms arbitrary: ns)
  case Nil
  then show ?case using enc_nonempty by (cases ns) auto
next
  case (Cons m ms)
  obtain n ns' where ns: "ns = n # ns'"
    using enc_nonempty [of m] Cons.prems(3) by (cases ns) simp_all
  then have eq: "enc m @ concat (map enc ms) = enc n @ concat (map enc ns')"
    and fit: "fits m" "fits n" using Cons.prems by simp_all
  have "ms = ns'"
    by (rule Cons.IH) (use Cons.prems ns stream_prefix(2) [OF fit eq] in simp_all)
  then show ?case using ns stream_prefix(1) [OF fit eq] by simp
qed

end

lemma frame_prefix_len: "length d \<le> MAX_FRAME \<Longrightarrow> unat (word_of_nat (length d) :: u32) = length d"
  by (simp add: unat_of_nat MAX_FRAME_def)

interpretation frame: self_delimiting frame_bytes parse_frame frame_fits
proof
  fix d rest
  assume "frame_fits d"
  then show "parse_frame (frame_bytes d @ rest) = Some (d, rest)"
    by (simp add: parse_frame_def frame_bytes_def frame_fits_def frame_prefix_len)
next
  fix d
  show "frame_bytes d \<noteq> []" by (simp add: frame_bytes_def u32_be_def flip: length_0_conv)
qed

lemma frame_pending_simps [simp]:
  "frame_pending []"
  "frame_fits d \<Longrightarrow> \<not> frame_pending (frame_bytes d @ rest)"
  by (simp_all add: frame_pending_def frame_bytes_def frame_fits_def frame_prefix_len Let_def)

section \<open>Frames over streams\<close>

lemma list_send_ordered: "send_ordered list_send (\<lambda>s. s)"
  by (simp add: send_ordered_def list_send_def)

lemma list_send_live: "send_live list_send (\<lambda>s. s)"
  by (simp add: send_live_def list_send_def)

lemma send_live_ordered: "send_live W out \<Longrightarrow> send_ordered W out"
  unfolding send_live_def send_ordered_def by (metis Pair_inject)

lemma list_recv_reliable: "recv_reliable list_recv (\<lambda>r. r)"
  by (auto simp: recv_reliable_def list_recv_def)

lemma write_frame_Ok:
  assumes "send_ordered W out" "write_frame W s d = (Ok (), s')"
  shows "frame_fits d \<and> out s' = out s @ frame_bytes d"
  using assms unfolding send_ordered_def write_frame_def frame_bytes_def frame_fits_def
  by (auto split: if_splits prod.splits result.splits)

lemma write_frame_live:
  assumes "send_live W out" "frame_fits d"
  shows "\<exists>s'. write_frame W s d = (Ok (), s') \<and> out s' = out s @ frame_bytes d"
proof -
  obtain s1 where 1: "snd_write_all W s (u32_be (word_of_nat (length d))) = (Ok (), s1)"
    "out s1 = out s @ u32_be (word_of_nat (length d))"
    using assms(1) unfolding send_live_def by blast
  obtain s2 where "snd_write_all W s1 d = (Ok (), s2)" "out s2 = out s1 @ d"
    using assms(1) unfolding send_live_def by blast
  then show ?thesis using 1 assms(2) by (simp add: write_frame_def frame_bytes_def frame_fits_def)
qed

lemma write_frames_Ok:
  "send_ordered W out \<Longrightarrow> write_frames W s ds = (Ok (), s') \<Longrightarrow>
   (\<forall>d \<in> set ds. frame_fits d) \<and> out s' = out s @ concat (map frame_bytes ds)"
proof (induction ds arbitrary: s)
  case Nil
  then show ?case by simp
next
  case (Cons d ds)
  then obtain s1 where "write_frame W s d = (Ok (), s1)" "write_frames W s1 ds = (Ok (), s')"
    by (auto split: prod.splits result.splits)
  with Cons.IH [OF Cons.prems(1)] write_frame_Ok [OF Cons.prems(1)] show ?case by fastforce
qed

text \<open>On a stream that is not reset, \<open>read_frame\<close> computes \<open>parse_frame\<close> of what is ahead.\<close>

lemma read_frame_end:
  "recv_reliable R inp \<Longrightarrow> inp r = [] \<Longrightarrow> \<exists>r'. read_frame R r = (Ok None, r') \<and> inp r' = []"
  unfolding recv_reliable_def read_frame_def by (metis (no_types, lifting) case_prod_conv
    option.simps(4) result.simps(5) zero_less_one)

lemma recv_exact:
  assumes "recv_reliable R inp"
  obtains (enough) r' where "n \<le> length (inp r)" "rcv_read_exact R r n = (Ok (take n (inp r)), r')"
      "inp r' = drop n (inp r)"
  | (short) e r' where "length (inp r) < n" "rcv_read_exact R r n = (Err e, r')"
  using assms unfolding recv_reliable_def by (meson not_le)

lemma read_frame_parses:
  assumes R: "recv_reliable R inp" and ne: "inp r \<noteq> []"
  shows "case parse_frame (inp r) of
     Some (d, rest) \<Rightarrow> \<exists>r'. read_frame R r = (Ok (Some d), r') \<and> inp r' = rest
   | None \<Rightarrow> \<exists>e r'. read_frame R r = (Err e, r')"
proof -
  obtain b r1 where b: "rcv_read R r 1 = (Ok (Some b), r1)" "b \<noteq> []" "length b \<le> 1" "inp r = b @ inp r1"
    using R ne unfolding recv_reliable_def by (meson zero_less_one)
  then obtain x where x: "b = [x]" by (cases b) auto
  show ?thesis
  proof (cases rule: recv_exact [OF R, of 3 r1, case_names enough short])
    case (short e r')
    then show ?thesis using b x by (simp add: read_frame_def parse_frame_def)
  next
    case (enough r2)
    have four: "take 4 (inp r) = x # take 3 (inp r1)" "drop 4 (inp r) = inp r2" "length (inp r) = length (inp r2) + 4"
      using b x enough by simp_all
    have skip: "drop (4 + n) (inp r) = drop n (inp r2)" for n
      unfolding four(2) [symmetric] by (simp add: add.commute)
    let ?len = "unat (of_be (x # take 3 (inp r1)) :: u32)"
    have rd: "read_frame R r = (if \<not> ?len \<le> MAX_FRAME then (Err (CryptoError OversizedFrame), r2) else
        case rcv_read_exact R r2 ?len of (Err e, r3) \<Rightarrow> (Err e, r3) | (Ok data, r3) \<Rightarrow> (Ok (Some data), r3))"
      using b x enough by (simp add: read_frame_def Let_def)
    have ps: "parse_frame (inp r) = (if ?len \<le> MAX_FRAME \<and> ?len \<le> length (inp r2)
        then Some (take ?len (inp r2), drop ?len (inp r2)) else None)"
      using four by (simp add: parse_frame_def Let_def skip)
    show ?thesis
      by (rule recv_exact [OF R, of ?len r2]) (simp_all add: rd ps)
  qed
qed

lemma read_frame_enc:
  assumes "recv_reliable R inp" "frame_fits d" "inp r = frame_bytes d @ rest"
  shows "\<exists>r'. read_frame R r = (Ok (Some d), r') \<and> inp r' = rest"
proof -
  have "inp r \<noteq> []" using assms(3) frame.enc_nonempty by simp
  from read_frame_parses [OF assms(1) this] show ?thesis
    using assms(2,3) frame.dec_enc by simp
qed

lemma read_frames_enc:
  assumes "recv_reliable R inp"
  shows "\<forall>d \<in> set ds. frame_fits d \<Longrightarrow> inp r = concat (map frame_bytes ds) \<Longrightarrow> length ds < fuel \<Longrightarrow>
    read_frames fuel R r = Some (Ok ds)"
proof (induction ds arbitrary: r fuel)
  case Nil
  then obtain f where "fuel = Suc f" by (cases fuel) auto
  then show ?case using read_frame_end [OF assms, of r] Nil by auto
next
  case (Cons d ds)
  then obtain f where f: "fuel = Suc f" "length ds < f" by (cases fuel) auto
  obtain r' where "read_frame R r = (Ok (Some d), r')" "inp r' = concat (map frame_bytes ds)"
    using read_frame_enc [OF assms, of d r] Cons.prems by auto
  then show ?case using Cons.IH [of r' f] Cons.prems f by simp
qed

lemma parse_frame_truncated:
  assumes "frame_fits d" "k < length (frame_bytes d)"
  shows "parse_frame (take k (frame_bytes d)) = None"
proof (cases "k < 4")
  case True
  then show ?thesis by (simp add: parse_frame_def)
next
  case False
  then have "take 4 (take k (frame_bytes d)) = u32_be (word_of_nat (length d))"
    by (simp add: frame_bytes_def min_def)
  moreover have "k < 4 + length d" using assms(2) by (simp add: frame_bytes_def)
  ultimately show ?thesis
    using assms(1) by (simp add: parse_frame_def Let_def frame_fits_def frame_prefix_len)
qed

lemma read_frames_truncated:
  assumes "recv_reliable R inp" "frame_fits d" "0 < k" "k < length (frame_bytes d)"
  shows "\<forall>d \<in> set ds. frame_fits d \<Longrightarrow>
    inp r = concat (map frame_bytes ds) @ take k (frame_bytes d) \<Longrightarrow> length ds < fuel \<Longrightarrow>
    \<exists>e. read_frames fuel R r = Some (Err e)"
proof (induction ds arbitrary: r fuel)
  case Nil
  then obtain f where f: "fuel = Suc f" by (cases fuel) auto
  have "inp r \<noteq> []" using Nil assms(3,4) by auto
  from read_frame_parses [OF assms(1) this] show ?case
    using Nil f parse_frame_truncated [OF assms(2,4)] by auto
next
  case (Cons c ds)
  then obtain f where f: "fuel = Suc f" "length ds < f" by (cases fuel) auto
  obtain r' where "read_frame R r = (Ok (Some c), r')"
    "inp r' = concat (map frame_bytes ds) @ take k (frame_bytes d)"
    using read_frame_enc [OF assms(1), of c r] Cons.prems by auto
  then show ?case using Cons.IH [of r' f] Cons.prems f by auto
qed

section \<open>Properties\<close>

text \<open>
  C26: Frame round trip. Frames written to one end of a QUIC stream come out of the other end
  complete, in order and with nothing added, and the reader then sees the end of the stream.
\<close>

theorem frames_roundtrip:
  assumes "send_ordered W out" "recv_reliable R inp"
    and "out s = []" "write_frames W s ds = (Ok (), s')" "inp r = out s'" "length ds < fuel"
  shows "read_frames fuel R r = Some (Ok ds)"
  using write_frames_Ok [OF assms(1,4)] assms(3,5,6) by (intro read_frames_enc [OF assms(2)]) simp_all

theorem frames_roundtrip_witness:
  "read_frames 3 list_recv (snd (write_frames list_send [] [[1, 2], []])) = Some (Ok [[1, 2], []])"
  by (rule frames_roundtrip [OF list_send_ordered list_recv_reliable])
     (simp_all add: write_frame_def list_send_def MAX_FRAME_def)

text \<open>
  Truncation is an error. A stream that ends inside a frame, at any byte of its length
  prefix or of its data, is reported as an error and never as an orderly end.
\<close>

lemma truncated_stream_is_error:
  assumes "recv_reliable R inp" "\<forall>d \<in> set ds. frame_fits d" "frame_fits d"
    and "0 < k" "k < length (frame_bytes d)"
    and "inp r = concat (map frame_bytes ds) @ take k (frame_bytes d)" "length ds < fuel"
  shows "\<exists>e. read_frames fuel R r = Some (Err e)"
  by (rule read_frames_truncated [OF assms(1,3-5,2,6,7)])

end
