(* ===== verification/Replay_Window.thy ===== *)
theory Replay_Window
  imports Base
begin

text \<open>
  The sliding replay window of \<open>src/crypto.rs\<close> (struct \<open>ReplayWindow\<close>): the highest nonce
  recorded so far and a ring of 1024 bits in sixteen 64-bit words. The abstract view is the
  set of nonces recorded; \<open>represents\<close> relates the two, and the interface locale
  \<open>replay_filter\<close> states what the datagram cipher relies on.
\<close>

unbundle bit_operations_syntax

section \<open>The window\<close>

record replay_window =
  rw_highest :: "u64 option"
  rw_seen :: "u64 list"

definition rw_default :: replay_window where
  "rw_default = \<lparr>rw_highest = None, rw_seen = replicate 16 0\<rparr>"

definition slot :: "u64 \<Rightarrow> nat" where
  "slot n = unat (n mod 1024 div 64)"

definition nonce_mask :: "u64 \<Rightarrow> u64" where
  "nonce_mask n = push_bit (unat (n mod 64)) 1"

definition acceptable :: "replay_window \<Rightarrow> u64 \<Rightarrow> bool" where
  "acceptable r n = (case rw_highest r of
      None \<Rightarrow> True
    | Some h \<Rightarrow> if n > h then True
        else h - n < 1024 \<and> (rw_seen r ! slot n) AND nonce_mask n = 0)"

definition clear_bit :: "u64 \<Rightarrow> u64 list \<Rightarrow> u64 list" where
  "clear_bit x seen = seen[slot x := (seen ! slot x) AND NOT (nonce_mask x)]"

definition mark_bit :: "u64 \<Rightarrow> u64 list \<Rightarrow> u64 list" where
  "mark_bit x seen = seen[slot x := (seen ! slot x) OR nonce_mask x]"

definition range_incl :: "u64 \<Rightarrow> u64 \<Rightarrow> u64 list" where
  "range_incl a b = map word_of_nat [unat a ..< Suc (unat b)]"

definition record_nonce :: "replay_window \<Rightarrow> u64 \<Rightarrow> replay_window" where
  "record_nonce r n =
     (let seen1 = (case rw_highest r of
            Some h \<Rightarrow> if n > h
              then (if n - h \<ge> 1024 then replicate 16 0
                    else fold clear_bit (range_incl (h + 1) n) (rw_seen r))
              else rw_seen r
          | None \<Rightarrow> rw_seen r);
        highest1 = (case rw_highest r of None \<Rightarrow> n | Some h \<Rightarrow> max h n)
      in \<lparr>rw_highest = Some highest1, rw_seen = mark_bit n seen1\<rparr>)"

text \<open>
  Running a filter over incoming messages, each with its nonce and with whether everything
  else about it (length, authentication) is right. The state moves only when both agree.
\<close>

fun guarded_run :: "('w \<Rightarrow> u64 \<Rightarrow> bool) \<Rightarrow> ('w \<Rightarrow> u64 \<Rightarrow> 'w) \<Rightarrow> 'w \<Rightarrow> (u64 \<times> bool) list \<Rightarrow> bool list" where
  "guarded_run acc upd w [] = []"
| "guarded_run acc upd w ((n, good) # es) =
     (if acc w n \<and> good then True # guarded_run acc upd (upd w n) es
      else False # guarded_run acc upd w es)"

section \<open>Bits of the ring\<close>

definition ring_bit :: "u64 list \<Rightarrow> nat \<Rightarrow> bool" where
  "ring_bit seen p = bit (seen ! (p div 64)) (p mod 64)"

lemma slot_eq: "slot n = unat n mod 1024 div 64"
  by (simp add: slot_def unat_div unat_mod)

lemma slot_less [simp]: "slot n < 16"
  using mod_less_divisor [of 1024 "unat n"] by (simp add: slot_eq less_mult_imp_div_less)

lemma mod_ring: "unat (n::u64) mod 1024 mod 64 = unat n mod 64"
  by (simp add: mod_mod_cancel)

lemma bit_mask [simp]: "bit (nonce_mask n) k \<longleftrightarrow> k = unat n mod 64"
proof -
  have "unat n mod 64 < 64" by simp
  then show ?thesis
    unfolding nonce_mask_def by (auto simp: unat_mod bit_exp_iff)
qed

lemma and_mask_eq_0: "w AND nonce_mask n = 0 \<longleftrightarrow> \<not> bit w (unat n mod 64)"
proof -
  have "unat n mod 64 < 64" by simp
  then show ?thesis
    by (auto simp: bit_eq_iff [of "w AND nonce_mask n"] bit_and_iff dest: spec [of _ "unat n mod 64"])
qed

lemma length_ring_ops [simp]:
  "length (clear_bit x s) = length s" "length (mark_bit x s) = length s"
  by (simp_all add: clear_bit_def mark_bit_def)

lemma length_fold_clear [simp]: "length (fold clear_bit xs s) = length s"
  by (induction xs arbitrary: s) simp_all

lemma same_cell_iff:
  "p < 1024 \<Longrightarrow> p = unat (n::u64) mod 1024 \<longleftrightarrow> p div 64 = slot n \<and> p mod 64 = unat n mod 64"
  by (metis div_mult_mod_eq mod_ring slot_eq)

lemma ring_bit_mark:
  assumes "length s = 16" "p < 1024"
  shows "ring_bit (mark_bit n s) p \<longleftrightarrow> ring_bit s p \<or> p = unat n mod 1024"
  unfolding same_cell_iff [OF assms(2)]
  by (cases "p div 64 = slot n")
     (auto simp: ring_bit_def mark_bit_def assms bit_or_iff nth_list_update)

lemma ring_bit_clear:
  assumes "length s = 16" "p < 1024"
  shows "ring_bit (clear_bit n s) p \<longleftrightarrow> ring_bit s p \<and> p \<noteq> unat n mod 1024"
proof -
  have "p mod 64 < 64" by simp
  then show ?thesis
    unfolding same_cell_iff [OF assms(2)]
    by (cases "p div 64 = slot n")
       (auto simp: ring_bit_def clear_bit_def assms bit_and_iff bit_not_iff nth_list_update)
qed

lemma ring_bit_fold_clear:
  assumes "length s = 16" "p < 1024"
  shows "ring_bit (fold clear_bit xs s) p \<longleftrightarrow> ring_bit s p \<and> p \<notin> (\<lambda>x. unat x mod 1024) ` set xs"
  using assms(1) by (induction xs arbitrary: s) (auto simp: ring_bit_clear assms(2))

lemma ring_bit_zero: "p < 1024 \<Longrightarrow> \<not> ring_bit (replicate 16 0) p"
  by (simp add: ring_bit_def less_mult_imp_div_less)

lemma test_ring_bit: "(s ! slot n) AND nonce_mask n = 0 \<longleftrightarrow> \<not> ring_bit s (unat n mod 1024)"
  by (simp add: and_mask_eq_0 ring_bit_def slot_eq mod_ring)

section \<open>Representation of the recorded nonces\<close>

text \<open>
  \<open>represents r S\<close>: the window \<open>r\<close> stands for the history \<open>S\<close> of recorded nonces. Each ring
  bit answers for the one nonce of the last 1024 that falls on it.
\<close>

definition represents :: "replay_window \<Rightarrow> u64 set \<Rightarrow> bool" where
  "represents r S \<longleftrightarrow> length (rw_seen r) = 16 \<and>
     (case rw_highest r of
        None \<Rightarrow> S = {} \<and> (\<forall>p<1024. \<not> ring_bit (rw_seen r) p)
      | Some h \<Rightarrow> h \<in> S \<and> (\<forall>x\<in>S. x \<le> h) \<and>
          (\<forall>p<1024. ring_bit (rw_seen r) p \<longleftrightarrow>
             (\<exists>x\<in>S. unat h < unat x + 1024 \<and> unat x mod 1024 = p)))"

text \<open>The abstract acceptance rule: never recorded, and not older than the last 1024 nonces.\<close>

definition fresh_in_window :: "u64 set \<Rightarrow> u64 \<Rightarrow> bool" where
  "fresh_in_window S n \<longleftrightarrow> n \<notin> S \<and> (\<forall>x\<in>S. unat x < unat n + 1024)"

lemma fresh_in_window_insert:
  "fresh_in_window (insert x S) n \<longleftrightarrow> n \<noteq> x \<and> unat x < unat n + 1024 \<and> fresh_in_window S n"
  by (auto simp: fresh_in_window_def)

lemma represents_default: "represents rw_default {}"
  by (simp add: represents_def rw_default_def ring_bit_zero)

lemma representsD_Some:
  assumes "represents r S" "rw_highest r = Some h"
  shows "length (rw_seen r) = 16" "h \<in> S" "\<And>x. x \<in> S \<Longrightarrow> unat x \<le> unat h"
    "\<And>p. p < 1024 \<Longrightarrow> ring_bit (rw_seen r) p \<longleftrightarrow>
       (\<exists>x\<in>S. unat h < unat x + 1024 \<and> unat x mod 1024 = p)"
  using assms by (auto simp: represents_def word_le_nat_alt)

lemma representsD_None:
  assumes "represents r S" "rw_highest r = None"
  shows "length (rw_seen r) = 16" "S = {}" "\<And>p. p < 1024 \<Longrightarrow> \<not> ring_bit (rw_seen r) p"
  using assms by (auto simp: represents_def)

text \<open>Two nonces of the same 1024-wide span that fall on one ring bit are equal.\<close>

lemma mod_1024_unique:
  fixes a b h :: nat
  assumes "a \<le> h" "b \<le> h" "h < a + 1024" "h < b + 1024" "a mod 1024 = b mod 1024"
  shows "a = b"
proof (rule ccontr)
  assume "a \<noteq> b"
  then consider "a < b" | "b < a" by linarith
  then show False
  proof cases
    case 1
    then have "1024 dvd b - a" using assms(5) by (metis mod_eq_dvd_iff_nat less_imp_le)
    then have "1024 \<le> b - a" using 1 by (intro dvd_imp_le) auto
    then show False using assms by linarith
  next
    case 2
    then have "1024 dvd a - b" using assms(5) by (metis mod_eq_dvd_iff_nat less_imp_le)
    then have "1024 \<le> a - b" using 2 by (intro dvd_imp_le) auto
    then show False using assms by linarith
  qed
qed

lemma span_test: "n \<le> h \<Longrightarrow> h - n < (1024::u64) \<longleftrightarrow> unat h < unat n + 1024"
  by (simp add: word_less_nat_alt word_le_nat_alt unat_sub) linarith

lemma acceptable_iff:
  assumes "represents r S"
  shows "acceptable r n \<longleftrightarrow> fresh_in_window S n"
proof (cases "rw_highest r")
  case None
  then show ?thesis
    using representsD_None [OF assms] by (simp add: acceptable_def fresh_in_window_def)
next
  case (Some h)
  note R = representsD_Some [OF assms Some]
  show ?thesis
  proof (cases "n > h")
    case True
    then have "n \<notin> S" using R(3) [of n] by (auto simp: word_less_nat_alt)
    moreover have "\<forall>x\<in>S. unat x < unat n + 1024"
      using True R(3) by (fastforce simp: word_less_nat_alt)
    ultimately show ?thesis using True Some by (simp add: acceptable_def fresh_in_window_def)
  next
    case False
    then have le: "unat n \<le> unat h" by (simp add: word_less_nat_alt)
    have bit: "ring_bit (rw_seen r) (unat n mod 1024) \<longleftrightarrow> n \<in> S"
      if span: "unat h < unat n + 1024"
    proof -
      have "unat x = unat n" if "x \<in> S" "unat h < unat x + 1024" "unat x mod 1024 = unat n mod 1024"
        for x
        using mod_1024_unique [OF R(3) [OF that(1)] le that(2) span that(3)] .
      then show ?thesis using R(4) [of "unat n mod 1024"] span by (auto dest: word_unat_eqI)
    qed
    have far: "(\<forall>x\<in>S. unat x < unat n + 1024) \<longleftrightarrow> unat h < unat n + 1024"
      using R(2,3) by (auto intro: le_less_trans)
    have "acceptable r n \<longleftrightarrow> unat h < unat n + 1024 \<and> \<not> ring_bit (rw_seen r) (unat n mod 1024)"
      using False Some by (simp add: acceptable_def span_test test_ring_bit)
    then show ?thesis using bit far by (auto simp: fresh_in_window_def)
  qed
qed

lemma range_incl_positions:
  assumes "h < n"
  shows "(\<lambda>x. unat x mod 1024) ` set (range_incl (h + 1) n)
       = (\<lambda>y. y mod 1024) ` {unat h <.. unat n}"
proof -
  have "h \<noteq> - 1" using assms by (metis word_n1_ge not_less)
  then have "unat (h + 1) = Suc (unat h)" by (simp add: unat_succ_u64)
  then have "set (range_incl (h + 1) n) = word_of_nat ` {unat h <.. unat n}"
    by (auto simp: range_incl_def)
  moreover have "unat (word_of_nat y :: u64) = y" if "y \<in> {unat h <.. unat n}" for y
    using that unsigned_less [of n, where ?'a = nat] by (simp add: unat_of_nat)
  ultimately show ?thesis by (simp add: image_image cong: image_cong_simp)
qed

text \<open>What remains of the old history after the ring has moved on to a higher nonce.\<close>

lemma surviving_positions:
  fixes h n x :: nat
  assumes "x \<le> h" "h < n" "n < h + 1024"
  shows "h < x + 1024 \<and> x mod 1024 \<notin> (\<lambda>y. y mod 1024) ` {h <.. n} \<longleftrightarrow> n < x + 1024"
proof
  assume L: "h < x + 1024 \<and> x mod 1024 \<notin> (\<lambda>y. y mod 1024) ` {h <.. n}"
  show "n < x + 1024"
  proof (rule ccontr)
    assume "\<not> n < x + 1024"
    then have "x + 1024 \<in> {h <.. n}" using L by auto
    then have "(x + 1024) mod 1024 \<in> (\<lambda>y. y mod 1024) ` {h <.. n}" by (rule imageI)
    then show False using L by simp
  qed
next
  assume R: "n < x + 1024"
  have "x mod 1024 \<noteq> y mod 1024" if "y \<in> {h <.. n}" for y
    using mod_1024_unique [of x n y] that R assms by auto
  then have "x mod 1024 \<notin> (\<lambda>y. y mod 1024) ` {h <.. n}" by blast
  then show "h < x + 1024 \<and> x mod 1024 \<notin> (\<lambda>y. y mod 1024) ` {h <.. n}"
    using R assms by linarith
qed

lemma represents_first:
  assumes "represents r S" "rw_highest r = None"
  shows "represents (record_nonce r n) (insert n S)"
  using representsD_None [OF assms] assms(2)
  by (auto simp: represents_def record_nonce_def ring_bit_mark)

lemma represents_jump:
  assumes "represents r S" "rw_highest r = Some h" "n > h" "n - h \<ge> 1024"
  shows "represents (record_nonce r n) (insert n S)"
proof -
  note R = representsD_Some [OF assms(1,2)]
  have "unat h + 1024 \<le> unat n"
    using assms(3,4) by (simp add: word_le_nat_alt word_less_nat_alt unat_sub)
  then have old: "\<not> unat n < unat x + 1024" if "x \<in> S" for x using R(3) [OF that] by linarith
  have "max h n = n" using assms(3) by simp
  moreover have "\<forall>x\<in>S. x \<le> n" using R(3) assms(3) by (force simp: word_le_nat_alt word_less_nat_alt)
  ultimately show ?thesis
    using assms old by (auto simp: represents_def record_nonce_def ring_bit_mark ring_bit_zero)
qed

lemma represents_slide:
  assumes "represents r S" "rw_highest r = Some h" "n > h" "\<not> n - h \<ge> 1024"
  shows "represents (record_nonce r n) (insert n S)"
proof -
  note R = representsD_Some [OF assms(1,2)]
  have hn: "unat h < unat n" using assms(3) by (simp add: word_less_nat_alt)
  have near: "unat n < unat h + 1024"
    using assms(3,4) by (simp add: word_le_nat_alt word_less_nat_alt unat_sub)
  have max: "max h n = n" using assms(3) by simp
  let ?seen = "fold clear_bit (range_incl (h + 1) n) (rw_seen r)"
  have bits: "ring_bit ?seen p \<longleftrightarrow> (\<exists>x\<in>S. unat n < unat x + 1024 \<and> unat x mod 1024 = p)"
    if "p < 1024" for p
  proof -
    have "ring_bit ?seen p \<longleftrightarrow> (\<exists>x\<in>S. (unat h < unat x + 1024 \<and>
        unat x mod 1024 \<notin> (\<lambda>y. y mod 1024) ` {unat h <.. unat n}) \<and> unat x mod 1024 = p)"
      using ring_bit_fold_clear [OF R(1) that] range_incl_positions [OF assms(3)] R(4) [OF that]
      by auto
    also have "\<dots> \<longleftrightarrow> (\<exists>x\<in>S. unat n < unat x + 1024 \<and> unat x mod 1024 = p)"
      using surviving_positions [OF R(3) hn near] by blast
    finally show ?thesis .
  qed
  have "\<forall>x\<in>S. x \<le> n" using R(3) hn by (force simp: word_le_nat_alt)
  then show ?thesis
    using assms(2,3,4) R(1) max bits
    by (auto simp: represents_def record_nonce_def ring_bit_mark)
qed

lemma represents_reordered:
  assumes "represents r S" "rw_highest r = Some h" "\<not> n > h" "unat h < unat n + 1024"
  shows "represents (record_nonce r n) (insert n S)"
proof -
  note R = representsD_Some [OF assms(1,2)]
  have "max h n = h" using assms(3) by (simp add: max_def)
  then show ?thesis
    using assms(2-4) R
    by (auto simp: represents_def record_nonce_def ring_bit_mark word_le_nat_alt word_less_nat_alt)
qed

lemma represents_record:
  assumes "represents r S" "acceptable r n"
  shows "represents (record_nonce r n) (insert n S)"
proof (cases "rw_highest r")
  case None
  then show ?thesis using assms(1) by (rule represents_first [rotated])
next
  case (Some h)
  show ?thesis
  proof (cases "n > h")
    case True
    then show ?thesis
      using assms(1) Some by (blast intro: represents_jump represents_slide)
  next
    case False
    have "unat h < unat n + 1024"
      using assms representsD_Some(2) [OF assms(1) Some]
      by (auto simp: acceptable_iff fresh_in_window_def)
    with assms(1) Some False show ?thesis by (rule represents_reordered)
  qed
qed

section \<open>The interface the datagram cipher relies on\<close>

lemma length_guarded_run [simp]: "length (guarded_run acc upd w es) = length es"
  by (induction acc upd w es rule: guarded_run.induct) simp_all

text \<open>
  A replay filter: \<open>hist w S\<close> says that state \<open>w\<close> has recorded exactly the nonces \<open>S\<close>.
\<close>

locale replay_filter =
  fixes start :: 'w
    and acc :: "'w \<Rightarrow> u64 \<Rightarrow> bool"
    and upd :: "'w \<Rightarrow> u64 \<Rightarrow> 'w"
    and hist :: "'w \<Rightarrow> u64 set \<Rightarrow> bool"
  assumes hist_start: "hist start {}"
    and acc_hist: "hist w S \<Longrightarrow> acc w n \<longleftrightarrow> fresh_in_window S n"
    and hist_upd: "hist w S \<Longrightarrow> acc w n \<Longrightarrow> hist (upd w n) (insert n S)"
begin

text \<open>
  The decision on each message, exactly: it is let through iff it is good otherwise and its
  nonce is fresh with respect to what was let through before it.
\<close>

lemma guarded_run_exact:
  "hist w S \<Longrightarrow> i < length es \<Longrightarrow>
   guarded_run acc upd w es ! i \<longleftrightarrow> snd (es ! i) \<and> fresh_in_window S (fst (es ! i)) \<and>
     (\<forall>j<i. guarded_run acc upd w es ! j \<longrightarrow>
        fst (es ! i) \<noteq> fst (es ! j) \<and> unat (fst (es ! j)) < unat (fst (es ! i)) + 1024)"
proof (induction es arbitrary: w S i)
  case Nil
  then show ?case by simp
next
  case (Cons e es)
  obtain n good where e: "e = (n, good)" by (cases e)
  show ?case
  proof (cases i)
    case 0
    then show ?thesis using e acc_hist [OF Cons.prems(1)] by auto
  next
    case (Suc k)
    then have k: "k < length es" using Cons.prems(2) by simp
    show ?thesis
    proof (cases "acc w n \<and> good")
      case True
      then show ?thesis
        using Cons.IH [OF hist_upd [OF Cons.prems(1)] k, of n] e Suc
        by (auto simp: All_less_Suc2 fresh_in_window_insert)
    next
      case False
      then have run: "guarded_run acc upd w (e # es) = False # guarded_run acc upd w es"
        using e by auto
      show ?thesis
        unfolding run using Cons.IH [OF Cons.prems(1) k] Suc by (simp add: All_less_Suc2)
    qed
  qed
qed

lemma guarded_run_no_repeat:
  assumes "i < j" "j < length es"
    and "guarded_run acc upd start es ! i" "guarded_run acc upd start es ! j"
  shows "fst (es ! i) \<noteq> fst (es ! j)"
  using guarded_run_exact [OF hist_start assms(2)] assms(1,3,4) by metis

text \<open>Distinct nonces that never fall 1024 behind an earlier one are all let through.\<close>

lemma guarded_run_complete:
  assumes "distinct (map fst es)" and "\<And>e. e \<in> set es \<Longrightarrow> snd e"
    and "\<And>i j. i < j \<Longrightarrow> j < length es \<Longrightarrow> unat (fst (es ! i)) < unat (fst (es ! j)) + 1024"
    and "i < length es"
  shows "guarded_run acc upd start es ! i"
proof -
  have "fst (es ! i) \<noteq> fst (es ! j)" if "j < i" for j
    using that assms(1,4) by (auto simp: distinct_conv_nth)
  then show ?thesis
    using guarded_run_exact [OF hist_start assms(4)] assms(2) [of "es ! i"] assms(3,4)
    by (simp add: fresh_in_window_def)
qed

end

interpretation window: replay_filter rw_default acceptable record_nonce represents
  by unfold_locales (simp_all add: represents_default acceptable_iff represents_record)

section \<open>Properties\<close>

text \<open>
  C5: The ring of 1024 bits decides every message exactly as the full history would: starting
  from the empty window, the \<open>i\<close>-th message is let through iff it is otherwise good, its nonce
  was never let through before, and no nonce let through before is 1024 or more ahead of it.
\<close>

theorem replay_window_exact:
  assumes "i < length es"
  shows "guarded_run acceptable record_nonce rw_default es ! i \<longleftrightarrow> snd (es ! i) \<and>
    (\<forall>j<i. guarded_run acceptable record_nonce rw_default es ! j \<longrightarrow>
       fst (es ! i) \<noteq> fst (es ! j) \<and> unat (fst (es ! j)) < unat (fst (es ! i)) + 1024)"
  unfolding window.guarded_run_exact [OF window.hist_start assms]
  by (simp add: fresh_in_window_def)

text \<open>
  A reordered nonce, a step within the ring, a jump past it, a replay and a late arrival: the
  replayed 8 is refused because 8 was let through as the second message.
\<close>

theorem replay_window_exact_witness:
  "let es = map (\<lambda>n. (n, True)) [10, 8, 12, 2051, 2050, 8 :: u64] in
   5 < length es \<and>
   guarded_run acceptable record_nonce rw_default es = [True, True, True, True, True, False] \<and>
   (\<exists>j<5. fst (es ! 5) = fst (es ! j) \<or> \<not> unat (fst (es ! j)) < unat (fst (es ! 5)) + 1024)"
proof -
  let ?es = "map (\<lambda>n. (n, True)) [10, 8, 12, 2051, 2050, 8 :: u64]"
  have zeros: "replicate 16 (0::u64) = [0, 0, 0, 0, 0, 0, 0, 0, 0, 0, 0, 0, 0, 0, 0, 0]"
    by (simp add: numeral_eq_Suc)
  have run: "guarded_run acceptable record_nonce rw_default ?es
      = [True, True, True, True, True, False]"
    by (simp add: acceptable_def record_nonce_def rw_default_def slot_def nonce_mask_def mark_bit_def
        clear_bit_def range_incl_def Let_def zeros)
  have len: "5 < length ?es" by simp
  have refused: "\<not> guarded_run acceptable record_nonce rw_default ?es ! 5" unfolding run by simp
  have good: "snd (?es ! 5)" by simp
  have "\<exists>j<5. fst (?es ! 5) = fst (?es ! j) \<or> \<not> unat (fst (?es ! j)) < unat (fst (?es ! 5)) + 1024"
    using replay_window_exact [OF len] refused good by blast
  then show ?thesis unfolding Let_def using run len by blast
qed

end
