(* ===== verification/Datagram_Crypto.thy ===== *)
theory Datagram_Crypto
  imports Replay_Window
begin

text \<open>
  The UDP cipher of \<open>src/crypto.rs\<close> (struct \<open>DatagramCrypto\<close>): explicit nonces in front of
  each sealed datagram, a hard budget of \<open>2 ^ 32\<close> nonces per key, and the replay window that
  moves only after authentication. snow's \<open>StatelessTransportState\<close> is a parameter: a record
  of its two message functions, with its documented behaviour as the hypotheses
  \<open>stateless_correct\<close> and \<open>stateless_authentic\<close>.
\<close>

section \<open>snow's stateless transport, a parameter\<close>

text \<open>
  \<open>sl_write A k nonce plain cap\<close> is \<open>state.write_message(nonce, plain, buf)\<close> with a buffer of
  \<open>cap\<close> bytes and yields the bytes written; \<open>sl_read\<close> is \<open>read_message\<close> likewise.
\<close>

record 'k stateless_api =
  sl_write :: "'k \<Rightarrow> u64 \<Rightarrow> bytes \<Rightarrow> nat \<Rightarrow> bytes result"
  sl_read :: "'k \<Rightarrow> u64 \<Rightarrow> bytes \<Rightarrow> nat \<Rightarrow> bytes result"

text \<open>
  Correctness of the AEAD between a writer state \<open>k\<close> and a reader state \<open>k'\<close> of one session:
  a message of at most 65535 bytes is written whenever it fits the buffer, is 16 bytes longer
  than its plaintext, and the peer reads it back.
\<close>

definition stateless_correct :: "'k stateless_api \<Rightarrow> 'k \<Rightarrow> 'k \<Rightarrow> bool" where
  "stateless_correct A k k' \<longleftrightarrow>
     (\<forall>n p cap. length p + 16 \<le> 65535 \<longrightarrow> length p + 16 \<le> cap \<longrightarrow>
        (\<exists>c. sl_write A k n p cap = Ok c \<and> length c = length p + 16 \<and>
             (\<forall>cap'. length c \<le> cap' \<longrightarrow> sl_read A k' n c cap' = Ok p)))"

text \<open>Authenticity: only what the peer wrote under the same nonce is ever read.\<close>

definition stateless_authentic :: "'k stateless_api \<Rightarrow> 'k \<Rightarrow> 'k \<Rightarrow> bool" where
  "stateless_authentic A k k' \<longleftrightarrow>
     (\<forall>n c cap' p. sl_read A k' n c cap' = Ok p \<longrightarrow> (\<exists>cap. sl_write A k n p cap = Ok c))"

section \<open>DatagramCrypto\<close>

record 'k datagram_crypto =
  dc_state :: 'k
  dc_next :: u64
  dc_replay :: replay_window

definition dc_new :: "'k \<Rightarrow> 'k datagram_crypto" where
  "dc_new k = \<lparr>dc_state = k, dc_next = 0, dc_replay = rw_default\<rparr>"

definition nonce_limit :: u64 where
  "nonce_limit = push_bit 32 1"

definition dc_seal :: "'k stateless_api \<Rightarrow> 'k datagram_crypto \<Rightarrow> bytes
    \<Rightarrow> bytes result \<times> 'k datagram_crypto" where
  "dc_seal A c plain =
     (if \<not> dc_next c < nonce_limit then (Err (CryptoError KeyBudgetExhausted), c)
      else let nonce = dc_next c;
               c' = c\<lparr>dc_next := dc_next c + 1\<rparr>
           in case sl_write A (dc_state c) nonce plain (length plain + 16) of
                Err e \<Rightarrow> (Err e, c')
              | Ok m \<Rightarrow> (Ok (u64_be nonce @ m), c'))"

definition dc_open :: "'k stateless_api \<Rightarrow> 'k datagram_crypto \<Rightarrow> bytes
    \<Rightarrow> bytes result \<times> 'k datagram_crypto" where
  "dc_open A c cipher =
     (if \<not> 24 \<le> length cipher then (Err (CryptoError ShortDatagram), c)
      else let n = of_be (take 8 cipher)
           in if \<not> (n < nonce_limit \<and> acceptable (dc_replay c) n)
              then (Err (CryptoError ReplayedOrStale), c)
              else case sl_read A (dc_state c) n (drop 8 cipher) (length cipher - 8) of
                     Err e \<Rightarrow> (Err e, c)
                   | Ok p \<Rightarrow> (Ok p, c\<lparr>dc_replay := record_nonce (dc_replay c) n\<rparr>))"

text \<open>Sealing, respectively opening, a sequence of messages one after the other.\<close>

fun dc_seal_all :: "'k stateless_api \<Rightarrow> 'k datagram_crypto \<Rightarrow> bytes list \<Rightarrow> bytes result list" where
  "dc_seal_all A c [] = []"
| "dc_seal_all A c (p # ps) = (case dc_seal A c p of (r, c') \<Rightarrow> r # dc_seal_all A c' ps)"

fun dc_open_all :: "'k stateless_api \<Rightarrow> 'k datagram_crypto \<Rightarrow> bytes list \<Rightarrow> bytes result list" where
  "dc_open_all A c [] = []"
| "dc_open_all A c (d # ds) = (case dc_open A c d of (r, c') \<Rightarrow> r # dc_open_all A c' ds)"

text \<open>What \<open>dc_open\<close> checks apart from the replay window.\<close>

definition nonce_of :: "bytes \<Rightarrow> u64" where
  "nonce_of d = of_be (take 8 d)"

definition authentic :: "'k stateless_api \<Rightarrow> 'k \<Rightarrow> bytes \<Rightarrow> bool" where
  "authentic A k d \<longleftrightarrow> 24 \<le> length d \<and> nonce_of d < nonce_limit \<and>
     is_ok (sl_read A k (nonce_of d) (drop 8 d) (length d - 8))"

text \<open>
  A concrete instance of the parameter, used where a hypothesis about it is shown to be
  satisfiable: the tag is the nonce written twice.
\<close>

definition sample_aead :: "unit stateless_api" where
  "sample_aead = \<lparr>
     sl_write = (\<lambda>_ n p cap. if length p + 16 \<le> cap \<and> length p + 16 \<le> 65535
        then Ok (p @ u64_be n @ u64_be n) else Err (External ''input'')),
     sl_read = (\<lambda>_ n c cap. if 16 \<le> length c \<and> length c \<le> 65535 \<and>
          drop (length c - 16) c = u64_be n @ u64_be n
        then Ok (take (length c - 16) c) else Err (External ''decrypt''))\<rparr>"

section \<open>Single messages\<close>

lemma sample_aead_correct: "stateless_correct sample_aead () ()"
  by (auto simp: stateless_correct_def sample_aead_def)

lemma sample_aead_authentic: "stateless_authentic sample_aead () ()"
proof -
  have "c = p @ u64_be n @ u64_be n"
    if "16 \<le> length c" "drop (length c - 16) c = u64_be n @ u64_be n" "p = take (length c - 16) c"
    for n c p
    using that by (metis append_take_drop_id)
  then show ?thesis
    by (auto simp: stateless_authentic_def sample_aead_def intro!: exI [of _ "65535::nat"] split: if_splits)
qed

lemma nonce_limit_eq: "nonce_limit = 4294967296" "unat nonce_limit = 2 ^ 32"
  by (simp_all add: nonce_limit_def)

lemma unat_next: "n < nonce_limit \<Longrightarrow> unat (n + 1) = unat n + 1"
  by (rule unat_succ_u64) (auto simp: nonce_limit_eq)

lemma dc_new_simps [simp]:
  "dc_state (dc_new k) = k" "dc_next (dc_new k) = 0" "dc_replay (dc_new k) = rw_default"
  by (simp_all add: dc_new_def)

lemma dc_open_Ok:
  "dc_open A c d = (Ok p, c') \<longleftrightarrow> acceptable (dc_replay c) (nonce_of d) \<and>
     authentic A (dc_state c) d \<and>
     sl_read A (dc_state c) (nonce_of d) (drop 8 d) (length d - 8) = Ok p \<and>
     c' = c\<lparr>dc_replay := record_nonce (dc_replay c) (nonce_of d)\<rparr>"
  by (auto simp: dc_open_def authentic_def nonce_of_def Let_def split: result.splits)

lemma dc_open_Err: "dc_open A c d = (Err e, c') \<Longrightarrow> c' = c"
  by (auto simp: dc_open_def Let_def split: result.splits if_splits)

lemma dc_open_is_ok:
  "is_ok (fst (dc_open A c d)) \<longleftrightarrow>
     acceptable (dc_replay c) (nonce_of d) \<and> authentic A (dc_state c) d"
  by (auto simp: dc_open_def authentic_def nonce_of_def Let_def split: result.splits)

lemma dc_seal_next_mono: "dc_seal A c p = (r, c') \<Longrightarrow> unat (dc_next c) \<le> unat (dc_next c')"
  by (auto simp: dc_seal_def Let_def unat_next split: if_splits result.splits)

lemma dc_seal_correct:
  assumes "stateless_correct A (dc_state c) k'" "dc_next c < nonce_limit" "length p \<le> 65519"
  shows "\<exists>m. dc_seal A c p = (Ok (u64_be (dc_next c) @ m), c\<lparr>dc_next := dc_next c + 1\<rparr>) \<and>
     length m = length p + 16 \<and> (\<forall>cap. length m \<le> cap \<longrightarrow> sl_read A k' (dc_next c) m cap = Ok p)"
proof -
  obtain m where "sl_write A (dc_state c) (dc_next c) p (length p + 16) = Ok m"
    "length m = length p + 16" "\<forall>cap. length m \<le> cap \<longrightarrow> sl_read A k' (dc_next c) m cap = Ok p"
    using assms(1,3) unfolding stateless_correct_def by fastforce
  then show ?thesis using assms(2) by (simp add: dc_seal_def Let_def)
qed

section \<open>Sequences of messages\<close>

lemma dc_open_state: "dc_open A c d = (r, c') \<Longrightarrow> dc_state c' = dc_state c"
  by (cases r) (auto dest: dc_open_Err simp: dc_open_Ok)

lemma length_dc_open_all [simp]: "length (dc_open_all A c ds) = length ds"
  by (induction ds arbitrary: c) (auto split: prod.splits)

lemma open_all_guarded:
  "map is_ok (dc_open_all A c ds) =
     guarded_run acceptable record_nonce (dc_replay c)
       (map (\<lambda>d. (nonce_of d, authentic A (dc_state c) d)) ds)"
proof (induction ds arbitrary: c)
  case Nil
  then show ?case by simp
next
  case (Cons d ds)
  obtain r c' where o: "dc_open A c d = (r, c')" by fastforce
  note ok = dc_open_is_ok [of A c d]
  show ?case
  proof (cases r)
    case (Ok p)
    then have "dc_replay c' = record_nonce (dc_replay c) (nonce_of d)"
      using o by (simp add: dc_open_Ok)
    then show ?thesis using o Ok ok Cons.IH [of c'] dc_open_state [OF o] by simp
  next
    case (Err e)
    then show ?thesis using o ok Cons.IH [of c'] dc_open_Err [of A c d e c'] by simp
  qed
qed

lemma open_all_value:
  "i < length ds \<Longrightarrow> dc_open_all A c ds ! i = Ok p \<Longrightarrow>
   authentic A (dc_state c) (ds ! i) \<and>
   sl_read A (dc_state c) (nonce_of (ds ! i)) (drop 8 (ds ! i)) (length (ds ! i) - 8) = Ok p"
proof (induction ds arbitrary: c i)
  case Nil
  then show ?case by simp
next
  case (Cons d ds)
  obtain r c' where o: "dc_open A c d = (r, c')" by fastforce
  show ?case
  proof (cases i)
    case 0
    then show ?thesis using Cons.prems o by (simp add: dc_open_Ok)
  next
    case (Suc j)
    then show ?thesis using Cons.prems o Cons.IH [of j c'] dc_open_state [OF o] by simp
  qed
qed

lemma nonce_of_sealed [simp]: "nonce_of (u64_be n @ m) = n"
  by (simp add: nonce_of_def)

lemma length_dc_seal_all [simp]: "length (dc_seal_all A c ps) = length ps"
  by (induction ps arbitrary: c) (auto split: prod.splits)

lemma seal_all_correct:
  "stateless_correct A (dc_state c) k' \<Longrightarrow> unat (dc_next c) + length ps \<le> 2 ^ 32 \<Longrightarrow>
   (\<And>p. p \<in> set ps \<Longrightarrow> length p \<le> 65519) \<Longrightarrow> i < length ps \<Longrightarrow>
   \<exists>m. dc_seal_all A c ps ! i = Ok (u64_be (dc_next c + word_of_nat i) @ m) \<and>
     length m = length (ps ! i) + 16 \<and>
     sl_read A k' (dc_next c + word_of_nat i) m (length m) = Ok (ps ! i)"
proof (induction ps arbitrary: c i)
  case Nil
  then show ?case by simp
next
  case (Cons p ps)
  have lim: "dc_next c < nonce_limit"
    using Cons.prems(2) by (simp add: word_less_nat_alt nonce_limit_eq)
  obtain m where m: "dc_seal A c p = (Ok (u64_be (dc_next c) @ m), c\<lparr>dc_next := dc_next c + 1\<rparr>)"
    "length m = length p + 16" "sl_read A k' (dc_next c) m (length m) = Ok p"
    using dc_seal_correct [OF Cons.prems(1) lim Cons.prems(3), of p] by auto
  show ?case
  proof (cases i)
    case 0
    then show ?thesis using m by simp
  next
    case (Suc j)
    let ?c = "c\<lparr>dc_next := dc_next c + 1\<rparr>"
    have "unat (dc_next c + 1) = unat (dc_next c) + 1" using lim by (rule unat_next)
    then have "unat (dc_next ?c) + length ps \<le> 2 ^ 32" using Cons.prems(2) by simp
    then show ?thesis
      using Cons.IH [of ?c j] Cons.prems(1,3,4) Suc m(1) by (simp add: algebra_simps)
  qed
qed

lemma seal_all_exhausted:
  "\<not> dc_next c < nonce_limit \<Longrightarrow>
   dc_seal_all A c ps = replicate (length ps) (Err (CryptoError KeyBudgetExhausted))"
  by (induction ps) (simp_all add: dc_seal_def)

lemma seal_all_nonces:
  "i < length ps \<Longrightarrow> dc_seal_all A c ps ! i = Ok d \<Longrightarrow>
   nonce_of d < nonce_limit \<and> unat (dc_next c) + i \<le> unat (nonce_of d)"
proof (induction ps arbitrary: c i)
  case Nil
  then show ?case by simp
next
  case (Cons p ps)
  show ?case
  proof (cases i)
    case 0
    then show ?thesis
      using Cons.prems by (auto simp: dc_seal_def Let_def split: if_splits result.splits)
  next
    case (Suc j)
    show ?thesis
    proof (cases "dc_next c < nonce_limit")
      case True
      then have "unat (dc_next c + 1) = unat (dc_next c) + 1" by (rule unat_next)
      moreover have "\<exists>r. dc_seal A c p = (r, c\<lparr>dc_next := dc_next c + 1\<rparr>)"
        using True by (auto simp: dc_seal_def Let_def split: result.splits)
      ultimately show ?thesis
        using Cons.prems Cons.IH [of j "c\<lparr>dc_next := dc_next c + 1\<rparr>"] Suc by auto
    next
      case False
      then have "dc_seal_all A c (p # ps) ! i = Err (CryptoError KeyBudgetExhausted)"
        using Cons.prems(1) by (simp only: seal_all_exhausted nth_replicate not_False_eq_True)
      then show ?thesis using Cons.prems(2) by simp
    qed
  qed
qed

lemma seal_nonces_increasing:
  "i < j \<Longrightarrow> j < length ps \<Longrightarrow> dc_seal_all A c ps ! i = Ok d \<Longrightarrow> dc_seal_all A c ps ! j = Ok e \<Longrightarrow>
   unat (nonce_of d) < unat (nonce_of e)"
proof (induction ps arbitrary: c i j)
  case Nil
  then show ?case by simp
next
  case (Cons p ps)
  obtain r c' where s: "dc_seal A c p = (r, c')" by fastforce
  obtain j' where j: "j = Suc j'" using Cons.prems(1) by (cases j) auto
  show ?case
  proof (cases i)
    case 0
    then have "nonce_of d = dc_next c" "unat (dc_next c') = unat (dc_next c) + 1"
      using Cons.prems(3) s
      by (auto simp: dc_seal_def Let_def unat_next split: if_splits result.splits)
    then show ?thesis
      using seal_all_nonces [of j' ps A c' e] Cons.prems(2,4) s j by simp
  next
    case (Suc i')
    then show ?thesis using Cons.IH [of i' j' c'] Cons.prems s j by simp
  qed
qed

lemma sealed_list:
  assumes "stateless_correct A k k'" "length ps \<le> 2 ^ 32" "\<forall>p\<in>set ps. length p \<le> 65519"
  shows "\<exists>ds. dc_seal_all A (dc_new k) ps = map Ok ds \<and> length ds = length ps \<and>
    (\<forall>i<length ps. unat (nonce_of (ds ! i)) = i \<and> authentic A k' (ds ! i) \<and>
       sl_read A k' (nonce_of (ds ! i)) (drop 8 (ds ! i)) (length (ds ! i) - 8) = Ok (ps ! i))"
proof -
  have "\<forall>i<length ps. \<exists>m. dc_seal_all A (dc_new k) ps ! i = Ok (u64_be (word_of_nat i) @ m) \<and>
      length m = length (ps ! i) + 16 \<and> sl_read A k' (word_of_nat i) m (length m) = Ok (ps ! i)"
    using seal_all_correct [of A "dc_new k" k' ps] assms by simp
  then obtain m where m: "\<And>i. i < length ps \<Longrightarrow>
      dc_seal_all A (dc_new k) ps ! i = Ok (u64_be (word_of_nat i) @ m i) \<and>
      length (m i) = length (ps ! i) + 16 \<and>
      sl_read A k' (word_of_nat i) (m i) (length (m i)) = Ok (ps ! i)"
    by metis
  let ?ds = "map (\<lambda>i. u64_be (word_of_nat i) @ m i) [0..<length ps]"
  have "dc_seal_all A (dc_new k) ps = map Ok ?ds"
    by (rule nth_equalityI) (use m in auto)
  moreover have n: "unat (word_of_nat i :: u64) = i" if "i < length ps" for i
    using that assms(2) by (simp add: unat_of_nat)
  moreover have "word_of_nat i < nonce_limit" if "i < length ps" for i
    using that assms(2) n [OF that] by (simp add: word_less_nat_alt nonce_limit_eq)
  moreover have "length (m i) = length (ps ! i) + 16"
    "sl_read A k' (word_of_nat i) (m i) (length (ps ! i) + 16) = Ok (ps ! i)" if "i < length ps" for i
    using m [OF that] by metis+
  ultimately show ?thesis by (intro exI [of _ ?ds]) (simp add: authentic_def add.commute)
qed

text \<open>No two opened datagrams carry the same nonce, from any window that represents a history.\<close>

lemma open_all_no_repeat:
  assumes "represents (dc_replay c) S" and "i < j" "j < length ds"
    and "is_ok (dc_open_all A c ds ! i)" "is_ok (dc_open_all A c ds ! j)"
  shows "nonce_of (ds ! i) \<noteq> nonce_of (ds ! j)"
proof -
  let ?es = "map (\<lambda>d. (nonce_of d, authentic A (dc_state c) d)) ds"
  have run: "guarded_run acceptable record_nonce (dc_replay c) ?es ! n \<longleftrightarrow> is_ok (dc_open_all A c ds ! n)"
    if "n < length ds" for n
    using that by (simp flip: open_all_guarded)
  have "guarded_run acceptable record_nonce (dc_replay c) ?es ! i"
    "guarded_run acceptable record_nonce (dc_replay c) ?es ! j" "j < length ?es"
    using assms(2-5) run by simp_all
  then have "fst (?es ! j) \<noteq> fst (?es ! i)"
    using window.guarded_run_exact [OF assms(1)] assms(2) by blast
  then show ?thesis using assms(2,3) by auto
qed

text \<open>Authentic datagrams with distinct nonces that stay within the window are all opened.\<close>

lemma open_all_complete:
  assumes auth: "\<And>a. a < length ds \<Longrightarrow> authentic A k (ds ! a)"
    and nonces: "distinct (map nonce_of ds)"
    and order: "\<And>a b. a < b \<Longrightarrow> b < length ds \<Longrightarrow>
      unat (nonce_of (ds ! a)) < unat (nonce_of (ds ! b)) + 1024"
    and "a < length ds"
  shows "\<exists>p. dc_open_all A (dc_new k) ds ! a = Ok p"
proof -
  let ?es = "map (\<lambda>d. (nonce_of d, authentic A k d)) ds"
  have "guarded_run acceptable record_nonce rw_default ?es ! a"
  proof (rule window.guarded_run_complete)
    show "distinct (map fst ?es)" using nonces by (simp add: comp_def)
  qed (use assms in \<open>auto simp: in_set_conv_nth\<close>)
  moreover have "map is_ok (dc_open_all A (dc_new k) ds) = guarded_run acceptable record_nonce rw_default ?es"
    by (simp add: open_all_guarded)
  ultimately have "map is_ok (dc_open_all A (dc_new k) ds) ! a" by simp
  then show ?thesis using assms(4) by (simp add: is_ok_iff)
qed

section \<open>Properties\<close>

text \<open>
  C13: No replay. However an attacker duplicates, reorders or forges datagrams, a session never
  delivers two datagrams that carry the same nonce: if the \<open>i\<close>-th and the \<open>j\<close>-th received
  datagram are both opened, their nonces differ.
\<close>

theorem open_never_replays:
  assumes "i < j" "j < length ds"
    and "is_ok (dc_open_all A (dc_new k) ds ! i)" "is_ok (dc_open_all A (dc_new k) ds ! j)"
  shows "take 8 (ds ! i) \<noteq> take 8 (ds ! j)"
proof -
  have "represents (dc_replay (dc_new k)) {}" using window.hist_start by simp
  from open_all_no_repeat [OF this assms] show ?thesis by (auto simp: nonce_of_def)
qed

theorem open_never_replays_witness:
  "let ds = [u64_be 5 @ [7] @ u64_be 5 @ u64_be 5, u64_be 3 @ u64_be 3 @ u64_be 3];
       rs = dc_open_all sample_aead (dc_new ()) ds
   in rs = [Ok [7], Ok []] \<and> take 8 (ds ! 0) \<noteq> take 8 (ds ! 1)"
proof -
  let ?ds = "[u64_be 5 @ [7] @ u64_be 5 @ u64_be 5, u64_be 3 @ u64_be 3 @ u64_be 3]"
  have rs: "dc_open_all sample_aead (dc_new ()) ?ds = [Ok [7], Ok []]"
    by (simp add: dc_open_def Let_def nonce_limit_eq sample_aead_def acceptable_def
        record_nonce_def rw_default_def slot_def nonce_mask_def mark_bit_def)
  have "take 8 (?ds ! 0) \<noteq> take 8 (?ds ! 1)"
    using open_never_replays [of 0 1 ?ds sample_aead "()"] unfolding rs by simp
  then show ?thesis unfolding Let_def rs by simp
qed

text \<open>
  C14: Round trip under reordering and loss. A fresh sender seals up to \<open>2 ^ 32\<close> messages of at
  most 65519 bytes without an error; whichever of the sealed datagrams arrive, in whatever
  order, as long as none arrives 1024 nonces or more behind an earlier arrival, a fresh receiver
  opens every one of them to the message it was sealed from.
\<close>

theorem sealed_datagrams_survive_reordering:
  assumes snow: "stateless_correct A k k'"
    and budget: "length ps \<le> 2 ^ 32" and size: "\<forall>p\<in>set ps. length p \<le> 65519"
    and idx: "distinct idx" "\<forall>i\<in>set idx. i < length ps"
    and order: "\<forall>a b. a < b \<longrightarrow> b < length idx \<longrightarrow> idx ! a < idx ! b + 1024"
  shows "\<exists>ds. dc_seal_all A (dc_new k) ps = map Ok ds \<and>
    dc_open_all A (dc_new k') (map ((!) ds) idx) = map (\<lambda>i. Ok (ps ! i)) idx"
proof -
  obtain ds where ds: "dc_seal_all A (dc_new k) ps = map Ok ds" "length ds = length ps"
    and at: "\<And>i. i < length ps \<Longrightarrow> unat (nonce_of (ds ! i)) = i \<and> authentic A k' (ds ! i) \<and>
       sl_read A k' (nonce_of (ds ! i)) (drop 8 (ds ! i)) (length (ds ! i) - 8) = Ok (ps ! i)"
    using sealed_list [OF snow budget size] by blast
  let ?arr = "map ((!) ds) idx"
  have inj: "inj_on (\<lambda>i. nonce_of (ds ! i)) (set idx)"
    using at idx(2) by (metis (no_types, lifting) inj_onI)
  have "\<exists>p. dc_open_all A (dc_new k') ?arr ! a = Ok p" if "a < length idx" for a
  proof (rule open_all_complete)
    show "distinct (map nonce_of ?arr)" using idx(1) inj by (simp add: distinct_map comp_def)
    show "unat (nonce_of (?arr ! a)) < unat (nonce_of (?arr ! b)) + 1024"
      if "a < b" "b < length ?arr" for a b
      using that at idx(2) order by simp
  qed (use that at idx(2) in auto)
  then have "dc_open_all A (dc_new k') ?arr ! a = Ok (ps ! (idx ! a))" if "a < length idx" for a
    using that open_all_value [of a ?arr A "dc_new k'"] at [of "idx ! a"] idx(2) by fastforce
  then have "dc_open_all A (dc_new k') ?arr = map (\<lambda>i. Ok (ps ! i)) idx"
    by (intro nth_equalityI) simp_all
  with ds(1) show ?thesis by blast
qed

theorem sealed_datagrams_survive_reordering_witness:
  "\<exists>ds. dc_seal_all sample_aead (dc_new ()) [[1], [2, 2], []] = map Ok ds \<and>
    dc_open_all sample_aead (dc_new ()) [ds ! 2, ds ! 0] = [Ok [], Ok [1]]"
  using sealed_datagrams_survive_reordering
    [OF sample_aead_correct, of "[[1], [2, 2], []]" "[2, 0]"]
  by (simp add: less_Suc_eq)



text \<open>
  C28: Nonces are never reused and the budget fails closed. Over any sequence of seals by one
  key, whether or not the cipher reports errors in between, later sealed datagrams carry
  strictly larger nonces, all below \<open>2 ^ 32\<close>; so at most \<open>2 ^ 32\<close> seals can succeed.
\<close>

theorem seal_nonces_strictly_increase:
  assumes "i < j" "j < length ps"
    and "dc_seal_all A c ps ! i = Ok d" "dc_seal_all A c ps ! j = Ok e"
  shows "unat (nonce_of d) < unat (nonce_of e) \<and> unat (nonce_of e) < 2 ^ 32"
  using seal_nonces_increasing [OF assms] seal_all_nonces [OF assms(2,4)]
  by (simp add: word_less_nat_alt nonce_limit_eq)

theorem seal_nonces_strictly_increase_witness:
  "let rs = dc_seal_all sample_aead (dc_new ()) [[1], [2]] in
   rs = [Ok (u64_be 0 @ [1] @ u64_be 0 @ u64_be 0), Ok (u64_be 1 @ [2] @ u64_be 1 @ u64_be 1)] \<and>
   unat (0::u64) < unat (1::u64) \<and> unat (1::u64) < 2 ^ 32"
proof -
  have rs: "dc_seal_all sample_aead (dc_new ()) [[1], [2]] =
     [Ok (u64_be 0 @ [1] @ u64_be 0 @ u64_be 0), Ok (u64_be 1 @ [2] @ u64_be 1 @ u64_be 1)]"
    by (simp add: dc_seal_def Let_def sample_aead_def nonce_limit_eq)
  show ?thesis
    using seal_nonces_strictly_increase [of 0 1 "[[1], [2]]" sample_aead "dc_new ()"]
    unfolding Let_def rs by simp
qed

end
