(* ===== verification/Config.thy ===== *)
theory Config
  imports Base "HOL-Library.List_Lexorder" "HOL-Library.Char_ord"
begin

text \<open>
  The configuration of \<open>src/config.rs\<close>: its structures and defaults, the per-service
  accessors, the validation of Noise keys and of a whole side, \<open>Config::parse\<close>,
  \<open>Config::read\<close> with the Unix path functions it calls, and \<open>Config::select\<close>. The Base64
  decoder, the TOML deserialiser and the file system are parameters. A Rust \<open>String\<close> is
  the list of its UTF-8 bytes (a HOL \<open>string\<close>), so \<open>len()\<close> is the length of that list; a
  \<open>BTreeMap\<close> is its list of entries in key order.
\<close>

section \<open>Data\<close>

definition PATTERN :: string where
  "PATTERN = ''Noise_NK_25519_ChaChaPoly_BLAKE2s''"

datatype kind = Tcp | Udp

record service =
  sv_kind :: kind
  sv_token :: "string option"
  sv_bind_addr :: "string option"
  sv_local_addr :: "string option"
  sv_prefer_ipv6 :: bool
  sv_nodelay :: "bool option"
  sv_retry_interval :: "u64 option"

record tcp_compat =
  tcp_proxy :: "string option"
  tcp_nodelay :: bool
  tcp_keepalive_secs :: u64
  tcp_keepalive_interval :: u64

definition tcp_compat_default :: tcp_compat where
  "tcp_compat_default = \<lparr>tcp_proxy = None, tcp_nodelay = True,
     tcp_keepalive_secs = 20, tcp_keepalive_interval = 8\<rparr>"

record tls_compat =
  tls_hostname :: "string option"
  tls_trusted_root :: "string option"
  tls_pkcs12 :: "string option"
  tls_pkcs12_password :: "string option"

record websocket_compat =
  ws_tls :: bool

record noise =
  noise_pattern :: string
  noise_local_private_key :: "string option"
  noise_remote_public_key :: "string option"

definition noise_default :: noise where
  "noise_default = \<lparr>noise_pattern = PATTERN,
     noise_local_private_key = None, noise_remote_public_key = None\<rparr>"

record quic =
  q_certificate :: "string option"
  q_private_key :: "string option"
  q_trusted_root :: "string option"
  q_hostname :: string
  q_keep_alive_interval :: u64
  q_max_idle_timeout :: u64
  q_udp_idle_timeout :: u64
  q_max_connections :: usize
  q_max_streams :: u32
  q_max_udp_flows :: usize
  q_stream_receive_window :: u32
  q_receive_window :: u32
  q_send_window :: u32
  q_socket_buffer :: usize

definition quic_default :: quic where
  "quic_default = \<lparr>q_certificate = None, q_private_key = None, q_trusted_root = None,
     q_hostname = ''cathole'', q_keep_alive_interval = 15, q_max_idle_timeout = 60,
     q_udp_idle_timeout = 60, q_max_connections = 128, q_max_streams = 256,
     q_max_udp_flows = 4096, q_stream_receive_window = 16 * 1024 * 1024,
     q_receive_window = 32 * 1024 * 1024, q_send_window = 32 * 1024 * 1024,
     q_socket_buffer = 4 * 1024 * 1024\<rparr>"

record transport =
  tr_kind :: string
  tr_tcp :: tcp_compat
  tr_tls :: "tls_compat option"
  tr_noise :: noise
  tr_websocket :: "websocket_compat option"
  tr_quic :: quic

definition transport_default :: transport where
  "transport_default = \<lparr>tr_kind = ''quic'', tr_tcp = tcp_compat_default, tr_tls = None,
     tr_noise = noise_default, tr_websocket = None, tr_quic = quic_default\<rparr>"

record side =
  sd_bind_addr :: "string option"
  sd_remote_addr :: "string option"
  sd_default_token :: "string option"
  sd_prefer_ipv6 :: bool
  sd_heartbeat_timeout :: u64
  sd_heartbeat_interval :: u64
  sd_retry_interval :: u64
  sd_transport :: transport
  sd_services :: "(string \<times> service) list"

definition heartbeat_timeout :: u64 where "heartbeat_timeout = 40"
definition heartbeat_interval :: u64 where "heartbeat_interval = 30"
definition retry_interval :: u64 where "retry_interval = 1"

record config =
  cf_server :: "side option"
  cf_client :: "side option"

text \<open>The shape a \<open>BTreeMap\<close> guarantees: entries in strictly ascending key order.\<close>

definition btree :: "(string \<times> 'v) list \<Rightarrow> bool" where
  "btree m \<longleftrightarrow> sorted_wrt (<) (map fst m)"

section \<open>Accessors\<close>

fun unwrap_or :: "'a option \<Rightarrow> 'a \<Rightarrow> 'a" where
  "unwrap_or (Some x) d = x"
| "unwrap_or None d = d"

fun option_or :: "'a option \<Rightarrow> 'a option \<Rightarrow> 'a option" where
  "option_or (Some x) b = Some x"
| "option_or None b = b"

definition token :: "side \<Rightarrow> service \<Rightarrow> string" where
  "token s sv = unwrap_or (option_or (sv_token sv) (sd_default_token s)) ''''"

definition nodelay :: "side \<Rightarrow> service \<Rightarrow> bool" where
  "nodelay s sv = unwrap_or (sv_nodelay sv) (tcp_nodelay (tr_tcp (sd_transport s)))"

definition service_retry :: "side \<Rightarrow> service \<Rightarrow> u64" where
  "service_retry s sv = unwrap_or (sv_retry_interval sv) (sd_retry_interval s)"

section \<open>Validation\<close>

text \<open>\<open>b64\<close> is \<open>STANDARD.decode\<close>, with \<open>None\<close> for its error.\<close>

definition key :: "(string \<Rightarrow> bytes option) \<Rightarrow> string option \<Rightarrow> bytes result" where
  "key b64 v =
     rbind (ok_or v (ConfigError MissingKey)) (\<lambda>text.
     rbind (ok_or (b64 text) (ConfigError BadBase64)) (\<lambda>bs.
     ensure (length bs = 32) (ConfigError BadKeyLength) (Ok bs)))"

text \<open>\<open>str::split(c)\<close> as a list, and \<open>Iterator::nth\<close>.\<close>

fun split_on :: "char \<Rightarrow> string \<Rightarrow> string list" where
  "split_on c [] = [[]]"
| "split_on c (x # xs) =
     (if x = c then [] # split_on c xs
      else case split_on c xs of [] \<Rightarrow> [[x]] | w # ws \<Rightarrow> (x # w) # ws)"

definition nth_opt :: "'a list \<Rightarrow> nat \<Rightarrow> 'a option" where
  "nth_opt xs i = (if i < length xs then Some (xs ! i) else None)"

definition validate_noise :: "(string \<Rightarrow> bytes option) \<Rightarrow> noise \<Rightarrow> bool \<Rightarrow> bool \<Rightarrow> unit result" where
  "validate_noise b64 n server pinned_tls =
     ensure (noise_pattern n \<in> {''Noise_NK_25519_ChaChaPoly_BLAKE2s'',
               ''Noise_KK_25519_ChaChaPoly_BLAKE2s'', ''Noise_XX_25519_ChaChaPoly_BLAKE2s''})
       (ConfigError UnsupportedPattern)
     (let which = nth_opt (split_on CHR ''_'' (noise_pattern n)) 1 in
      if which = Some ''NK'' then
        (if server then rbind (key b64 (noise_local_private_key n)) (\<lambda>_. Ok ())
         else rbind (key b64 (noise_remote_public_key n)) (\<lambda>_. Ok ()))
      else if which = Some ''KK'' then
        rbind (key b64 (noise_local_private_key n)) (\<lambda>_.
        rbind (key b64 (noise_remote_public_key n)) (\<lambda>_. Ok ()))
      else if which = Some ''XX'' then
        ensure pinned_tls (ConfigError XXNeedsTls) (Ok ())
      else Err Panicked)"

definition validate_service :: "side \<Rightarrow> bool \<Rightarrow> string \<Rightarrow> service \<Rightarrow> unit result" where
  "validate_service s server name sv =
     ensure (name \<noteq> [] \<and> length name \<le> 128) (ConfigError ServiceNameLength) (
     ensure (token s sv \<noteq> [] \<and> length (token s sv) \<le> 512) (ConfigError (ServiceTokenLength name)) (
     ensure (unwrap_or (sv_retry_interval sv) (sd_retry_interval s) \<le> 86400)
       (ConfigError (ServiceRetryRange name)) (
     if server \<and> (sv_bind_addr sv = None \<or> sv_local_addr sv \<noteq> None)
     then Err (ConfigError (ServerServiceBind name))
     else if \<not> server \<and> (sv_local_addr sv = None \<or> sv_bind_addr sv \<noteq> None)
     then Err (ConfigError (ClientServiceLocal name))
     else Ok ())))"

fun validate_services :: "side \<Rightarrow> bool \<Rightarrow> (string \<times> service) list \<Rightarrow> unit result" where
  "validate_services s server [] = Ok ()"
| "validate_services s server ((name, sv) # rest) =
     rbind (validate_service s server name sv) (\<lambda>_. validate_services s server rest)"

text \<open>
  \<open>validate_side\<close> first derives one QUIC timer from the heartbeat settings, in place; the
  model returns the updated side.
\<close>

definition derive_timers :: "side \<Rightarrow> bool \<Rightarrow> quic" where
  "derive_timers s server =
     (let q = tr_quic (sd_transport s);
          q = (if \<not> server then q\<lparr>q_max_idle_timeout := sd_heartbeat_timeout s\<rparr> else q);
          q = (if server then q\<lparr>q_keep_alive_interval := sd_heartbeat_interval s\<rparr> else q)
      in q)"

definition validate_side :: "(string \<Rightarrow> bytes option) \<Rightarrow> side \<Rightarrow> bool \<Rightarrow> side result" where
  "validate_side b64 s0 server =
     ensure (tr_kind (sd_transport s0) = ''noise'' \<or> tr_kind (sd_transport s0) = ''quic'')
       (ConfigError UnsupportedTransport) (
     ensure (tcp_proxy (tr_tcp (sd_transport s0)) = None) (ConfigError TcpProxySet) (
     let q = derive_timers s0 server;
         s = s0\<lparr>sd_transport := (sd_transport s0)\<lparr>tr_quic := q\<rparr>\<rparr> in
     ensure (65536 \<le> q_stream_receive_window q \<and> q_stream_receive_window q \<le> 268435456 \<and>
             q_stream_receive_window q \<le> q_receive_window q \<and> q_receive_window q \<le> 536870912 \<and>
             65536 \<le> q_send_window q \<and> q_send_window q \<le> 536870912 \<and>
             65536 \<le> q_socket_buffer q \<and> q_socket_buffer q \<le> 16777216)
       (ConfigError FlowControlRange) (
     ensure (q_keep_alive_interval q \<le> 86400 \<and> q_max_idle_timeout q \<le> 86400 \<and>
             1 \<le> q_udp_idle_timeout q \<and> q_udp_idle_timeout q \<le> 86400)
       (ConfigError TimeoutRange) (
     ensure (1 \<le> q_max_connections q \<and> q_max_connections q \<le> 4096 \<and>
             1 \<le> q_max_streams q \<and> q_max_streams q \<le> 4096 \<and>
             1 \<le> q_max_udp_flows q \<and> q_max_udp_flows q \<le> 65536)
       (ConfigError ResourceRange) (
     ensure (sd_services s \<noteq> [] \<and> length (sd_services s) \<le> 256) (ConfigError ServiceCount) (
     rbind (if server
            then ensure (sd_bind_addr s \<noteq> None \<and> sd_remote_addr s = None) (ConfigError ServerBindOnly) (
                 ensure ((q_certificate q \<noteq> None) = (q_private_key q \<noteq> None)) (ConfigError CertKeyPair)
                   (Ok ()))
            else ensure (sd_remote_addr s \<noteq> None \<and> sd_bind_addr s = None) (ConfigError ClientRemoteOnly)
                   (Ok ())) (\<lambda>_.
     let pinned_tls = (if server then q_certificate q \<noteq> None else q_trusted_root q \<noteq> None) in
     rbind (validate_noise b64 (tr_noise (sd_transport s)) server pinned_tls) (\<lambda>_.
     ensure (sd_retry_interval s \<le> 86400) (ConfigError RetryRange) (
     rbind (validate_services s server (sd_services s)) (\<lambda>_. Ok s))))))))))"

section \<open>Parsing and selecting\<close>

text \<open>\<open>from_str\<close> is \<open>toml::from_str\<close>, with \<open>None\<close> for its error.\<close>

definition validate_opt :: "(string \<Rightarrow> bytes option) \<Rightarrow> side option \<Rightarrow> bool \<Rightarrow> side option result" where
  "validate_opt b64 v server =
     (case v of None \<Rightarrow> Ok None
      | Some s \<Rightarrow> rbind (validate_side b64 s server) (\<lambda>s'. Ok (Some s')))"

definition parse :: "(string \<Rightarrow> bytes option) \<Rightarrow> (string \<Rightarrow> config option) \<Rightarrow> string \<Rightarrow> config result" where
  "parse b64 from_str text =
     rbind (ok_or (from_str text) (ConfigError InvalidToml)) (\<lambda>c.
     ensure (cf_server c \<noteq> None \<or> cf_client c \<noteq> None) (ConfigError NoRole) (
     rbind (validate_opt b64 (cf_server c) True) (\<lambda>srv.
     rbind (validate_opt b64 (cf_client c) False) (\<lambda>cli.
     Ok (c\<lparr>cf_server := srv, cf_client := cli\<rparr>)))))"

definition select_role :: "config \<Rightarrow> bool \<Rightarrow> config result" where
  "select_role c server =
     (if server then ensure (cf_server c \<noteq> None) (ConfigError NeedServer) (Ok (c\<lparr>cf_client := None\<rparr>))
      else ensure (cf_client c \<noteq> None) (ConfigError NeedClient) (Ok (c\<lparr>cf_server := None\<rparr>)))"

section \<open>Paths of the configuration file\<close>

text \<open>
  \<open>std::path\<close> on Unix, as far as \<open>Config::read\<close> uses it. A path is the bytes of its name;
  its first \<open>path_prefix\<close> bytes are the root \<open>/\<close> or a leading \<open>.\<close> component. \<open>trim_back\<close>
  works on the reversed rest and drops trailing separators and \<open>.\<close> components.
\<close>

definition is_absolute :: "string \<Rightarrow> bool" where
  "is_absolute p = (take 1 p = ''/'')"

definition path_prefix :: "string \<Rightarrow> nat" where
  "path_prefix p = (if is_absolute p \<or> p = ''.'' \<or> take 2 p = ''./'' then 1 else 0)"

fun trim_back :: "string \<Rightarrow> string" where
  "trim_back [] = []"
| "trim_back [c] = (if c = CHR ''/'' \<or> c = CHR ''.'' then [] else [c])"
| "trim_back (c # d # r) =
     (if c = CHR ''/'' then trim_back (d # r)
      else if c = CHR ''.'' \<and> d = CHR ''/'' then trim_back r
      else c # d # r)"

definition path_parent :: "string \<Rightarrow> string option" where
  "path_parent p =
     (let start = path_prefix p; body = trim_back (rev (drop start p)) in
      if body = [] then (if is_absolute p \<or> start = 0 then None else Some '''')
      else Some (take start p @ rev (trim_back (dropWhile (\<lambda>c. c \<noteq> CHR ''/'') body))))"

definition path_join :: "string \<Rightarrow> string \<Rightarrow> string" where
  "path_join dir p =
     (if is_absolute p then p
      else if dir = [] \<or> last dir = CHR ''/'' then dir @ p
      else dir @ ''/'' @ p)"

definition resolve_path :: "string \<Rightarrow> string option \<Rightarrow> string option" where
  "resolve_path dir v =
     (case v of None \<Rightarrow> None
      | Some p \<Rightarrow> if \<not> is_absolute p then Some (path_join dir p) else Some p)"

definition resolve_side :: "string \<Rightarrow> side \<Rightarrow> side" where
  "resolve_side dir s = s\<lparr>sd_transport := (sd_transport s)\<lparr>tr_quic := (tr_quic (sd_transport s))\<lparr>
     q_certificate := resolve_path dir (q_certificate (tr_quic (sd_transport s))),
     q_private_key := resolve_path dir (q_private_key (tr_quic (sd_transport s))),
     q_trusted_root := resolve_path dir (q_trusted_root (tr_quic (sd_transport s)))\<rparr>\<rparr>\<rparr>"

text \<open>\<open>read_to_string\<close> is the file system's.\<close>

definition read_config :: "(string \<Rightarrow> bytes option) \<Rightarrow> (string \<Rightarrow> config option) \<Rightarrow> (string \<Rightarrow> string result)
    \<Rightarrow> string \<Rightarrow> config result" where
  "read_config b64 from_str read_to_string path =
     rbind (read_to_string path) (\<lambda>text.
     rbind (parse b64 from_str text) (\<lambda>c.
     let dir = unwrap_or (path_parent path) ''.'' in
     Ok (c\<lparr>cf_server := map_option (resolve_side dir) (cf_server c),
           cf_client := map_option (resolve_side dir) (cf_client c)\<rparr>)))"

section \<open>What a valid configuration is\<close>

text \<open>
  The rules of \<open>docs/configuration.md\<close> without the order in which the code checks them, on
  numbers instead of machine words.
\<close>

definition valid_key :: "(string \<Rightarrow> bytes option) \<Rightarrow> string option \<Rightarrow> bool" where
  "valid_key b64 v \<longleftrightarrow> (\<exists>text bs. v = Some text \<and> b64 text = Some bs \<and> length bs = 32)"

definition noise_name :: "string \<Rightarrow> string" where
  "noise_name p = ''Noise_'' @ p @ ''_25519_ChaChaPoly_BLAKE2s''"

definition valid_noise :: "(string \<Rightarrow> bytes option) \<Rightarrow> noise \<Rightarrow> bool \<Rightarrow> bool \<Rightarrow> bool" where
  "valid_noise b64 n server pinned \<longleftrightarrow>
     (\<exists>p \<in> {''NK'', ''KK'', ''XX''}. noise_pattern n = noise_name p \<and>
        (p \<noteq> ''XX'' \<and> server \<or> p = ''KK'' \<longrightarrow> valid_key b64 (noise_local_private_key n)) \<and>
        (p \<noteq> ''XX'' \<and> \<not> server \<or> p = ''KK'' \<longrightarrow> valid_key b64 (noise_remote_public_key n)) \<and>
        (p = ''XX'' \<longrightarrow> pinned))"

definition valid_service :: "side \<Rightarrow> bool \<Rightarrow> string \<times> service \<Rightarrow> bool" where
  "valid_service s server e \<longleftrightarrow>
     length (fst e) \<in> {1..128} \<and> length (token s (snd e)) \<in> {1..512} \<and>
     unat (service_retry s (snd e)) \<le> 86400 \<and>
     (sv_bind_addr (snd e) \<noteq> None) = server \<and> (sv_local_addr (snd e) \<noteq> None) = (\<not> server)"

definition valid_limits :: "quic \<Rightarrow> bool" where
  "valid_limits q \<longleftrightarrow>
     unat (q_stream_receive_window q) \<in> {2 ^ 16..2 ^ 28} \<and>
     unat (q_receive_window q) \<in> {unat (q_stream_receive_window q)..2 ^ 29} \<and>
     unat (q_send_window q) \<in> {2 ^ 16..2 ^ 29} \<and>
     unat (q_socket_buffer q) \<in> {2 ^ 16..2 ^ 24} \<and>
     unat (q_udp_idle_timeout q) \<in> {1..86400} \<and>
     unat (q_max_connections q) \<in> {1..4096} \<and>
     unat (q_max_streams q) \<in> {1..4096} \<and>
     unat (q_max_udp_flows q) \<in> {1..65536}"

text \<open>The timers in force: a client's idle timeout and a server's keep-alive come from the heartbeat.\<close>

definition keep_alive :: "side \<Rightarrow> bool \<Rightarrow> u64" where
  "keep_alive s server = (if server then sd_heartbeat_interval s
     else q_keep_alive_interval (tr_quic (sd_transport s)))"

definition idle_timeout :: "side \<Rightarrow> bool \<Rightarrow> u64" where
  "idle_timeout s server = (if server then q_max_idle_timeout (tr_quic (sd_transport s))
     else sd_heartbeat_timeout s)"

definition effective :: "side \<Rightarrow> bool \<Rightarrow> side" where
  "effective s server = s\<lparr>sd_transport := (sd_transport s)\<lparr>tr_quic := (tr_quic (sd_transport s))\<lparr>
     q_keep_alive_interval := keep_alive s server, q_max_idle_timeout := idle_timeout s server\<rparr>\<rparr>\<rparr>"

definition valid_role :: "side \<Rightarrow> bool \<Rightarrow> bool" where
  "valid_role s server \<longleftrightarrow>
     (sd_bind_addr s \<noteq> None) = server \<and> (sd_remote_addr s \<noteq> None) = (\<not> server) \<and>
     (server \<longrightarrow> (q_certificate (tr_quic (sd_transport s)) = None) =
                 (q_private_key (tr_quic (sd_transport s)) = None))"

definition valid_side :: "(string \<Rightarrow> bytes option) \<Rightarrow> side \<Rightarrow> bool \<Rightarrow> bool" where
  "valid_side b64 s server \<longleftrightarrow>
     tr_kind (sd_transport s) \<in> {''noise'', ''quic''} \<and>
     tcp_proxy (tr_tcp (sd_transport s)) = None \<and>
     valid_limits (tr_quic (sd_transport s)) \<and>
     unat (keep_alive s server) \<le> 86400 \<and> unat (idle_timeout s server) \<le> 86400 \<and>
     unat (sd_retry_interval s) \<le> 86400 \<and>
     length (sd_services s) \<in> {1..256} \<and>
     valid_role s server \<and>
     valid_noise b64 (tr_noise (sd_transport s)) server
       ((if server then q_certificate else q_trusted_root) (tr_quic (sd_transport s)) \<noteq> None) \<and>
     (\<forall>e \<in> set (sd_services s). valid_service s server e)"

text \<open>
  A server and a client side that belong together, and a decoder that knows one key, for the
  concrete instances below.
\<close>

definition sample_b64 :: "string \<Rightarrow> bytes option" where
  "sample_b64 text = (if text = ''key'' then Some (replicate 32 7) else None)"

definition sample_service :: "bool \<Rightarrow> service" where
  "sample_service server = \<lparr>sv_kind = Udp, sv_token = Some ''secret'',
     sv_bind_addr = (if server then Some '':7000'' else None),
     sv_local_addr = (if server then None else Some '':7001''),
     sv_prefer_ipv6 = False, sv_nodelay = None, sv_retry_interval = None\<rparr>"

definition sample_side :: "bool \<Rightarrow> side" where
  "sample_side server = \<lparr>
     sd_bind_addr = (if server then Some '':2333'' else None),
     sd_remote_addr = (if server then None else Some ''host:2333''),
     sd_default_token = None, sd_prefer_ipv6 = False,
     sd_heartbeat_timeout = heartbeat_timeout, sd_heartbeat_interval = heartbeat_interval,
     sd_retry_interval = retry_interval,
     sd_transport = transport_default\<lparr>tr_noise := noise_default\<lparr>
       noise_local_private_key := (if server then Some ''key'' else None),
       noise_remote_public_key := (if server then None else Some ''key'')\<rparr>,
       tr_quic := quic_default\<lparr>q_trusted_root := Some ''root.pem''\<rparr>\<rparr>,
     sd_services = [(''game'', sample_service server)]\<rparr>"

definition sample_config :: config where
  "sample_config = \<lparr>cf_server = Some (sample_side True), cf_client = Some (sample_side False)\<rparr>"

section \<open>Validation decides validity\<close>

lemma key_is_ok: "(\<exists>bs. key b64 v = Ok bs) \<longleftrightarrow> valid_key b64 v"
  by (auto simp: key_def valid_key_def result_simps)

lemma key_Panicked [simp]: "key b64 v \<noteq> Err Panicked"
  by (simp add: key_def result_simps)

lemma noise_names [simp]:
  "noise_name ''NK'' = ''Noise_NK_25519_ChaChaPoly_BLAKE2s''"
  "noise_name ''KK'' = ''Noise_KK_25519_ChaChaPoly_BLAKE2s''"
  "noise_name ''XX'' = ''Noise_XX_25519_ChaChaPoly_BLAKE2s''"
  by (simp_all add: noise_name_def)

lemma validate_noise_NK:
  "noise_pattern n = noise_name ''NK'' \<Longrightarrow> validate_noise b64 n server pinned =
     rbind (key b64 (if server then noise_local_private_key n else noise_remote_public_key n)) (\<lambda>_. Ok ())"
  by (simp add: validate_noise_def nth_opt_def)

lemma validate_noise_KK:
  "noise_pattern n = noise_name ''KK'' \<Longrightarrow> validate_noise b64 n server pinned =
     rbind (key b64 (noise_local_private_key n)) (\<lambda>_.
     rbind (key b64 (noise_remote_public_key n)) (\<lambda>_. Ok ()))"
  by (simp add: validate_noise_def nth_opt_def)

lemma validate_noise_XX:
  "noise_pattern n = noise_name ''XX'' \<Longrightarrow> validate_noise b64 n server pinned =
     ensure pinned (ConfigError XXNeedsTls) (Ok ())"
  by (simp add: validate_noise_def nth_opt_def)

lemma validate_noise_other:
  "noise_pattern n \<notin> noise_name ` {''NK'', ''KK'', ''XX''} \<Longrightarrow>
   validate_noise b64 n server pinned = Err (ConfigError UnsupportedPattern)"
  by (simp add: validate_noise_def)

lemma valid_noise_pattern:
  assumes "p \<in> {''NK'', ''KK'', ''XX''}" and "noise_pattern n = noise_name p"
  shows "valid_noise b64 n server pinned \<longleftrightarrow>
    (p \<noteq> ''XX'' \<and> server \<or> p = ''KK'' \<longrightarrow> valid_key b64 (noise_local_private_key n)) \<and>
    (p \<noteq> ''XX'' \<and> \<not> server \<or> p = ''KK'' \<longrightarrow> valid_key b64 (noise_remote_public_key n)) \<and>
    (p = ''XX'' \<longrightarrow> pinned)"
proof -
  have inj: "noise_name p = noise_name q \<longleftrightarrow> p = q" if "q \<in> {''NK'', ''KK'', ''XX''}" for q
    by (simp add: noise_name_def)
  show ?thesis
    unfolding valid_noise_def assms(2)
    using assms(1) inj by blast
qed

lemma noise_pattern_cases:
  obtains (NK) "noise_pattern n = noise_name ''NK''" | (KK) "noise_pattern n = noise_name ''KK''"
  | (XX) "noise_pattern n = noise_name ''XX''"
  | (other) "noise_pattern n \<notin> noise_name ` {''NK'', ''KK'', ''XX''}"
  by blast

lemma validate_noise_ok:
  "validate_noise b64 n server pinned = Ok () \<longleftrightarrow> valid_noise b64 n server pinned"
proof (cases n rule: noise_pattern_cases)
  case NK
  then show ?thesis
    by (simp add: validate_noise_NK valid_noise_pattern [where p = "''NK''"] result_simps key_is_ok)
next
  case KK
  then show ?thesis
    by (simp add: validate_noise_KK valid_noise_pattern [where p = "''KK''"] result_simps key_is_ok)
next
  case XX
  then show ?thesis
    by (simp add: validate_noise_XX valid_noise_pattern [where p = "''XX''"] result_simps)
next
  case other
  then have "\<not> valid_noise b64 n server pinned"
    unfolding valid_noise_def by blast
  then show ?thesis using other by (simp add: validate_noise_other)
qed

lemma validate_noise_Panicked: "validate_noise b64 n server pinned \<noteq> Err Panicked"
  by (cases n rule: noise_pattern_cases)
     (simp_all add: validate_noise_NK validate_noise_KK validate_noise_XX validate_noise_other
       result_simps del: noise_names)

lemma validate_services_ok:
  "validate_services s server es = Ok () \<longleftrightarrow>
     (\<forall>(name, sv) \<in> set es. validate_service s server name sv = Ok ())"
  by (induction es) (auto simp: result_simps)

lemma length_range: "length xs \<in> {1..k} \<longleftrightarrow> xs \<noteq> [] \<and> length xs \<le> k"
  by (cases xs) auto

lemma validate_service_ok:
  "validate_service s server name sv = Ok () \<longleftrightarrow> valid_service s server (name, sv)"
proof -
  have "unwrap_or (sv_retry_interval sv) (sd_retry_interval s) \<le> 86400 \<longleftrightarrow>
      unat (service_retry s sv) \<le> 86400"
    by (simp add: service_retry_def word_le_nat_alt)
  then show ?thesis
    unfolding validate_service_def valid_service_def length_range
    by (auto simp: result_simps)
qed

lemma effective_simps [simp]:
  "sd_services (effective s server) = sd_services s"
  "sd_bind_addr (effective s server) = sd_bind_addr s"
  "sd_remote_addr (effective s server) = sd_remote_addr s"
  "sd_retry_interval (effective s server) = sd_retry_interval s"
  "tr_noise (sd_transport (effective s server)) = tr_noise (sd_transport s)"
  "tr_kind (sd_transport (effective s server)) = tr_kind (sd_transport s)"
  "tr_tcp (sd_transport (effective s server)) = tr_tcp (sd_transport s)"
  "token (effective s server) sv = token s sv"
  "service_retry (effective s server) sv = service_retry s sv"
  by (simp_all add: effective_def token_def service_retry_def)

lemma derive_timers_effective: "derive_timers s server = tr_quic (sd_transport (effective s server))"
  by (cases server) (simp_all add: derive_timers_def effective_def keep_alive_def idle_timeout_def)

lemma update_effective:
  "s\<lparr>sd_transport := (sd_transport s)\<lparr>tr_quic := tr_quic (sd_transport (effective s server))\<rparr>\<rparr> = effective s server"
  by (simp add: effective_def)

lemma effective_effective [simp]: "effective (effective s server) server = effective s server"
  by (cases server) (simp_all add: effective_def keep_alive_def idle_timeout_def)

lemma effective_timers [simp]:
  "keep_alive (effective s server) server = keep_alive s server"
  "idle_timeout (effective s server) server = idle_timeout s server"
  by (simp_all add: effective_def keep_alive_def idle_timeout_def)

lemma valid_service_effective [simp]:
  "valid_service (effective s server) r e = valid_service s r e"
  by (simp add: valid_service_def)

lemma valid_limits_effective [simp]:
  "valid_limits (tr_quic (sd_transport (effective s server))) = valid_limits (tr_quic (sd_transport s))"
  by (simp add: valid_limits_def effective_def)

lemma valid_role_effective [simp]: "valid_role (effective s r) server = valid_role s server"
  by (simp add: valid_role_def effective_def)

lemma quic_effective [simp]:
  "q_certificate (tr_quic (sd_transport (effective s server))) = q_certificate (tr_quic (sd_transport s))"
  "q_trusted_root (tr_quic (sd_transport (effective s server))) = q_trusted_root (tr_quic (sd_transport s))"
  "q_private_key (tr_quic (sd_transport (effective s server))) = q_private_key (tr_quic (sd_transport s))"
  "q_keep_alive_interval (tr_quic (sd_transport (effective s server))) = keep_alive s server"
  "q_max_idle_timeout (tr_quic (sd_transport (effective s server))) = idle_timeout s server"
  by (simp_all add: effective_def)

lemma valid_side_effective: "valid_side b64 (effective s server) server = valid_side b64 s server"
  by (simp add: valid_side_def)

lemma limits_words:
  "valid_limits q \<longleftrightarrow>
     (65536 \<le> q_stream_receive_window q \<and> q_stream_receive_window q \<le> 268435456 \<and>
      q_stream_receive_window q \<le> q_receive_window q \<and> q_receive_window q \<le> 536870912 \<and>
      65536 \<le> q_send_window q \<and> q_send_window q \<le> 536870912 \<and>
      65536 \<le> q_socket_buffer q \<and> q_socket_buffer q \<le> 16777216) \<and>
     1 \<le> q_udp_idle_timeout q \<and> q_udp_idle_timeout q \<le> 86400 \<and>
     (1 \<le> q_max_connections q \<and> q_max_connections q \<le> 4096 \<and>
      1 \<le> q_max_streams q \<and> q_max_streams q \<le> 4096 \<and>
      1 \<le> q_max_udp_flows q \<and> q_max_udp_flows q \<le> 65536)"
  by (simp add: valid_limits_def word_le_nat_alt conj_ac)

lemma role_checks:
  "(if server
    then ensure (sd_bind_addr s \<noteq> None \<and> sd_remote_addr s = None) e1 (
         ensure ((q_certificate (tr_quic (sd_transport s)) \<noteq> None) =
                 (q_private_key (tr_quic (sd_transport s)) \<noteq> None)) e2 (Ok ()))
    else ensure (sd_remote_addr s \<noteq> None \<and> sd_bind_addr s = None) e3 (Ok ())) = Ok () \<longleftrightarrow>
   valid_role s server"
  by (auto simp: valid_role_def result_simps)

lemma services_valid:
  "validate_services s server es = Ok () \<longleftrightarrow> (\<forall>e \<in> set es. valid_service s server e)"
  by (force simp: validate_services_ok validate_service_ok)

lemma validate_side_Ok:
  "validate_side b64 s server = Ok s' \<longleftrightarrow> valid_side b64 s server \<and> s' = effective s server"
proof -
  let ?q = "tr_quic (sd_transport (effective s server))"
  have "validate_side b64 s server = Ok s' \<longleftrightarrow>
      (tr_kind (sd_transport s) = ''noise'' \<or> tr_kind (sd_transport s) = ''quic'') \<and>
      tcp_proxy (tr_tcp (sd_transport s)) = None \<and>
      (valid_limits ?q \<and> keep_alive s server \<le> 86400 \<and> idle_timeout s server \<le> 86400) \<and>
      (sd_services s \<noteq> [] \<and> length (sd_services s) \<le> 256) \<and> valid_role (effective s server) server \<and>
      validate_noise b64 (tr_noise (sd_transport s)) server
        (if server then q_certificate ?q \<noteq> None else q_trusted_root ?q \<noteq> None) = Ok () \<and>
      sd_retry_interval s \<le> 86400 \<and>
      validate_services (effective s server) server (sd_services s) = Ok () \<and> s' = effective s server"
    unfolding validate_side_def Let_def derive_timers_effective update_effective
      ensure_eq_Ok rbind_unit_eq_Ok role_checks limits_words
    by auto
  then show ?thesis
    unfolding valid_side_def services_valid validate_noise_ok length_range
    by (auto simp: word_le_nat_alt)
qed

lemma validate_services_Panicked: "validate_services s server es \<noteq> Err Panicked"
  by (induction es) (auto simp: result_simps validate_service_def split: if_splits)

lemma validate_side_Panicked: "validate_side b64 s server \<noteq> Err Panicked"
  unfolding validate_side_def
  by (auto simp: result_simps Let_def validate_noise_Panicked validate_services_Panicked split: if_splits)

lemma validate_opt_Ok:
  "validate_opt b64 v server = Ok v' \<longleftrightarrow>
     (\<forall>s. v = Some s \<longrightarrow> valid_side b64 s server) \<and> v' = map_option (\<lambda>s. effective s server) v"
  by (cases v) (auto simp: validate_opt_def result_simps validate_side_Ok)

lemma validate_opt_Panicked: "validate_opt b64 v server \<noteq> Err Panicked"
  by (cases v) (auto simp: validate_opt_def result_simps validate_side_Panicked)

lemma parse_Ok:
  "parse b64 from_str text = Ok c' \<longleftrightarrow>
     (\<exists>c. from_str text = Some c \<and> (cf_server c \<noteq> None \<or> cf_client c \<noteq> None) \<and>
        (\<forall>s. cf_server c = Some s \<longrightarrow> valid_side b64 s True) \<and>
        (\<forall>s. cf_client c = Some s \<longrightarrow> valid_side b64 s False) \<and>
        c' = c\<lparr>cf_server := map_option (\<lambda>s. effective s True) (cf_server c),
               cf_client := map_option (\<lambda>s. effective s False) (cf_client c)\<rparr>)"
  unfolding parse_def rbind_eq_Ok ensure_eq_Ok ok_or_eq_Ok validate_opt_Ok by auto

lemma sample_valid: "valid_side sample_b64 (sample_side server) server"
proof -
  have quic: "valid_limits (tr_quic (sd_transport (sample_side server)))"
    by (simp add: limits_words sample_side_def transport_default_def quic_default_def)
  have noise: "valid_noise sample_b64 (tr_noise (sd_transport (sample_side server))) server pinned" for pinned
    by (subst valid_noise_pattern [where p = "''NK''"])
       (simp_all add: sample_side_def noise_default_def PATTERN_def valid_key_def sample_b64_def)
  have service: "valid_service (sample_side server) server (''game'', sample_service server)"
    by (simp add: valid_service_def token_def service_retry_def sample_side_def sample_service_def
        retry_interval_def)
  show ?thesis
    unfolding valid_side_def using quic noise service
    by (simp add: sample_side_def transport_default_def tcp_compat_default_def keep_alive_def
        idle_timeout_def valid_role_def quic_default_def heartbeat_timeout_def
        heartbeat_interval_def retry_interval_def)
qed

lemma sample_parse: "parse sample_b64 (\<lambda>_. Some sample_config) text =
    Ok \<lparr>cf_server = Some (effective (sample_side True) True),
        cf_client = Some (effective (sample_side False) False)\<rparr>"
  by (simp add: parse_Ok sample_config_def sample_valid)

section \<open>Paths\<close>

lemma is_absolute_append [simp]: "p \<noteq> [] \<Longrightarrow> is_absolute (p @ q) = is_absolute p"
  by (cases p) (simp_all add: is_absolute_def)

lemma is_absolute_join: "is_absolute dir \<Longrightarrow> is_absolute (path_join dir p)"
  by (cases dir) (auto simp: path_join_def is_absolute_def)

lemma is_absolute_parent:
  "is_absolute p \<Longrightarrow> path_parent p = Some dir \<Longrightarrow> is_absolute dir"
  by (cases p) (auto simp: path_parent_def path_prefix_def Let_def is_absolute_def split: if_splits)

lemma resolve_path_absolute:
  "is_absolute dir \<Longrightarrow> resolve_path dir v = Some p \<Longrightarrow> is_absolute p"
  by (auto simp: resolve_path_def is_absolute_join split: option.splits if_splits)

section \<open>Properties\<close>

text \<open>
  C6: Acceptance. \<open>Config::parse\<close> accepts a text exactly when it deserialises to a
  configuration with at least one role, each of which follows every rule of the reference; and
  what it returns differs from what was written only in the two derived timers.
\<close>

theorem parse_accepts_exactly:
  "parse b64 from_str text = Ok c' \<longleftrightarrow>
     (\<exists>c. from_str text = Some c \<and> (cf_server c \<noteq> None \<or> cf_client c \<noteq> None) \<and>
        (\<forall>s. cf_server c = Some s \<longrightarrow> valid_side b64 s True) \<and>
        (\<forall>s. cf_client c = Some s \<longrightarrow> valid_side b64 s False) \<and>
        c' = c\<lparr>cf_server := map_option (\<lambda>s. effective s True) (cf_server c),
               cf_client := map_option (\<lambda>s. effective s False) (cf_client c)\<rparr>)"
  by (rule parse_Ok)

theorem parse_accepts_exactly_witness:
  "parse sample_b64 (\<lambda>_. Some sample_config) ''text'' =
     Ok \<lparr>cf_server = Some (effective (sample_side True) True),
         cf_client = Some (effective (sample_side False) False)\<rparr>"
  using parse_accepts_exactly [of sample_b64 "\<lambda>_. Some sample_config" "''text''"] sample_valid
  by (simp add: sample_config_def)

text \<open>
  No panic. The \<open>unreachable!()\<close> arm of \<open>validate_noise\<close> is unreachable: whatever the
  text, the decoder and the deserialiser are, parsing never panics.
\<close>

lemma parse_never_panics: "parse b64 from_str text \<noteq> Err Panicked"
  unfolding parse_def by (simp add: result_simps validate_opt_Panicked)

text \<open>
  Validation is idempotent. Validating an already validated side accepts it again and
  changes nothing, so a configuration can be revalidated on every reload.
\<close>

lemma validate_side_idempotent:
  "validate_side b64 s server = Ok s' \<Longrightarrow> validate_side b64 s' server = Ok s'"
  by (auto simp: validate_side_Ok valid_side_effective)

text \<open>
  The reported service. When the loop over the services fails, the error is the one of the
  first service in name order that breaks a rule, and every service before it is valid.
\<close>

lemma validate_services_first_failure:
  assumes "validate_services s server es = Err e"
  shows "\<exists>before name sv after. es = before @ (name, sv) # after \<and>
    (\<forall>x \<in> set before. valid_service s server x) \<and> \<not> valid_service s server (name, sv) \<and>
    validate_service s server name sv = Err e"
  using assms
proof (induction es)
  case Nil
  then show ?case by simp
next
  case (Cons x es)
  obtain name sv where x: "x = (name, sv)" by fastforce
  show ?case
  proof (cases "validate_service s server name sv")
    case (Ok u)
    then have "valid_service s server x" and "validate_services s server es = Err e"
      using Cons.prems x by (simp_all flip: validate_service_ok)
    with Cons.IH show ?thesis by (metis Cons_eq_appendI set_ConsD)
  next
    case (Err e')
    then have "\<not> valid_service s server (name, sv)" "e' = e"
      using Cons.prems x by (simp_all flip: validate_service_ok)
    with Err x show ?thesis by fastforce
  qed
qed

text \<open>
  Certificate paths. Reading an absolute configuration path leaves only absolute
  certificate, private key and trusted root paths, whatever the file says.
\<close>

lemma read_config_absolute:
  assumes "read_config b64 from_str read_to_string path = Ok c" "is_absolute path" "path_parent path = Some dir"
    and "s \<in> set_option (cf_server c) \<union> set_option (cf_client c)"
    and "Some p \<in> {q_certificate (tr_quic (sd_transport s)), q_private_key (tr_quic (sd_transport s)),
                   q_trusted_root (tr_quic (sd_transport s))}"
  shows "is_absolute p"
proof -
  have "is_absolute dir" using assms(2,3) by (rule is_absolute_parent)
  moreover obtain s0 where "s = resolve_side dir s0"
    using assms(1,3,4) by (auto simp: read_config_def result_simps Let_def)
  then obtain v where "Some p = resolve_path dir v"
    using assms(5) by (auto simp: resolve_side_def)
  ultimately show ?thesis using resolve_path_absolute by metis
qed

text \<open>
  Role selection. After parsing, \<open>--server\<close> (\<open>--client\<close>) leaves exactly that role, valid,
  and fails exactly when the file does not configure it.
\<close>

lemma select_after_parse:
  assumes "parse b64 from_str text = Ok c"
  shows "(select_role c server = Err (ConfigError (if server then NeedServer else NeedClient)) \<longleftrightarrow>
            (if server then cf_server c else cf_client c) = None) \<and>
    (\<forall>c'. select_role c server = Ok c' \<longrightarrow>
       (\<exists>s. (if server then cf_server c' else cf_client c') = Some s \<and> valid_side b64 s server) \<and>
       (if server then cf_client c' else cf_server c') = None)"
  using assms by (auto simp: parse_Ok select_role_def result_simps valid_side_effective)

end
