(* ===== verification/Handshake.thy ===== *)
theory Handshake
  imports Frames Datagram_Crypto Config
begin

text \<open>
  The Noise handshakes of \<open>src/crypto.rs\<close>: \<open>handshake\<close> builds a handshake state that is bound to
  the QUIC connection and to a context, \<open>complete_handshake\<close> exchanges its messages over a QUIC
  stream, and the four entry points turn the finished handshake into a transport state (TCP
  streams) or a \<open>DatagramCrypto\<close> (registration and UDP) and exchange the first payloads. snow's
  builder and handshake state and Quinn's key exporter are parameters.
\<close>

section \<open>snow's builder and handshake state, parameters\<close>

text \<open>
  \<open>nb_new\<close> is \<open>Builder::new(pattern.parse()?)\<close>; the outcome of the random \<open>generate_keypair\<close>
  (private and public key) is part of the parameter. \<open>hs_write N h payload cap\<close> is
  \<open>h.write_message(payload, buf)\<close> with a buffer of \<open>cap\<close> bytes; \<open>hs_read\<close> likewise.
\<close>

record ('b, 'h, 't, 'k) noise_api =
  nb_new :: "string \<Rightarrow> 'b result"
  nb_prologue :: "'b \<Rightarrow> bytes \<Rightarrow> 'b result"
  nb_generate_keypair :: "'b \<Rightarrow> (bytes \<times> bytes) result"
  nb_local_private_key :: "'b \<Rightarrow> bytes \<Rightarrow> 'b result"
  nb_remote_public_key :: "'b \<Rightarrow> bytes \<Rightarrow> 'b result"
  nb_build_initiator :: "'b \<Rightarrow> 'h result"
  nb_build_responder :: "'b \<Rightarrow> 'h result"
  hs_finished :: "'h \<Rightarrow> bool"
  hs_write :: "'h \<Rightarrow> bytes \<Rightarrow> nat \<Rightarrow> bytes result \<times> 'h"
  hs_read :: "'h \<Rightarrow> bytes \<Rightarrow> nat \<Rightarrow> bytes result \<times> 'h"
  hs_transport :: "'h \<Rightarrow> 't result"
  hs_stateless :: "'h \<Rightarrow> 'k result"

section \<open>Building the handshake state\<close>

text \<open>\<open>export label context\<close> fills the 32 bytes of \<open>binding\<close>; \<open>b64\<close> is the base64 decoder.\<close>

definition prologue_for :: "bytes \<Rightarrow> bytes \<Rightarrow> bytes" where
  "prologue_for binding ctx = ascii ''cathole/1'' @ binding @ ctx"

definition handshake :: "('b, 'h, 't, 'k) noise_api \<Rightarrow> (string \<Rightarrow> bytes option) \<Rightarrow> (bytes \<Rightarrow> bytes \<Rightarrow> bytes option)
    \<Rightarrow> noise \<Rightarrow> bool \<Rightarrow> bytes \<Rightarrow> 'h result" where
  "handshake N b64 export cfg initiator ctx =
     rbind (ok_or (export (ascii ''cathole-noise-v1'') ctx) (CryptoError ExporterFailed)) (\<lambda>binding.
     rbind (nb_new N (noise_pattern cfg)) (\<lambda>b0.
     rbind (nb_prologue N b0 (prologue_for binding ctx)) (\<lambda>b1.
     let pattern = unwrap_or (nth_opt (split_on CHR ''_'' (noise_pattern cfg)) 1) '''' in
     rbind (if noise_local_private_key cfg \<noteq> None then
              rbind (key b64 (noise_local_private_key cfg)) (\<lambda>k. Ok (Some k))
            else if pattern = ''XX'' then
              rbind (nb_new N (noise_pattern cfg)) (\<lambda>g.
              rbind (nb_generate_keypair N g) (\<lambda>generated. Ok (Some (fst generated))))
            else Ok None) (\<lambda>local.
     rbind (if noise_remote_public_key cfg \<noteq> None then
              rbind (key b64 (noise_remote_public_key cfg)) (\<lambda>k. Ok (Some k))
            else Ok None) (\<lambda>remote.
     rbind (case local of Some k \<Rightarrow> nb_local_private_key N b1 k | None \<Rightarrow> Ok b1) (\<lambda>b2.
     rbind (case remote of Some k \<Rightarrow> nb_remote_public_key N b2 k | None \<Rightarrow> Ok b2) (\<lambda>b3.
     if initiator then nb_build_initiator N b3 else nb_build_responder N b3)))))))"

section \<open>Exchanging the messages\<close>

text \<open>One round of the \<open>while\<close> loop: our message, or the peer's.\<close>

definition hs_iter :: "('b, 'h, 't, 'k) noise_api \<Rightarrow> 's send_api \<Rightarrow> 'r recv_api \<Rightarrow> 'h \<Rightarrow> bool \<Rightarrow> 's \<Rightarrow> 'r
    \<Rightarrow> unit result \<times> 'h \<times> bool \<times> 's \<times> 'r" where
  "hs_iter N W R h our_turn s r =
     (if our_turn then
        (case hs_write N h [] MAX_FRAME of
           (Err e, h') \<Rightarrow> (Err e, h', our_turn, s, r)
         | (Ok m, h') \<Rightarrow>
             (case write_frame W s m of
                (Err e, s') \<Rightarrow> (Err e, h', our_turn, s', r)
              | (Ok _, s') \<Rightarrow> (Ok (), h', \<not> our_turn, s', r)))
      else
        (case read_frame R r of
           (Err e, r') \<Rightarrow> (Err e, h, our_turn, s, r')
         | (Ok None, r') \<Rightarrow> (Err (CryptoError MissingHandshakeMessage), h, our_turn, s, r')
         | (Ok (Some m), r') \<Rightarrow>
             (case hs_read N h m MAX_FRAME of
                (Err e, h') \<Rightarrow> (Err e, h', our_turn, s, r')
              | (Ok _, h') \<Rightarrow> (Ok (), h', \<not> our_turn, s, r'))))"

text \<open>The loop with fuel; \<open>None\<close> is a loop that has not ended yet.\<close>

fun hs_loop :: "nat \<Rightarrow> ('b, 'h, 't, 'k) noise_api \<Rightarrow> 's send_api \<Rightarrow> 'r recv_api \<Rightarrow> 'h \<Rightarrow> bool \<Rightarrow> 's \<Rightarrow> 'r
    \<Rightarrow> ('h result \<times> 's \<times> 'r) option" where
  "hs_loop 0 N W R h our_turn s r = None"
| "hs_loop (Suc fuel) N W R h our_turn s r =
     (if hs_finished N h then Some (Ok h, s, r)
      else case hs_iter N W R h our_turn s r of
        (Err e, h', t', s', r') \<Rightarrow> Some (Err e, s', r')
      | (Ok _, h', t', s', r') \<Rightarrow> hs_loop fuel N W R h' t' s' r')"

definition complete_handshake :: "nat \<Rightarrow> ('b, 'h, 't, 'k) noise_api \<Rightarrow> 's send_api \<Rightarrow> 'r recv_api \<Rightarrow> (string \<Rightarrow> bytes option)
    \<Rightarrow> (bytes \<Rightarrow> bytes \<Rightarrow> bytes option) \<Rightarrow> noise \<Rightarrow> 's \<Rightarrow> 'r \<Rightarrow> bytes \<Rightarrow> bool \<Rightarrow> ('h result \<times> 's \<times> 'r) option" where
  "complete_handshake fuel N W R b64 export cfg s r ctx initiator =
     (case handshake N b64 export cfg initiator ctx of
        Err e \<Rightarrow> Some (Err e, s, r)
      | Ok h \<Rightarrow> hs_loop fuel N W R h initiator s r)"

section \<open>TCP streams\<close>

definition initiate_stream :: "nat \<Rightarrow> ('b, 'h, 't, 'k) noise_api \<Rightarrow> 't transport_api \<Rightarrow> 's send_api \<Rightarrow> 'r recv_api
    \<Rightarrow> (string \<Rightarrow> bytes option) \<Rightarrow> (bytes \<Rightarrow> bytes \<Rightarrow> bytes option) \<Rightarrow> noise \<Rightarrow> 's \<Rightarrow> 'r \<Rightarrow> bytes \<Rightarrow> bytes
    \<Rightarrow> (('t \<times> bytes) result \<times> 's \<times> 'r) option" where
  "initiate_stream fuel N T W R b64 export cfg s r ctx payload =
     (case complete_handshake fuel N W R b64 export cfg s r ctx True of
        None \<Rightarrow> None
      | Some (Err e, s1, r1) \<Rightarrow> Some (Err e, s1, r1)
      | Some (Ok h, s1, r1) \<Rightarrow> Some
          (case hs_transport N h of
             Err e \<Rightarrow> (Err e, s1, r1)
           | Ok t \<Rightarrow>
               (case write_transport T W t s1 payload of
                  (Err e, t1, s2) \<Rightarrow> (Err e, s2, r1)
                | (Ok _, t1, s2) \<Rightarrow>
                    (case read_transport T R t1 r1 of
                       (Err e, t2, r2) \<Rightarrow> (Err e, s2, r2)
                     | (Ok None, t2, r2) \<Rightarrow> (Err (CryptoError MissingResponse), s2, r2)
                     | (Ok (Some reply), t2, r2) \<Rightarrow> (Ok (t2, reply), s2, r2)))))"

definition receive_stream :: "nat \<Rightarrow> ('b, 'h, 't, 'k) noise_api \<Rightarrow> 't transport_api \<Rightarrow> 's send_api \<Rightarrow> 'r recv_api
    \<Rightarrow> (string \<Rightarrow> bytes option) \<Rightarrow> (bytes \<Rightarrow> bytes \<Rightarrow> bytes option) \<Rightarrow> noise \<Rightarrow> 's \<Rightarrow> 'r \<Rightarrow> bytes
    \<Rightarrow> (('t \<times> bytes) result \<times> 's \<times> 'r) option" where
  "receive_stream fuel N T W R b64 export cfg s r ctx =
     (case complete_handshake fuel N W R b64 export cfg s r ctx False of
        None \<Rightarrow> None
      | Some (Err e, s1, r1) \<Rightarrow> Some (Err e, s1, r1)
      | Some (Ok h, s1, r1) \<Rightarrow> Some
          (case hs_transport N h of
             Err e \<Rightarrow> (Err e, s1, r1)
           | Ok t \<Rightarrow>
               (case read_transport T R t r1 of
                  (Err e, t1, r2) \<Rightarrow> (Err e, s1, r2)
                | (Ok None, t1, r2) \<Rightarrow> (Err (CryptoError MissingRequest), s1, r2)
                | (Ok (Some payload), t1, r2) \<Rightarrow> (Ok (t1, payload), s1, r2))))"

section \<open>Registration and UDP\<close>

definition initiate_datagram :: "nat \<Rightarrow> ('b, 'h, 't, 'k) noise_api \<Rightarrow> 'k stateless_api \<Rightarrow> 's send_api \<Rightarrow> 'r recv_api
    \<Rightarrow> (string \<Rightarrow> bytes option) \<Rightarrow> (bytes \<Rightarrow> bytes \<Rightarrow> bytes option) \<Rightarrow> noise \<Rightarrow> 's \<Rightarrow> 'r \<Rightarrow> bytes \<Rightarrow> bytes
    \<Rightarrow> (('k datagram_crypto \<times> bytes) result \<times> 's \<times> 'r) option" where
  "initiate_datagram fuel N A W R b64 export cfg s r ctx payload =
     (case complete_handshake fuel N W R b64 export cfg s r ctx True of
        None \<Rightarrow> None
      | Some (Err e, s1, r1) \<Rightarrow> Some (Err e, s1, r1)
      | Some (Ok h, s1, r1) \<Rightarrow> Some
          (case hs_stateless N h of
             Err e \<Rightarrow> (Err e, s1, r1)
           | Ok k \<Rightarrow>
               (case dc_seal A (dc_new k) payload of
                  (Err e, c1) \<Rightarrow> (Err e, s1, r1)
                | (Ok d, c1) \<Rightarrow>
                    (case write_frame W s1 d of
                       (Err e, s2) \<Rightarrow> (Err e, s2, r1)
                     | (Ok _, s2) \<Rightarrow>
                         (case read_frame R r1 of
                            (Err e, r2) \<Rightarrow> (Err e, s2, r2)
                          | (Ok None, r2) \<Rightarrow> (Err (CryptoError MissingResponse), s2, r2)
                          | (Ok (Some f), r2) \<Rightarrow>
                              (case dc_open A c1 f of
                                 (Err e, c2) \<Rightarrow> (Err e, s2, r2)
                               | (Ok reply, c2) \<Rightarrow> (Ok (c2, reply), s2, r2)))))))"

definition receive_datagram :: "nat \<Rightarrow> ('b, 'h, 't, 'k) noise_api \<Rightarrow> 'k stateless_api \<Rightarrow> 's send_api \<Rightarrow> 'r recv_api
    \<Rightarrow> (string \<Rightarrow> bytes option) \<Rightarrow> (bytes \<Rightarrow> bytes \<Rightarrow> bytes option) \<Rightarrow> noise \<Rightarrow> 's \<Rightarrow> 'r \<Rightarrow> bytes
    \<Rightarrow> (('k datagram_crypto \<times> bytes) result \<times> 's \<times> 'r) option" where
  "receive_datagram fuel N A W R b64 export cfg s r ctx =
     (case complete_handshake fuel N W R b64 export cfg s r ctx False of
        None \<Rightarrow> None
      | Some (Err e, s1, r1) \<Rightarrow> Some (Err e, s1, r1)
      | Some (Ok h, s1, r1) \<Rightarrow> Some
          (case hs_stateless N h of
             Err e \<Rightarrow> (Err e, s1, r1)
           | Ok k \<Rightarrow>
               (case read_frame R r1 of
                  (Err e, r2) \<Rightarrow> (Err e, s1, r2)
                | (Ok None, r2) \<Rightarrow> (Err (CryptoError MissingRequest), s1, r2)
                | (Ok (Some f), r2) \<Rightarrow>
                    (case dc_open A (dc_new k) f of
                       (Err e, c1) \<Rightarrow> (Err e, s1, r2)
                     | (Ok payload, c1) \<Rightarrow> (Ok (c1, payload), s1, r2)))))"

section \<open>What is relied on of snow\<close>

text \<open>
  Noise patterns have a fixed number of messages: \<open>left h\<close> is how many are still to be exchanged
  from \<open>h\<close>, at most three in a freshly built state (NK and KK have two, XX has three).
\<close>

definition counts_messages :: "('b, 'h, 't, 'k) noise_api \<Rightarrow> ('h \<Rightarrow> nat) \<Rightarrow> bool" where
  "counts_messages N left \<longleftrightarrow>
     (\<forall>b h. nb_build_initiator N b = Ok h \<or> nb_build_responder N b = Ok h \<longrightarrow> left h \<le> 3) \<and>
     (\<forall>h. hs_finished N h \<longleftrightarrow> left h = 0) \<and>
     (\<forall>h p cap m h'. hs_write N h p cap = (Ok m, h') \<longrightarrow> left h = Suc (left h')) \<and>
     (\<forall>h m cap p h'. hs_read N h m cap = (Ok p, h') \<longrightarrow> left h = Suc (left h'))"

text \<open>
  Two states of one handshake, \<open>p True\<close> the initiator's and \<open>p False\<close> the responder's, after \<open>n\<close>
  of its \<open>k\<close> messages: the party whose turn it is writes a message that fits a frame, and the
  other reads it.
\<close>

definition noise_pair :: "('b, 'h, 't, 'k) noise_api \<Rightarrow> (nat \<Rightarrow> (bool \<Rightarrow> 'h) \<Rightarrow> bool) \<Rightarrow> nat \<Rightarrow> bool" where
  "noise_pair N inst k \<longleftrightarrow>
     (\<forall>n p who. inst n p \<longrightarrow> n \<le> k \<and> (hs_finished N (p who) \<longleftrightarrow> n = k)) \<and>
     (\<forall>n p. inst n p \<longrightarrow> n < k \<longrightarrow> (\<exists>m w x v.
        hs_write N (p (even n)) [] MAX_FRAME = (Ok m, w) \<and> frame_fits m \<and>
        hs_read N (p (odd n)) m MAX_FRAME = (Ok x, v) \<and>
        inst (Suc n) (p(even n := w, odd n := v))))"

text \<open>
  The prologue is part of the transcript: \<open>pb\<close> and \<open>pro\<close> read it off a builder and a handshake
  state, and two finished states \<open>agree\<close> on their session keys only under the same prologue.
\<close>

definition binds_prologue :: "('b, 'h, 't, 'k) noise_api \<Rightarrow> ('b \<Rightarrow> bytes) \<Rightarrow> ('h \<Rightarrow> bytes) \<Rightarrow> ('h \<Rightarrow> 'h \<Rightarrow> bool) \<Rightarrow> bool" where
  "binds_prologue N pb pro agree \<longleftrightarrow>
     (\<forall>b p b'. nb_prologue N b p = Ok b' \<longrightarrow> pb b' = p) \<and>
     (\<forall>b k b'. nb_local_private_key N b k = Ok b' \<or> nb_remote_public_key N b k = Ok b' \<longrightarrow> pb b' = pb b) \<and>
     (\<forall>b h. nb_build_initiator N b = Ok h \<or> nb_build_responder N b = Ok h \<longrightarrow> pro h = pb b) \<and>
     (\<forall>h p cap m h'. hs_write N h p cap = (Ok m, h') \<longrightarrow> pro h' = pro h) \<and>
     (\<forall>h m cap p h'. hs_read N h m cap = (Ok p, h') \<longrightarrow> pro h' = pro h) \<and>
     (\<forall>i r. hs_finished N i \<longrightarrow> hs_finished N r \<longrightarrow> agree i r \<longrightarrow> pro i = pro r)"

text \<open>The builder accepts the supported pattern with 32-byte keys.\<close>

definition builder_total :: "('b, 'h, 't, 'k) noise_api \<Rightarrow> string \<Rightarrow> bool" where
  "builder_total N pattern \<longleftrightarrow> is_ok (nb_new N pattern) \<and>
     (\<forall>b p. is_ok (nb_prologue N b p)) \<and> (\<forall>b. \<exists>priv pub. nb_generate_keypair N b = Ok (priv, pub) \<and> length priv = 32) \<and>
     (\<forall>b k. length k = 32 \<longrightarrow> is_ok (nb_local_private_key N b k) \<and> is_ok (nb_remote_public_key N b k)) \<and>
     (\<forall>b. is_ok (nb_build_initiator N b) \<and> is_ok (nb_build_responder N b))"

text \<open>
  A finished handshake gives each party a transport state (\<open>into_transport_mode\<close>) whose two
  directions match the peer's and whose first message can be written, or a stateless one.
\<close>

definition transport_session :: "('b, 'h, 't, 'k) noise_api \<Rightarrow> 't transport_api \<Rightarrow> ('t \<Rightarrow> 'v) \<Rightarrow> ('t \<Rightarrow> 'v) \<Rightarrow> ('v \<Rightarrow> 'v \<Rightarrow> bool)
    \<Rightarrow> (nat \<Rightarrow> (bool \<Rightarrow> 'h) \<Rightarrow> bool) \<Rightarrow> nat \<Rightarrow> bool" where
  "transport_session N T txv rxv peer inst k \<longleftrightarrow> transport_pair T txv rxv peer \<and>
     (\<forall>p. inst k p \<longrightarrow> (\<exists>ti tr. hs_transport N (p True) = Ok ti \<and> hs_transport N (p False) = Ok tr \<and>
        peer (txv ti) (rxv tr) \<and> peer (txv tr) (rxv ti) \<and>
        (\<forall>t m. txv t \<in> {txv ti, txv tr} \<longrightarrow> length m + 16 \<le> 65535 \<longrightarrow>
           is_ok (fst (ts_write T t m (length m + 16))))))"

definition stateless_session :: "('b, 'h, 't, 'k) noise_api \<Rightarrow> 'k stateless_api \<Rightarrow> (nat \<Rightarrow> (bool \<Rightarrow> 'h) \<Rightarrow> bool) \<Rightarrow> nat \<Rightarrow> bool" where
  "stateless_session N A inst k \<longleftrightarrow>
     (\<forall>p. inst k p \<longrightarrow> (\<exists>ki kr. hs_stateless N (p True) = Ok ki \<and> hs_stateless N (p False) = Ok kr \<and>
        stateless_correct A ki kr \<and> stateless_correct A kr ki))"

section \<open>Two parties\<close>

text \<open>
  Both ends of a handshake with the bytes in flight: \<open>sy_wire who\<close> is what \<open>who\<close> has written and
  the other end has not read. A party that waits for a message blocks in \<open>read_frame\<close> until a whole
  frame has arrived. Which party runs next is up to the schedule.
\<close>

record 'h hs_system =
  sy_hs :: "bool \<Rightarrow> 'h"
  sy_turn :: "bool \<Rightarrow> bool"
  sy_wire :: "bool \<Rightarrow> bytes"
  sy_error :: "error option"

definition hs_start :: "(bool \<Rightarrow> 'h) \<Rightarrow> 'h hs_system" where
  "hs_start p = \<lparr>sy_hs = p, sy_turn = (\<lambda>who. who), sy_wire = (\<lambda>_. []), sy_error = None\<rparr>"

definition hs_party_step :: "('b, 'h, 't, 'k) noise_api \<Rightarrow> bool \<Rightarrow> 'h hs_system \<Rightarrow> 'h hs_system" where
  "hs_party_step N who y =
     (if sy_error y \<noteq> None \<or> hs_finished N (sy_hs y who) \<or>
         (\<not> sy_turn y who \<and> frame_pending (sy_wire y (\<not> who))) then y
      else case hs_iter N list_send list_recv (sy_hs y who) (sy_turn y who) (sy_wire y who) (sy_wire y (\<not> who)) of
        (x, h, turn, s, r) \<Rightarrow>
          \<lparr>sy_hs = (sy_hs y)(who := h), sy_turn = (sy_turn y)(who := turn),
           sy_wire = (sy_wire y)(who := s, (\<not> who) := r),
           sy_error = (case x of Ok _ \<Rightarrow> None | Err e \<Rightarrow> Some e)\<rparr>)"

definition hs_run :: "('b, 'h, 't, 'k) noise_api \<Rightarrow> bool list \<Rightarrow> 'h hs_system \<Rightarrow> 'h hs_system" where
  "hs_run N schedule y = fold (hs_party_step N) schedule y"

section \<open>A concrete instance\<close>

text \<open>
  A builder is its prologue; a handshake state is the party, the messages exchanged and the
  prologue. Each message is the prologue, so a party with another one refuses it.
\<close>

definition sample_noise :: "(bytes, bool \<times> nat \<times> bytes, u64 \<times> u64, unit) noise_api" where
  "sample_noise = \<lparr>
     nb_new = (\<lambda>_. Ok []), nb_prologue = (\<lambda>b p. Ok p),
     nb_generate_keypair = (\<lambda>b. Ok (replicate 32 0, replicate 32 0)),
     nb_local_private_key = (\<lambda>b k. Ok b), nb_remote_public_key = (\<lambda>b k. Ok b),
     nb_build_initiator = (\<lambda>b. Ok (True, 0, b)), nb_build_responder = (\<lambda>b. Ok (False, 0, b)),
     hs_finished = (\<lambda>(i, n, p). 2 \<le> n),
     hs_write = (\<lambda>(i, n, p) payload cap. if n < 2 \<and> even n = i \<and> length p \<le> cap
        then (Ok p, i, Suc n, p) else (Err (External ''state''), i, n, p)),
     hs_read = (\<lambda>(i, n, p) m cap. if n < 2 \<and> odd n = i \<and> m = p
        then (Ok [], i, Suc n, p) else (Err (External ''decrypt''), i, n, p)),
     hs_transport = (\<lambda>(i, n, p). if 2 \<le> n then Ok (0, 0) else Err (External ''state'')),
     hs_stateless = (\<lambda>(i, n, p). if 2 \<le> n then Ok () else Err (External ''state''))\<rparr>"

definition sample_inst :: "nat \<Rightarrow> (bool \<Rightarrow> bool \<times> nat \<times> bytes) \<Rightarrow> bool" where
  "sample_inst n p \<longleftrightarrow> n \<le> 2 \<and> (\<exists>b. length b \<le> MAX_FRAME \<and> p = (\<lambda>who. (who, n, b)))"

lemma sample_noise_simps [simp]:
  "nb_new sample_noise pattern = Ok []" "nb_prologue sample_noise b pr = Ok pr"
  "nb_local_private_key sample_noise b k = Ok b" "nb_remote_public_key sample_noise b k = Ok b"
  "nb_build_initiator sample_noise b = Ok (True, 0, b)" "nb_build_responder sample_noise b = Ok (False, 0, b)"
  "hs_finished sample_noise (i, n, pr) \<longleftrightarrow> 2 \<le> n"
  "hs_write sample_noise (i, n, pr) m cap = (if n < 2 \<and> even n = i \<and> length pr \<le> cap
     then (Ok pr, i, Suc n, pr) else (Err (External ''state''), i, n, pr))"
  "hs_read sample_noise (i, n, pr) m cap = (if n < 2 \<and> odd n = i \<and> m = pr
     then (Ok [], i, Suc n, pr) else (Err (External ''decrypt''), i, n, pr))"
  by (simp_all add: sample_noise_def)

lemma sample_counts: "counts_messages sample_noise (\<lambda>(i, n, p). 2 - n)"
  unfolding counts_messages_def sample_noise_def by (auto split: if_splits)

lemma sample_noise_pair: "noise_pair sample_noise sample_inst 2"
  unfolding noise_pair_def sample_inst_def frame_fits_def
  by (intro conjI allI impI; elim conjE exE)
     (auto simp: sample_noise_def fun_eq_iff split: if_splits)

lemma sample_binds: "binds_prologue sample_noise (\<lambda>b. b) (snd \<circ> snd) (\<lambda>(i, n, p) (i', n', p'). p = p')"
  unfolding binds_prologue_def sample_noise_def by (auto split: if_splits)

lemma sample_builder: "builder_total sample_noise pattern"
  by (simp add: builder_total_def sample_noise_def)

section \<open>The loop ends\<close>

lemma hs_iter_left:
  assumes "counts_messages N left" "hs_iter N W R h our_turn s r = (Ok (), h', t', s', r')"
  shows "left h = Suc (left h')"
  using assms unfolding counts_messages_def hs_iter_def
  by (auto split: if_splits prod.splits result.splits option.splits)

lemma hs_loop_ends:
  assumes N: "counts_messages N left"
  shows "left h < fuel \<Longrightarrow> \<exists>x. \<forall>more. hs_loop (fuel + more) N W R h our_turn s r = Some x"
proof (induction fuel arbitrary: h our_turn s r)
  case (Suc fuel)
  obtain x h' t' s' r' where it: "hs_iter N W R h our_turn s r = (x, h', t', s', r')"
    by (metis prod_cases5)
  show ?case
  proof (cases "hs_finished N h \<or> (\<exists>e. x = Err e)")
    case True
    then show ?thesis using it by (cases "hs_finished N h") auto
  next
    case False
    then obtain u where x: "x = Ok u" by (cases x) auto
    then have "left h' < fuel" using Suc.prems hs_iter_left [OF N] it by fastforce
    from Suc.IH [OF this, of t' s' r'] False x it show ?thesis by simp
  qed
qed simp

section \<open>Messages always get through\<close>

lemma noise_pairD:
  assumes "noise_pair N inst k" "inst n p"
  shows "n \<le> k" and "hs_finished N (p who) \<longleftrightarrow> n = k"
    and "n < k \<Longrightarrow> \<exists>m w x v. hs_write N (p (even n)) [] MAX_FRAME = (Ok m, w) \<and> frame_fits m \<and>
      hs_read N (p (odd n)) m MAX_FRAME = (Ok x, v) \<and> inst (Suc n) (p(even n := w, odd n := v))"
  using assms unfolding noise_pair_def by blast+

text \<open>
  The progress of two parties: \<open>phase (2 * n)\<close> is the state after \<open>n\<close> messages with nothing in
  flight, \<open>phase (2 * n + 1)\<close> the one with message \<open>n\<close> written and not yet read.
\<close>

definition in_sync :: "(nat \<Rightarrow> (bool \<Rightarrow> 'h) \<Rightarrow> bool) \<Rightarrow> nat \<Rightarrow> 'h hs_system \<Rightarrow> bool" where
  "in_sync inst n y \<longleftrightarrow> (\<exists>p. inst n p \<and>
     y = \<lparr>sy_hs = p, sy_turn = (\<lambda>who. who = even n), sy_wire = (\<lambda>_. []), sy_error = None\<rparr>)"

definition in_flight :: "('b, 'h, 't, 'k) noise_api \<Rightarrow> (nat \<Rightarrow> (bool \<Rightarrow> 'h) \<Rightarrow> bool) \<Rightarrow> nat \<Rightarrow> nat \<Rightarrow> 'h hs_system \<Rightarrow> bool" where
  "in_flight N inst k n y \<longleftrightarrow> n < k \<and> (\<exists>p m w x v. inst n p \<and> frame_fits m \<and>
     hs_read N (p (odd n)) m MAX_FRAME = (Ok x, v) \<and> inst (Suc n) (p(even n := w, odd n := v)) \<and>
     y = \<lparr>sy_hs = p(even n := w), sy_turn = (\<lambda>_. False),
          sy_wire = (\<lambda>_. [])(even n := frame_bytes m), sy_error = None\<rparr>)"

definition phase :: "('b, 'h, 't, 'k) noise_api \<Rightarrow> (nat \<Rightarrow> (bool \<Rightarrow> 'h) \<Rightarrow> bool) \<Rightarrow> nat \<Rightarrow> nat \<Rightarrow> 'h hs_system \<Rightarrow> bool" where
  "phase N inst k j y \<longleftrightarrow> (if even j then in_sync inst (j div 2) y else in_flight N inst k (j div 2) y)"

definition mover :: "nat \<Rightarrow> bool" where
  "mover j = (even j = even (j div 2))"

lemma in_flightI:
  "n < k \<Longrightarrow> inst n p \<Longrightarrow> frame_fits m \<Longrightarrow> hs_read N (p (odd n)) m MAX_FRAME = (Ok x, v) \<Longrightarrow>
   inst (Suc n) (p(even n := w, odd n := v)) \<Longrightarrow>
   in_flight N inst k n \<lparr>sy_hs = p(even n := w), sy_turn = (\<lambda>_. False),
     sy_wire = (\<lambda>_. [])(even n := frame_bytes m), sy_error = None\<rparr>"
  unfolding in_flight_def by blast

lemma sync_step:
  assumes N: "noise_pair N inst k" and y: "in_sync inst n y"
  shows "if n < k \<and> who = even n then in_flight N inst k n (hs_party_step N who y) else hs_party_step N who y = y"
proof -
  obtain p where p: "inst n p" and y: "y = \<lparr>sy_hs = p, sy_turn = (\<lambda>who. who = even n), sy_wire = (\<lambda>_. []), sy_error = None\<rparr>"
    using y unfolding in_sync_def by blast
  note fin = noise_pairD(1,2) [OF N p]
  show ?thesis
  proof (cases "n < k \<and> who = even n")
    case True
    then obtain m w x v where m: "hs_write N (p (even n)) [] MAX_FRAME = (Ok m, w)" "frame_fits m"
      "hs_read N (p (odd n)) m MAX_FRAME = (Ok x, v)" "inst (Suc n) (p(even n := w, odd n := v))"
      using noise_pairD(3) [OF N p] by blast
    have "write_frame list_send [] m = (Ok (), frame_bytes m)"
      using m(2) by (simp add: write_frame_def list_send_def frame_bytes_def frame_fits_def)
    then have "hs_party_step N who y = \<lparr>sy_hs = p(even n := w), sy_turn = (\<lambda>_. False),
        sy_wire = (\<lambda>_. [])(even n := frame_bytes m), sy_error = None\<rparr>"
      using True m(1) fin by (simp add: hs_party_step_def y hs_iter_def fun_eq_iff)
    then show ?thesis using True in_flightI [of n k inst p m N, OF _ p m(2,3,4)] by simp
  next
    case False
    then show ?thesis using fin by (auto simp: hs_party_step_def y)
  qed
qed

lemma flight_step:
  assumes N: "noise_pair N inst k" and y: "in_flight N inst k n y"
  shows "if who = odd n then in_sync inst (Suc n) (hs_party_step N who y) else hs_party_step N who y = y"
proof -
  obtain p m w x v where p: "inst n p" and n: "n < k" and m: "frame_fits m"
    "hs_read N (p (odd n)) m MAX_FRAME = (Ok x, v)" and nxt: "inst (Suc n) (p(even n := w, odd n := v))"
    and y: "y = \<lparr>sy_hs = p(even n := w), sy_turn = (\<lambda>_. False),
          sy_wire = (\<lambda>_. [])(even n := frame_bytes m), sy_error = None\<rparr>"
    using y unfolding in_flight_def by blast
  show ?thesis
  proof (cases "who = odd n")
    case True
    have "\<not> hs_finished N (p (odd n))" using noise_pairD(2) [OF N p] n by simp
    moreover have "read_frame list_recv (frame_bytes m) = (Ok (Some m), [])"
      using read_frame_enc [OF list_recv_reliable m(1), of "frame_bytes m" "[]"] by simp
    moreover have "\<not> frame_pending (frame_bytes m)" using frame_pending_simps(2) [OF m(1), of "[]"] by simp
    ultimately have "hs_party_step N who y = \<lparr>sy_hs = p(even n := w, odd n := v),
        sy_turn = (\<lambda>who. who = even (Suc n)), sy_wire = (\<lambda>_. []), sy_error = None\<rparr>"
      using True m(2) by (simp add: hs_party_step_def y hs_iter_def fun_eq_iff)
    then show ?thesis using True nxt unfolding in_sync_def by auto
  next
    case False
    then show ?thesis by (auto simp: hs_party_step_def y)
  qed
qed

lemma phase_step:
  assumes N: "noise_pair N inst k" and y: "phase N inst k j y"
  shows "if j < 2 * k \<and> who = mover j then phase N inst k (Suc j) (hs_party_step N who y) else hs_party_step N who y = y"
proof (cases "even j")
  case True
  then obtain n where j: "j = 2 * n" by blast
  then have "in_sync inst n y" using y by (simp add: phase_def)
  from sync_step [OF N this, of who] show ?thesis by (auto simp: phase_def mover_def j split: if_splits)
next
  case False
  then obtain n where j: "j = 2 * n + 1" by (metis oddE)
  then have y': "in_flight N inst k n y" using y by (simp add: phase_def)
  then have "n < k" by (simp add: in_flight_def)
  then show ?thesis using flight_step [OF N y', of who] by (auto simp: phase_def mover_def j split: if_splits)
qed

lemma phase_bound: "noise_pair N inst k \<Longrightarrow> phase N inst k j y \<Longrightarrow> j \<le> 2 * k"
  using noise_pairD(1) by (fastforce simp: phase_def in_sync_def in_flight_def split: if_splits)

lemma hs_run_simps [simp]:
  "hs_run N [] y = y"
  "hs_run N (who # ws) y = hs_run N ws (hs_party_step N who y)"
  "hs_run N (ws @ vs) y = hs_run N vs (hs_run N ws y)"
  by (simp_all add: hs_run_def)

lemma phase_run:
  assumes N: "noise_pair N inst k"
  shows "phase N inst k j y \<Longrightarrow> \<exists>j'. phase N inst k j' (hs_run N ws y) \<and> j \<le> j' \<and>
    (j < 2 * k \<and> mover j \<in> set ws \<longrightarrow> j < j')"
proof (induction ws arbitrary: j y)
  case (Cons who ws)
  show ?case
  proof (cases "j < 2 * k \<and> who = mover j")
    case True
    then have "phase N inst k (Suc j) (hs_party_step N who y)" using phase_step [OF N Cons.prems, of who] by simp
    from Cons.IH [OF this] show ?thesis by (auto intro: Suc_le_lessD dest: Suc_leD)
  next
    case False
    then have "hs_party_step N who y = y" using phase_step [OF N Cons.prems, of who] by argo
    then show ?thesis using Cons.IH [OF Cons.prems] False by auto
  qed
qed auto

lemma phase_rounds:
  assumes N: "noise_pair N inst k"
  shows "\<forall>ws \<in> set rounds. set ws = {True, False} \<Longrightarrow> phase N inst k j y \<Longrightarrow>
    \<exists>j'. phase N inst k j' (hs_run N (concat rounds) y) \<and> min (j + length rounds) (2 * k) \<le> j'"
proof (induction rounds arbitrary: j y)
  case (Cons ws rounds)
  then have "mover j \<in> set ws" by (cases "mover j") simp_all
  then obtain j1 where j1: "phase N inst k j1 (hs_run N ws y)" "j \<le> j1" "j < 2 * k \<longrightarrow> j < j1"
    using phase_run [OF N Cons.prems(2), of ws] by blast
  from Cons.IH [OF _ this(1)] obtain j' where j': "phase N inst k j' (hs_run N (concat rounds) (hs_run N ws y))"
    "min (j1 + length rounds) (2 * k) \<le> j'" using Cons.prems(1) by auto
  have "min (j + length (ws # rounds)) (2 * k) \<le> j'"
    using j1(2,3) j'(2) by (cases "j < 2 * k") (simp_all add: min_def split: if_splits)
  then show ?case using j'(1) by auto
qed auto

section \<open>The loop of each party\<close>

lemma hs_iter_send:
  assumes "send_live W out" "hs_write N h [] MAX_FRAME = (Ok m, h')" "frame_fits m"
  shows "\<exists>s'. hs_iter N W R h True s r = (Ok (), h', False, s', r) \<and> out s' = out s @ frame_bytes m"
  using write_frame_live [OF assms(1,3), of s] assms(2) by (auto simp: hs_iter_def)

lemma hs_iter_receive:
  assumes "recv_reliable R inp" "hs_read N h m MAX_FRAME = (Ok x, h')" "frame_fits m" "inp r = frame_bytes m @ rest"
  shows "\<exists>r'. hs_iter N W R h False s r = (Ok (), h', True, s, r') \<and> inp r' = rest"
  using read_frame_enc [OF assms(1,3,4)] assms(2) by (auto simp: hs_iter_def)

text \<open>
  The two loops of one handshake: there are messages of the initiator and of the responder such
  that each party, given the other's messages on its stream, writes its own and returns a
  finished state, having read nothing beyond them.
\<close>

definition frames :: "bytes list \<Rightarrow> bytes" where
  "frames ms = concat (map frame_bytes ms)"

lemma frames_simps [simp]:
  "frames [] = []" "frames (m # ms) = frame_bytes m @ frames ms" "frames (ms @ ns) = frames ms @ frames ns"
  by (simp_all add: frames_def)

definition speaks :: "('b, 'h, 't, 'k) noise_api \<Rightarrow> 's send_api \<Rightarrow> 'r recv_api \<Rightarrow> ('s \<Rightarrow> bytes) \<Rightarrow> ('r \<Rightarrow> bytes)
    \<Rightarrow> nat \<Rightarrow> 'h \<Rightarrow> bool \<Rightarrow> bytes list \<Rightarrow> bytes list \<Rightarrow> 'h \<Rightarrow> bool" where
  "speaks N W R out inp k h turn mine theirs h' \<longleftrightarrow>
     (\<forall>fuel s r rest. k < fuel \<longrightarrow> inp r = frames theirs @ rest \<longrightarrow>
        (\<exists>s' r'. hs_loop fuel N W R h turn s r = Some (Ok h', s', r') \<and>
           out s' = out s @ frames mine \<and> inp r' = rest))"

lemma speaksD:
  "speaks N W R out inp k h turn mine theirs h' \<Longrightarrow> k < fuel \<Longrightarrow> inp r = frames theirs @ rest \<Longrightarrow>
   \<exists>s' r'. hs_loop fuel N W R h turn s r = Some (Ok h', s', r') \<and> out s' = out s @ frames mine \<and> inp r' = rest"
  unfolding speaks_def by blast

lemma speaks_send:
  assumes "send_live W out" "hs_write N h [] MAX_FRAME = (Ok m, h')" "frame_fits m" "\<not> hs_finished N h"
    and rest: "speaks N W R out inp j h' False mine theirs h''"
  shows "speaks N W R out inp (Suc j) h True (m # mine) theirs h''"
  unfolding speaks_def
proof (intro allI impI)
  fix fuel s r left
  assume fuel: "Suc j < fuel" and r: "inp r = frames theirs @ left"
  obtain f where f: "fuel = Suc f" "j < f" using fuel by (cases fuel) auto
  obtain s1 where "hs_iter N W R h True s r = (Ok (), h', False, s1, r)" "out s1 = out s @ frame_bytes m"
    using hs_iter_send [OF assms(1-3), where R = R and s = s and r = r] by blast
  with speaksD [OF rest f(2) r, of s1] show "\<exists>s' r'. hs_loop fuel N W R h True s r = Some (Ok h'', s', r') \<and>
      out s' = out s @ frames (m # mine) \<and> inp r' = left"
    using assms(4) f(1) by auto
qed

lemma speaks_receive:
  assumes "recv_reliable R inp" "hs_read N h m MAX_FRAME = (Ok x, h')" "frame_fits m" "\<not> hs_finished N h"
    and rest: "speaks N W R out inp j h' True mine theirs h''"
  shows "speaks N W R out inp (Suc j) h False mine (m # theirs) h''"
  unfolding speaks_def
proof (intro allI impI)
  fix fuel s r left
  assume fuel: "Suc j < fuel" and r: "inp r = frames (m # theirs) @ left"
  obtain f where f: "fuel = Suc f" "j < f" using fuel by (cases fuel) auto
  obtain r1 where "hs_iter N W R h False s r = (Ok (), h', True, s, r1)" and r1: "inp r1 = frames theirs @ left"
    using hs_iter_receive [OF assms(1-3), where W = W and s = s and r = r and rest = "frames theirs @ left"] r by auto
  with speaksD [OF rest f(2) r1, of s] show "\<exists>s' r'. hs_loop fuel N W R h False s r = Some (Ok h'', s', r') \<and>
      out s' = out s @ frames mine \<and> inp r' = left"
    using assms(4) f(1) by auto
qed

lemma speaks_finished: "hs_finished N h \<Longrightarrow> speaks N W R out inp j h turn [] [] h"
  unfolding speaks_def by (auto simp: gr0_conv_Suc dest!: less_imp_Suc_add)

lemma dialogue:
  assumes N: "noise_pair N inst k" and W: "send_live W out" and R: "recv_reliable R inp"
  shows "inst n p \<Longrightarrow> \<exists>ms p'. inst k p' \<and>
    (\<forall>who. speaks N W R out inp (k - n) (p who) (who = even n) (ms who) (ms (\<not> who)) (p' who))"
proof (induction "k - n" arbitrary: n p)
  case 0
  then have "n = k" using noise_pairD(1) [OF N 0(2)] by simp
  then have "hs_finished N (p who)" for who using noise_pairD(2) [OF N 0(2)] by simp
  then have "\<forall>who. speaks N W R out inp (k - n) (p who) (who = even n) [] [] (p who)"
    by (blast intro: speaks_finished)
  then show ?case using 0(2) \<open>n = k\<close> by (intro exI [of _ "\<lambda>_. []"] exI [of _ p]) simp
next
  case (Suc j)
  then have n: "n < k" "j = k - Suc n" by simp_all
  obtain m w x v where m: "hs_write N (p (even n)) [] MAX_FRAME = (Ok m, w)" "frame_fits m"
    "hs_read N (p (odd n)) m MAX_FRAME = (Ok x, v)" and nxt: "inst (Suc n) (p(even n := w, odd n := v))"
    using noise_pairD(3) [OF N Suc.prems n(1)] by blast
  have fin: "\<not> hs_finished N (p who)" for who using noise_pairD(2) [OF N Suc.prems] n(1) by simp
  from Suc(1) [OF n(2) nxt] obtain ms p' where p': "inst k p'" and IH:
    "\<And>who. speaks N W R out inp (k - Suc n) ((p(even n := w, odd n := v)) who) (who = even (Suc n)) (ms who) (ms (\<not> who)) (p' who)"
    by blast
  have snd: "speaks N W R out inp (Suc (k - Suc n)) (p (even n)) True (m # ms (even n)) (ms (odd n)) (p' (even n))"
    by (rule speaks_send [OF W m(1,2) fin]) (use IH [of "even n"] in simp)
  have rcv: "speaks N W R out inp (Suc (k - Suc n)) (p (odd n)) False (ms (odd n)) (m # ms (even n)) (p' (odd n))"
    by (rule speaks_receive [OF R m(3,2) fin]) (use IH [of "odd n"] in simp)
  have "speaks N W R out inp (k - n) (p who) (who = even n) ((ms(even n := m # ms (even n))) who)
      ((ms(even n := m # ms (even n))) (\<not> who)) (p' who)" for who
  proof (cases "who = even n")
    case True
    then show ?thesis using snd n(1) by (simp add: Suc_diff_Suc)
  next
    case False
    then have "who = odd n" by blast
    then show ?thesis using rcv n(1) by (simp add: Suc_diff_Suc)
  qed
  then show ?case using p' by blast
qed

section \<open>The first payloads\<close>

lemma write_transport_live:
  assumes "send_live W out" "ts_write T t m (length m + 16) = (Ok c, t')" "frame_fits c"
  shows "\<exists>s'. write_transport T W t s m = (Ok (), t', s') \<and> out s' = out s @ frame_bytes c"
  using write_frame_live [OF assms(1,3), of s] assms(2) by (auto simp: write_transport_def)

lemma read_transport_enc:
  assumes "recv_reliable R inp" "frame_fits c" "inp r = frame_bytes c @ rest" "ts_read T t c (length c) = (Ok m, t')"
  shows "\<exists>r'. read_transport T R t r = (Ok (Some m), t', r') \<and> inp r' = rest"
  using read_frame_enc [OF assms(1-3)] assms(4) by (auto simp: read_transport_def)

text \<open>One message from a state \<open>a\<close> to its peer \<open>b\<close>; the pair matches again afterwards, both ways.\<close>

lemma transport_message:
  assumes "transport_pair T txv rxv peer" "peer (txv a) (rxv b)" "peer (txv b) (rxv a)"
    and "is_ok (fst (ts_write T a m (length m + 16)))" "length m + 16 \<le> 65535"
  obtains c a' b' where "ts_write T a m (length m + 16) = (Ok c, a')" "frame_fits c"
    "ts_read T b c (length c) = (Ok m, b')" "peer (txv a') (rxv b')" "peer (txv b') (rxv a')"
    "txv b' = txv b" "rxv a' = rxv a"
proof -
  obtain c a' where w: "ts_write T a m (length m + 16) = (Ok c, a')"
    using assms(4) by (cases "ts_write T a m (length m + 16)") (auto simp: is_ok_iff)
  then have len: "length c = length m + 16" using assms(1,2) unfolding transport_pair_def by blast
  obtain b' where "ts_read T b c (length c) = (Ok m, b')" "peer (txv a') (rxv b')"
    using assms(1,2) w unfolding transport_pair_def by (meson order_refl)
  moreover from this have "txv b' = txv b" "rxv a' = rxv a"
    using assms(1) w unfolding transport_pair_def by blast+
  ultimately show ?thesis
    using that w assms(3,5) len by (simp add: frame_fits_def MAX_FRAME_def)
qed

text \<open>
  A stream exchange: the responder receives the initiator's payload, the initiator receives
  the reply the responder then writes, and the two transport states match in both directions.
\<close>

lemma stream_exchange:
  assumes N: "noise_pair N inst k" and W: "send_live W out" and R: "recv_reliable R inp"
    and T: "transport_session N T txv rxv peer inst k"
    and hi: "handshake N b64 exI cfgI True ctxI = Ok (p True)" and hr: "handshake N b64 exR cfgR False ctxR = Ok (p False)"
    and p: "inst 0 p" and len: "length payload + 16 \<le> 65535" "length reply + 16 \<le> 65535"
  shows "\<exists>mi mr c tr tr' ti.
    (\<forall>fuel s r rest. k < fuel \<longrightarrow> inp r = frames mi @ rest \<longrightarrow> (\<exists>s' r'.
       receive_stream fuel N T W R b64 exR cfgR s r ctxR = Some (Ok (tr, payload), s', r') \<and>
       out s' = out s @ frames mr \<and> inp r' = rest)) \<and>
    (\<forall>s. \<exists>s'. write_transport T W tr s reply = (Ok (), tr', s') \<and> out s' = out s @ frame_bytes c) \<and>
    (\<forall>fuel s r rest. k < fuel \<longrightarrow> inp r = frames mr @ frame_bytes c @ rest \<longrightarrow> (\<exists>s' r'.
       initiate_stream fuel N T W R b64 exI cfgI s r ctxI payload = Some (Ok (ti, reply), s', r') \<and>
       out s' = out s @ frames mi \<and> inp r' = rest)) \<and>
    peer (txv ti) (rxv tr') \<and> peer (txv tr') (rxv ti)"
proof -
  obtain ms p' where p': "inst k p'"
    and sp: "\<And>who. speaks N W R out inp k (p who) who (ms who) (ms (\<not> who)) (p' who)"
    using dialogue [OF N W R p] by auto
  obtain ti tr where t: "hs_transport N (p' True) = Ok ti" "hs_transport N (p' False) = Ok tr"
    "peer (txv ti) (rxv tr)" "peer (txv tr) (rxv ti)" and pair: "transport_pair T txv rxv peer"
    and ok: "\<And>u m. txv u \<in> {txv ti, txv tr} \<Longrightarrow> length m + 16 \<le> 65535 \<Longrightarrow> is_ok (fst (ts_write T u m (length m + 16)))"
    using T p' unfolding transport_session_def by blast
  obtain c1 ti1 tr1 where m1: "ts_write T ti payload (length payload + 16) = (Ok c1, ti1)" "frame_fits c1"
    "ts_read T tr c1 (length c1) = (Ok payload, tr1)" "peer (txv ti1) (rxv tr1)" "peer (txv tr1) (rxv ti1)" "txv tr1 = txv tr"
    by (rule transport_message [OF pair t(3,4) ok [of ti payload, OF _ len(1)] len(1)]) simp_all
  obtain c2 tr2 ti2 where m2: "ts_write T tr1 reply (length reply + 16) = (Ok c2, tr2)" "frame_fits c2"
    "ts_read T ti1 c2 (length c2) = (Ok reply, ti2)" "peer (txv tr2) (rxv ti2)" "peer (txv ti2) (rxv tr2)"
    by (rule transport_message [OF pair m1(5,4) ok [of tr1 reply, OF _ len(2)] len(2)]) (simp_all add: m1(6))
  have rcv: "\<exists>s' r'. receive_stream fuel N T W R b64 exR cfgR s r ctxR = Some (Ok (tr1, payload), s', r') \<and>
       out s' = out s @ frames (ms False) \<and> inp r' = rest"
    if fl: "k < fuel" and rr: "inp r = frames (ms True @ [c1]) @ rest" for fuel s r rest
  proof -
    obtain s1 r1 where 1: "hs_loop fuel N W R (p False) False s r = Some (Ok (p' False), s1, r1)"
      "out s1 = out s @ frames (ms False)" "inp r1 = frame_bytes c1 @ rest"
      using speaksD [OF sp [of False] fl, of r "frame_bytes c1 @ rest" s] rr by auto
    obtain r2 where "read_transport T R tr r1 = (Ok (Some payload), tr1, r2)" "inp r2 = rest"
      using read_transport_enc [OF R m1(2) 1(3) m1(3)] by blast
    then show ?thesis using 1 t(2) hr by (simp add: receive_stream_def complete_handshake_def)
  qed
  have ini: "\<exists>s' r'. initiate_stream fuel N T W R b64 exI cfgI s r ctxI payload = Some (Ok (ti2, reply), s', r') \<and>
       out s' = out s @ frames (ms True @ [c1]) \<and> inp r' = rest"
    if fl: "k < fuel" and rr: "inp r = frames (ms False) @ frame_bytes c2 @ rest" for fuel s r rest
  proof -
    obtain s1 r1 where 1: "hs_loop fuel N W R (p True) True s r = Some (Ok (p' True), s1, r1)"
      "out s1 = out s @ frames (ms True)" "inp r1 = frame_bytes c2 @ rest"
      using speaksD [OF sp [of True] fl, of r "frame_bytes c2 @ rest" s] rr by auto
    obtain s2 where 2: "write_transport T W ti s1 payload = (Ok (), ti1, s2)" "out s2 = out s1 @ frame_bytes c1"
      using write_transport_live [OF W m1(1,2)] by blast
    obtain r2 where "read_transport T R ti1 r1 = (Ok (Some reply), ti2, r2)" "inp r2 = rest"
      using read_transport_enc [OF R m2(2) 1(3) m2(3)] by blast
    then show ?thesis using 1 2 t(1) hi by (simp add: initiate_stream_def complete_handshake_def)
  qed
  have "\<forall>s. \<exists>s'. write_transport T W tr1 s reply = (Ok (), tr2, s') \<and> out s' = out s @ frame_bytes c2"
    using write_transport_live [OF W m2(1,2)] by blast
  then show ?thesis using rcv ini m2(4,5) by blast
qed

text \<open>
  A datagram exchange: the responder opens the initiator's payload, seals a reply, and the
  initiator opens it. Each side has then used nonce 0 of its sending key and recorded nonce 0
  of the peer's.
\<close>

definition after_exchange :: "'k \<Rightarrow> 'k datagram_crypto" where
  "after_exchange k = \<lparr>dc_state = k, dc_next = 1, dc_replay = record_nonce rw_default 0\<rparr>"

lemma first_seal:
  assumes "stateless_correct A k k'" "length m + 24 \<le> 65535" "dc_next c = 0" "dc_state c = k"
    and "dc_next c' = n" "dc_replay c' = rw_default" "dc_state c' = k'"
  obtains d where "dc_seal A c m = (Ok d, c\<lparr>dc_next := 1\<rparr>)" "frame_fits d"
    "dc_open A c' d = (Ok m, c'\<lparr>dc_replay := record_nonce rw_default 0\<rparr>)"
proof -
  have "length m + 16 \<le> 65535" using assms(2) by simp
  then obtain x where x: "sl_write A k 0 m (length m + 16) = Ok x" "length x = length m + 16"
    "\<And>cap'. length x \<le> cap' \<Longrightarrow> sl_read A k' 0 x cap' = Ok m"
    using assms(1) unfolding stateless_correct_def by (meson order_refl)
  have "dc_seal A c m = (Ok (u64_be 0 @ x), c\<lparr>dc_next := 1\<rparr>)"
    using x(1) assms(3,4) by (simp add: dc_seal_def nonce_limit_eq)
  moreover have "frame_fits (u64_be 0 @ x)" using x(2) assms(2) by (simp add: frame_fits_def MAX_FRAME_def u64_be_def)
  moreover have "dc_open A c' (u64_be 0 @ x) = (Ok m, c'\<lparr>dc_replay := record_nonce rw_default 0\<rparr>)"
  proof -
    have len: "length (u64_be 0) = 8" by (simp add: u64_be_def)
    have n: "of_be (take 8 (u64_be 0 @ x)) = (0 :: u64)"
      using nonce_of_sealed [of 0 x] by (simp add: nonce_of_def)
    have "acceptable rw_default 0" by (simp add: acceptable_def rw_default_def)
    then show ?thesis unfolding dc_open_def Let_def n using x(2,3) assms(6,7) len by (simp add: nonce_limit_eq)
  qed
  ultimately show ?thesis by (rule that)
qed

lemma datagram_exchange:
  assumes N: "noise_pair N inst k" and W: "send_live W out" and R: "recv_reliable R inp"
    and A: "stateless_session N A inst k"
    and hi: "handshake N b64 exI cfgI True ctxI = Ok (p True)" and hr: "handshake N b64 exR cfgR False ctxR = Ok (p False)"
    and p: "inst 0 p" and len: "length payload + 24 \<le> 65535" "length reply + 24 \<le> 65535"
  shows "\<exists>mi mr c cr ki kr.
    (\<forall>fuel s r rest. k < fuel \<longrightarrow> inp r = frames mi @ rest \<longrightarrow> (\<exists>s' r'.
       receive_datagram fuel N A W R b64 exR cfgR s r ctxR = Some (Ok (cr, payload), s', r') \<and>
       out s' = out s @ frames mr \<and> inp r' = rest)) \<and>
    dc_seal A cr reply = (Ok c, after_exchange kr) \<and> frame_fits c \<and>
    (\<forall>fuel s r rest. k < fuel \<longrightarrow> inp r = frames mr @ frame_bytes c @ rest \<longrightarrow> (\<exists>s' r'.
       initiate_datagram fuel N A W R b64 exI cfgI s r ctxI payload = Some (Ok (after_exchange ki, reply), s', r') \<and>
       out s' = out s @ frames mi \<and> inp r' = rest)) \<and>
    stateless_correct A ki kr \<and> stateless_correct A kr ki"
proof -
  obtain ms p' where p': "inst k p'"
    and sp: "\<And>who. speaks N W R out inp k (p who) who (ms who) (ms (\<not> who)) (p' who)"
    using dialogue [OF N W R p] by auto
  obtain ki kr where k: "hs_stateless N (p' True) = Ok ki" "hs_stateless N (p' False) = Ok kr"
    "stateless_correct A ki kr" "stateless_correct A kr ki"
    using A p' unfolding stateless_session_def by blast
  define cr where "cr = (dc_new kr)\<lparr>dc_replay := record_nonce rw_default 0\<rparr>"
  obtain d where d: "dc_seal A (dc_new ki) payload = (Ok d, (dc_new ki)\<lparr>dc_next := 1\<rparr>)" "frame_fits d"
    "dc_open A (dc_new kr) d = (Ok payload, cr)"
    by (rule first_seal [OF k(3) len(1), of "dc_new ki" "dc_new kr"]) (simp_all add: cr_def)
  obtain c where c: "dc_seal A cr reply = (Ok c, after_exchange kr)" "frame_fits c"
    "dc_open A ((dc_new ki)\<lparr>dc_next := 1\<rparr>) c = (Ok reply, after_exchange ki)"
    by (rule first_seal [OF k(4) len(2), of cr "(dc_new ki)\<lparr>dc_next := 1\<rparr>"])
       (simp_all add: cr_def dc_new_def after_exchange_def)
  have rcv: "\<exists>s' r'. receive_datagram fuel N A W R b64 exR cfgR s r ctxR = Some (Ok (cr, payload), s', r') \<and>
       out s' = out s @ frames (ms False) \<and> inp r' = rest"
    if fl: "k < fuel" and rr: "inp r = frames (ms True @ [d]) @ rest" for fuel s r rest
  proof -
    obtain s1 r1 where 1: "hs_loop fuel N W R (p False) False s r = Some (Ok (p' False), s1, r1)"
      "out s1 = out s @ frames (ms False)" "inp r1 = frame_bytes d @ rest"
      using speaksD [OF sp [of False] fl, of r "frame_bytes d @ rest" s] rr by auto
    obtain r2 where "read_frame R r1 = (Ok (Some d), r2)" "inp r2 = rest"
      using read_frame_enc [OF R d(2) 1(3)] by blast
    then show ?thesis using 1 k(2) d(3) hr by (simp add: receive_datagram_def complete_handshake_def)
  qed
  have ini: "\<exists>s' r'. initiate_datagram fuel N A W R b64 exI cfgI s r ctxI payload = Some (Ok (after_exchange ki, reply), s', r') \<and>
       out s' = out s @ frames (ms True @ [d]) \<and> inp r' = rest"
    if fl: "k < fuel" and rr: "inp r = frames (ms False) @ frame_bytes c @ rest" for fuel s r rest
  proof -
    obtain s1 r1 where 1: "hs_loop fuel N W R (p True) True s r = Some (Ok (p' True), s1, r1)"
      "out s1 = out s @ frames (ms True)" "inp r1 = frame_bytes c @ rest"
      using speaksD [OF sp [of True] fl, of r "frame_bytes c @ rest" s] rr by auto
    obtain s2 where 2: "write_frame W s1 d = (Ok (), s2)" "out s2 = out s1 @ frame_bytes d"
      using write_frame_live [OF W d(2)] by blast
    obtain r2 where "read_frame R r1 = (Ok (Some c), r2)" "inp r2 = rest"
      using read_frame_enc [OF R c(2) 1(3)] by blast
    then show ?thesis using 1 2 k(1) d(1) c(3) hi by (simp add: initiate_datagram_def complete_handshake_def)
  qed
  show ?thesis using rcv ini c(1,2) k(3,4) by blast
qed

section \<open>Building\<close>

lemma rbind_is_ok: "is_ok (rbind r f) \<longleftrightarrow> (\<exists>x. r = Ok x \<and> is_ok (f x))"
  by (cases r) simp_all

lemma builder_total_keys:
  assumes "builder_total N pattern" "\<forall>k \<in> set_option v. length k = 32"
  shows "is_ok (case v of Some k \<Rightarrow> nb_local_private_key N b k | None \<Rightarrow> Ok b)"
    and "is_ok (case v of Some k \<Rightarrow> nb_remote_public_key N b k | None \<Rightarrow> Ok b)"
  using assms by (auto simp: builder_total_def split: option.splits)

lemma key_length: "key b64 v = Ok k \<Longrightarrow> length k = 32"
  by (auto simp: key_def ensure_def result_simps split: if_splits)

lemma handshake_prologue:
  assumes "binds_prologue N pb pro agree" "handshake N b64 export cfg initiator ctx = Ok h"
  shows "\<exists>binding. export (ascii ''cathole-noise-v1'') ctx = Some binding \<and> pro h = prologue_for binding ctx"
proof -
  obtain binding b0 b1 local remote b2 b3 where
    "export (ascii ''cathole-noise-v1'') ctx = Some binding" and b1: "nb_prologue N b0 (prologue_for binding ctx) = Ok b1"
    and b2: "(case local of Some k \<Rightarrow> nb_local_private_key N b1 k | None \<Rightarrow> Ok b1) = Ok b2"
    and b3: "(case remote of Some k \<Rightarrow> nb_remote_public_key N b2 k | None \<Rightarrow> Ok b2) = Ok b3"
    and h: "(if initiator then nb_build_initiator N b3 else nb_build_responder N b3) = Ok h"
    using assms(2) unfolding handshake_def Let_def rbind_eq_Ok ok_or_eq_Ok by blast
  moreover have "pb b2 = pb b1" using assms(1) b2 unfolding binds_prologue_def by (cases local) auto
  moreover have "pb b3 = pb b2" using assms(1) b3 unfolding binds_prologue_def by (cases remote) auto
  moreover have "pro h = pb b3" using assms(1) h unfolding binds_prologue_def by (cases initiator) auto
  moreover have "pb b1 = prologue_for binding ctx" using assms(1) b1 unfolding binds_prologue_def by blast
  ultimately show ?thesis by auto
qed

lemma hs_loop_prologue:
  assumes B: "binds_prologue N pb pro agree"
  shows "hs_loop fuel N W R h turn s r = Some (Ok h', s', r') \<Longrightarrow> pro h' = pro h \<and> hs_finished N h'"
proof (induction fuel arbitrary: h turn s r)
  case (Suc fuel)
  show ?case
  proof (cases "hs_finished N h")
    case False
    then obtain u h1 t1 s1 r1 where it: "hs_iter N W R h turn s r = (Ok u, h1, t1, s1, r1)"
      "hs_loop fuel N W R h1 t1 s1 r1 = Some (Ok h', s', r')"
      using Suc.prems by (auto split: prod.splits result.splits)
    have "pro h1 = pro h"
      using it(1) B unfolding hs_iter_def binds_prologue_def
      by (auto split: if_splits prod.splits result.splits option.splits)
    then show ?thesis using Suc.IH [OF it(2)] by simp
  qed (use Suc.prems in simp)
qed simp

lemma prologue_inject:
  "length b = 32 \<Longrightarrow> length b' = 32 \<Longrightarrow> prologue_for b c = prologue_for b' c' \<longleftrightarrow> b = b' \<and> c = c'"
  by (simp add: prologue_for_def)

text \<open>The two key arguments of the builder.\<close>

lemma local_key_is_ok:
  assumes "builder_total N pattern"
    and L_def: "L = (if v \<noteq> None then rbind (key b64 v) (\<lambda>k. Ok (Some k))
      else if xx then rbind (nb_new N pattern) (\<lambda>g. rbind (nb_generate_keypair N g) (\<lambda>generated. Ok (Some (fst generated))))
      else Ok None)"
  shows "is_ok L \<longleftrightarrow> v = None \<or> valid_key b64 v" and "L = Ok l \<Longrightarrow> \<forall>k \<in> set_option l. length k = 32"
proof -
  obtain g where g: "nb_new N pattern = Ok g" using assms(1) by (auto simp: builder_total_def is_ok_iff)
  obtain priv pub where "nb_generate_keypair N g = Ok (priv, pub)" "length priv = 32"
    using assms(1) unfolding builder_total_def by blast
  then have gen: "(if xx then rbind (nb_new N pattern) (\<lambda>g. rbind (nb_generate_keypair N g) (\<lambda>generated. Ok (Some (fst generated))))
      else Ok None) = Ok (if xx then Some priv else None)" "length priv = 32" using g by simp_all
  show "is_ok L \<longleftrightarrow> v = None \<or> valid_key b64 v"
    unfolding L_def gen(1) key_is_ok [symmetric] by (auto simp: is_ok_iff rbind_eq_Ok)
  show "L = Ok l \<Longrightarrow> \<forall>k \<in> set_option l. length k = 32"
    unfolding L_def gen(1) using gen(2) by (auto simp: rbind_eq_Ok dest: key_length split: if_splits)
qed

lemma remote_key_is_ok:
  assumes L_def: "L = (if v \<noteq> None then rbind (key b64 v) (\<lambda>k. Ok (Some k)) else Ok None)"
  shows "is_ok L \<longleftrightarrow> v = None \<or> valid_key b64 v" and "L = Ok l \<Longrightarrow> \<forall>k \<in> set_option l. length k = 32"
  unfolding L_def key_is_ok [symmetric] by (auto simp: is_ok_iff rbind_eq_Ok dest: key_length split: if_splits)

lemma rbind2_is_ok:
  "(\<And>l m. L = Ok l \<Longrightarrow> M = Ok m \<Longrightarrow> is_ok (f l m)) \<Longrightarrow> is_ok (rbind L (\<lambda>l. rbind M (f l))) \<longleftrightarrow> is_ok L \<and> is_ok M"
  by (cases L; cases M) simp_all

lemma handshake_is_ok:
  assumes B: "builder_total N (noise_pattern cfg)" and "export (ascii ''cathole-noise-v1'') ctx = Some binding"
  shows "is_ok (handshake N b64 export cfg initiator ctx) \<longleftrightarrow>
    (noise_local_private_key cfg = None \<or> valid_key b64 (noise_local_private_key cfg)) \<and>
    (noise_remote_public_key cfg = None \<or> valid_key b64 (noise_remote_public_key cfg))"
proof -
  obtain b0 where b0: "nb_new N (noise_pattern cfg) = Ok b0" using B by (auto simp: builder_total_def is_ok_iff)
  obtain b1 where b1: "nb_prologue N b0 (prologue_for binding ctx) = Ok b1"
    using B unfolding builder_total_def is_ok_iff by blast
  have build: "is_ok (if initiator then nb_build_initiator N b else nb_build_responder N b)" for b
    using B by (simp add: builder_total_def)
  note L = local_key_is_ok [OF B refl, of "noise_local_private_key cfg" b64
      "unwrap_or (nth_opt (split_on CHR ''_'' (noise_pattern cfg)) 1) '''' = ''XX''", unfolded b0 rbind.simps]
  note M = remote_key_is_ok [OF refl, of "noise_remote_public_key cfg" b64]
  have tail: "is_ok (rbind (case l of Some k \<Rightarrow> nb_local_private_key N b1 k | None \<Rightarrow> Ok b1) (\<lambda>b2.
      rbind (case m of Some k \<Rightarrow> nb_remote_public_key N b2 k | None \<Rightarrow> Ok b2) (\<lambda>b3.
      if initiator then nb_build_initiator N b3 else nb_build_responder N b3)))"
    if l: "\<forall>k \<in> set_option l. length k = 32" and m: "\<forall>k \<in> set_option m. length k = 32" for l m
  proof -
    obtain b2 where "(case l of Some k \<Rightarrow> nb_local_private_key N b1 k | None \<Rightarrow> Ok b1) = Ok b2"
      using builder_total_keys(1) [OF B l] unfolding is_ok_iff by blast
    moreover obtain b3 where "(case m of Some k \<Rightarrow> nb_remote_public_key N b2 k | None \<Rightarrow> Ok b2) = Ok b3"
      using builder_total_keys(2) [OF B m] unfolding is_ok_iff by blast
    ultimately show ?thesis using build by simp
  qed
  show ?thesis
    unfolding handshake_def assms(2) ok_or.simps rbind.simps b0 b1 Let_def
    by (subst rbind2_is_ok) (rule tail, erule L(2), erule M(2), simp only: L(1) M(1))
qed

section \<open>Concrete handshakes\<close>

definition sample_export :: "bytes \<Rightarrow> bytes \<Rightarrow> bytes option" where
  "sample_export label ctx = Some (replicate 32 1)"

lemma sample_handshake:
  "tr_noise (sd_transport s) = tr_noise (sd_transport (sample_side server)) \<Longrightarrow>
   handshake sample_noise sample_b64 sample_export (tr_noise (sd_transport s)) initiator ctx =
    Ok (initiator, 0, prologue_for (replicate 32 1) ctx)"
  by (cases server)
     (simp_all add: handshake_def sample_export_def sample_side_def noise_default_def PATTERN_def nth_opt_def
       key_def sample_b64_def ensure_def)

section \<open>Properties\<close>

text \<open>
  C11: Handshakes never deadlock. Two parties that follow \<open>complete_handshake\<close> take turns under any
  schedule that runs each of them once per round; after two rounds per Noise message both have
  finished, without an error and with nothing left unread on the stream.
\<close>

theorem handshake_never_deadlocks:
  assumes "noise_pair N inst k" "inst 0 p" "\<forall>ws \<in> set rounds. set ws = {True, False}" "2 * k \<le> length rounds"
    and "y = hs_run N (concat rounds) (hs_start p)"
  shows "hs_finished N (sy_hs y True) \<and> hs_finished N (sy_hs y False) \<and> inst k (sy_hs y) \<and>
    sy_error y = None \<and> sy_wire y = (\<lambda>_. [])"
proof -
  have "phase N inst k 0 (hs_start p)"
    using assms(2) by (simp add: phase_def in_sync_def hs_start_def)
  from phase_rounds [OF assms(1,3) this] obtain j where j: "phase N inst k j y" "2 * k \<le> j"
    using assms(4,5) by auto
  then have "j = 2 * k" using phase_bound [OF assms(1)] by force
  then have y: "in_sync inst k y" using j(1) by (simp add: phase_def)
  then have "inst k (sy_hs y)" by (auto simp: in_sync_def)
  then show ?thesis using y noise_pairD(2) [OF assms(1)] by (auto simp: in_sync_def)
qed

theorem handshake_never_deadlocks_witness:
  "hs_finished sample_noise (sy_hs (hs_run sample_noise (concat (replicate 4 [False, True]))
     (hs_start (\<lambda>who. (who, 0, [7])))) True)"
proof -
  have "sample_inst 0 (\<lambda>who. (who, 0, [7]))"
    unfolding sample_inst_def by (intro conjI exI [of _ "[7]"]) (simp_all add: MAX_FRAME_def)
  from handshake_never_deadlocks [OF sample_noise_pair this _ _ refl, of "replicate 4 [False, True]"]
  show ?thesis by (simp add: insert_commute)
qed



text \<open>
  C10: Handshakes are bound to the connection and to their context. If an initiator and a
  responder complete their handshakes and share session keys, both ran them under the same
  context and got the same exporter value from TLS, so no relay between two QUIC connections,
  and no stream taken for another, goes unnoticed.
\<close>

theorem handshake_binds_channel:
  assumes "binds_prologue N pb pro agree"
    and "complete_handshake f N W R b64 exI cfgI s r ctxI True = Some (Ok hi, s', r')"
    and "complete_handshake g N W' R' b64' exR cfgR u v ctxR False = Some (Ok hr, u', v')"
    and "agree hi hr" "\<And>l c b. exI l c = Some b \<or> exR l c = Some b \<Longrightarrow> length b = 32"
  shows "ctxI = ctxR \<and> (\<exists>binding. exI (ascii ''cathole-noise-v1'') ctxI = Some binding \<and>
    exR (ascii ''cathole-noise-v1'') ctxR = Some binding)"
proof -
  obtain h where h: "handshake N b64 exI cfgI True ctxI = Ok h" "hs_loop f N W R h True s r = Some (Ok hi, s', r')"
    using assms(2) by (auto simp: complete_handshake_def split: result.splits)
  obtain k where k: "handshake N b64' exR cfgR False ctxR = Ok k" "hs_loop g N W' R' k False u v = Some (Ok hr, u', v')"
    using assms(3) by (auto simp: complete_handshake_def split: result.splits)
  have "pro hi = pro h \<and> hs_finished N hi" "pro hr = pro k \<and> hs_finished N hr"
    by (rule hs_loop_prologue [OF assms(1) h(2)], rule hs_loop_prologue [OF assms(1) k(2)])
  moreover have "pro hi = pro hr"
    using assms(1,4) calculation unfolding binds_prologue_def by blast
  ultimately have eq: "pro h = pro k" by simp
  obtain b c where "exI (ascii ''cathole-noise-v1'') ctxI = Some b" "pro h = prologue_for b ctxI"
    and "exR (ascii ''cathole-noise-v1'') ctxR = Some c" "pro k = prologue_for c ctxR"
    using handshake_prologue [OF assms(1) h(1)] handshake_prologue [OF assms(1) k(1)] by blast
  moreover from this have "length b = 32" "length c = 32" using assms(5) by blast+
  ultimately show ?thesis using eq by (simp add: prologue_inject)
qed

theorem handshake_binds_channel_witness:
  "\<exists>hi. fst (the (complete_handshake 4 sample_noise list_send list_recv sample_b64 (\<lambda>_ _. Some (replicate 32 1)) noise_default []
     (frame_bytes (prologue_for (replicate 32 1) [9])) [9] True)) = Ok hi \<and> snd (snd hi) = prologue_for (replicate 32 1) [9]"
proof -
  let ?ex = "\<lambda>(_::bytes) (_::bytes). Some (replicate 32 (1::byte))" and ?p = "prologue_for (replicate 32 1) [9]"
  have p: "length ?p \<le> 65535" "frame_fits ?p" by (simp_all add: prologue_for_def ascii_def frame_fits_def MAX_FRAME_def)
  have hs: "handshake sample_noise sample_b64 ?ex noise_default i [9] = Ok (i, 0, ?p)" for i
    by (simp add: handshake_def sample_noise_def noise_default_def PATTERN_def nth_opt_def)
  have rd: "read_frame list_recv (frame_bytes ?p) = (Ok (Some ?p), [])"
    using read_frame_enc [OF list_recv_reliable p(2), of "frame_bytes ?p" "[]"] by simp
  have wr: "write_frame list_send [] ?p = (Ok (), frame_bytes ?p)"
    using p by (simp add: write_frame_def list_send_def frame_bytes_def MAX_FRAME_def)
  have four: "(4::nat) = Suc (Suc (Suc (Suc 0)))" by simp
  have i: "complete_handshake 4 sample_noise list_send list_recv sample_b64 ?ex noise_default [] (frame_bytes ?p) [9] True =
      Some (Ok (True, 2, ?p), frame_bytes ?p, [])"
    unfolding complete_handshake_def hs using p(1) rd wr
    by (simp add: four hs_iter_def MAX_FRAME_def)
  have r: "complete_handshake 4 sample_noise list_send list_recv sample_b64 ?ex noise_default [] (frame_bytes ?p) [9] False =
      Some (Ok (False, 2, ?p), frame_bytes ?p, [])"
    unfolding complete_handshake_def hs using p(1) rd wr
    by (simp add: four hs_iter_def MAX_FRAME_def)
  from handshake_binds_channel [OF sample_binds i r] have "[9::byte] = [9]" by simp
  with i show ?thesis by simp
qed

text \<open>
  When a handshake can be built. With an exporter that works and a builder that accepts
  32-byte keys, \<open>handshake\<close> succeeds exactly when every key that is configured, whether the
  pattern needs it or not, decodes to 32 bytes.
\<close>

lemma handshake_builds_iff:
  assumes "builder_total N (noise_pattern cfg)" "export (ascii ''cathole-noise-v1'') ctx = Some binding"
  shows "is_ok (handshake N b64 export cfg initiator ctx) \<longleftrightarrow>
    (noise_local_private_key cfg = None \<or> valid_key b64 (noise_local_private_key cfg)) \<and>
    (noise_remote_public_key cfg = None \<or> valid_key b64 (noise_remote_public_key cfg))"
  by (rule handshake_is_ok, rule assms(1), rule assms(2))

text \<open>
  C39: A configuration that passes validation and can never connect. An NK server with a valid
  private key is accepted whatever its unused \<open>remote_public_key\<close> holds, yet with a malformed
  one every handshake of that server fails.
\<close>

theorem unused_key_breaks_handshake:
  assumes "valid_key b64 (noise_local_private_key n)" "\<not> valid_key b64 (Some bad)"
    and "cfg = n\<lparr>noise_pattern := PATTERN, noise_remote_public_key := Some bad\<rparr>"
  shows "validate_noise b64 cfg True pinned = Ok () \<and> \<not> is_ok (handshake N b64 export cfg initiator ctx)"
proof -
  have "validate_noise b64 cfg True pinned = Ok ()"
    using assms(1) by (simp add: assms(3) validate_noise_ok valid_noise_def PATTERN_def noise_name_def)
  moreover have "\<not> is_ok (key b64 (Some bad))" using assms(2) by (auto simp: is_ok_iff key_is_ok)
  then have "\<not> is_ok (handshake N b64 export cfg initiator ctx)"
    by (auto simp: assms(3) handshake_def is_ok_iff rbind_eq_Ok Let_def)
  ultimately show ?thesis by blast
qed

theorem unused_key_breaks_handshake_witness:
  "\<exists>cfg. validate_noise (\<lambda>text. if text = ''k'' then Some (replicate 32 0) else None) cfg True False = Ok () \<and>
     \<not> is_ok (handshake sample_noise (\<lambda>text. if text = ''k'' then Some (replicate 32 0) else None)
         (\<lambda>_ _. Some (replicate 32 1)) cfg False [9])"
  by (rule exI, rule unused_key_breaks_handshake [where n = "noise_default\<lparr>noise_local_private_key := Some ''k''\<rparr>"
        and bad = "''x''", OF _ _ refl])
     (simp_all add: valid_key_def)

end
