(* ===== verification/Bridge.thy ===== *)
theory Bridge
  imports Frames "HOL-Library.Sublist"
begin

text \<open>
  The TCP data path, \<open>bridge\<close> of \<open>src/crypto.rs\<close>. Two loops share one Noise state behind a
  mutex: \<open>tx\<close> seals what it reads from the TCP socket into frames, \<open>rx\<close> opens frames and
  writes to the socket; \<open>try_join!\<close> ends both at the first error. One iteration of a loop is
  a function; a run is any interleaving of iterations, so the theorems hold for every
  schedule. The TCP socket's reads are the inputs of a run; its write half is a stream like
  Quinn's, a parameter.
\<close>

section \<open>The bridge\<close>

record ('t, 's, 'r, 'w) bridge =
  br_noise :: 't
  br_send :: 's
  br_recv :: 'r
  br_writer :: 'w
  br_tx :: bool
  br_rx :: bool
  br_error :: "error option"

text \<open>
  One iteration of \<open>tx\<close> after \<open>reader.read\<close> returned, and one of \<open>rx\<close>. \<open>Ok False\<close> is another
  round of the loop, \<open>Ok True\<close> the end of the future. \<open>V\<close> is the TCP write half, whose
  \<open>shutdown\<close> is the stream's \<open>finish\<close>.
\<close>

definition tx_iter :: "'t transport_api \<Rightarrow> 's send_api \<Rightarrow> 't \<Rightarrow> 's \<Rightarrow> bytes result
    \<Rightarrow> bool result \<times> 't \<times> 's" where
  "tx_iter T W t s outcome =
     (case outcome of
        Err e \<Rightarrow> (Err e, t, s)
      | Ok plain \<Rightarrow>
          if plain = [] then
            (case snd_finish W s of (Err e, s') \<Rightarrow> (Err e, t, s') | (Ok _, s') \<Rightarrow> (Ok True, t, s'))
          else
            (case ts_write T t plain 16400 of
               (Err e, t') \<Rightarrow> (Err e, t', s)
             | (Ok cipher, t') \<Rightarrow>
                 (case write_frame W s cipher of
                    (Err e, s') \<Rightarrow> (Err e, t', s')
                  | (Ok _, s') \<Rightarrow> (Ok False, t', s'))))"

definition rx_iter :: "'t transport_api \<Rightarrow> 'r recv_api \<Rightarrow> 'w send_api \<Rightarrow> 't \<Rightarrow> 'r \<Rightarrow> 'w
    \<Rightarrow> bool result \<times> 't \<times> 'r \<times> 'w" where
  "rx_iter T R V t r w =
     (case read_frame R r of
        (Err e, r') \<Rightarrow> (Err e, t, r', w)
      | (Ok None, r') \<Rightarrow>
          (case snd_finish V w of (Err e, w') \<Rightarrow> (Err e, t, r', w') | (Ok _, w') \<Rightarrow> (Ok True, t, r', w'))
      | (Ok (Some cipher), r') \<Rightarrow>
          (case ts_read T t cipher (length cipher) of
             (Err e, t') \<Rightarrow> (Err e, t', r', w)
           | (Ok plain, t') \<Rightarrow>
               (case snd_write_all V w plain of
                  (Err e, w') \<Rightarrow> (Err e, t', r', w')
                | (Ok _, w') \<Rightarrow> (Ok False, t', r', w'))))"

datatype bridge_event = TxRead "bytes result" | RxFrame

text \<open>
  \<open>try_join!\<close>: a future that has returned is not polled again, and after an error neither is.
\<close>

fun bridge_step :: "'t transport_api \<Rightarrow> 's send_api \<Rightarrow> 'r recv_api \<Rightarrow> 'w send_api \<Rightarrow> bridge_event
    \<Rightarrow> ('t, 's, 'r, 'w) bridge \<Rightarrow> ('t, 's, 'r, 'w) bridge" where
  "bridge_step T W R V (TxRead outcome) b =
     (if br_error b \<noteq> None \<or> br_tx b then b
      else case tx_iter T W (br_noise b) (br_send b) outcome of
        (Ok fin, t, s) \<Rightarrow> b\<lparr>br_noise := t, br_send := s, br_tx := fin\<rparr>
      | (Err e, t, s) \<Rightarrow> b\<lparr>br_noise := t, br_send := s, br_error := Some e\<rparr>)"
| "bridge_step T W R V RxFrame b =
     (if br_error b \<noteq> None \<or> br_rx b then b
      else case rx_iter T R V (br_noise b) (br_recv b) (br_writer b) of
        (Ok fin, t, r, w) \<Rightarrow> b\<lparr>br_noise := t, br_recv := r, br_writer := w, br_rx := fin\<rparr>
      | (Err e, t, r, w) \<Rightarrow> b\<lparr>br_noise := t, br_recv := r, br_writer := w, br_error := Some e\<rparr>)"

definition bridge_new :: "'t \<Rightarrow> 's \<Rightarrow> 'r \<Rightarrow> 'w \<Rightarrow> ('t, 's, 'r, 'w) bridge" where
  "bridge_new t s r w = \<lparr>br_noise = t, br_send = s, br_recv = r, br_writer = w,
     br_tx = False, br_rx = False, br_error = None\<rparr>"

definition bridge_run :: "'t transport_api \<Rightarrow> 's send_api \<Rightarrow> 'r recv_api \<Rightarrow> 'w send_api \<Rightarrow> bridge_event list
    \<Rightarrow> ('t, 's, 'r, 'w) bridge \<Rightarrow> ('t, 's, 'r, 'w) bridge" where
  "bridge_run T W R V evs b = fold (bridge_step T W R V) evs b"

text \<open>The result of \<open>bridge\<close>, once it has one.\<close>

definition bridge_result :: "('t, 's, 'r, 'w) bridge \<Rightarrow> unit result option" where
  "bridge_result b = (case br_error b of Some e \<Rightarrow> Some (Err e)
     | None \<Rightarrow> if br_tx b \<and> br_rx b then Some (Ok ()) else None)"

text \<open>The chunks a run reads from its TCP socket, up to the end of file.\<close>

fun tcp_chunks :: "bridge_event list \<Rightarrow> bytes list" where
  "tcp_chunks [] = []"
| "tcp_chunks (TxRead (Ok p) # evs) = (if p = [] then [] else p # tcp_chunks evs)"
| "tcp_chunks (TxRead (Err e) # evs) = []"
| "tcp_chunks (RxFrame # evs) = tcp_chunks evs"

definition rx_rounds :: "bridge_event list \<Rightarrow> nat" where
  "rx_rounds evs = length (filter (\<lambda>ev. ev = RxFrame) evs)"

text \<open>
  Messages \<open>ps\<close> sealed as \<open>cs\<close>, one after the other, by a sender whose sending state goes
  from \<open>v\<close> to \<open>v'\<close>, whatever its receiving state does meanwhile.
\<close>

inductive sealed :: "'t transport_api \<Rightarrow> ('t \<Rightarrow> 'v) \<Rightarrow> 'v \<Rightarrow> bytes list \<Rightarrow> bytes list \<Rightarrow> 'v \<Rightarrow> bool"
  for T :: "'t transport_api" and txv :: "'t \<Rightarrow> 'v" where
  sealed_Nil: "sealed T txv v [] [] v"
| sealed_Cons: "ts_write T a p cap = (Ok c, a') \<Longrightarrow> sealed T txv (txv a') ps cs v' \<Longrightarrow>
    sealed T txv (txv a) (p # ps) (c # cs) v'"

inductive_cases sealed_ConsE: "sealed T txv v (p # ps) cs v'"
inductive_cases sealed_NilE: "sealed T txv v [] cs v'"

text \<open>
  A Noise transport for concrete instances: a message counter per direction, and the counter
  written twice as the tag.
\<close>

definition sample_transport :: "(u64 \<times> u64) transport_api" where
  "sample_transport = \<lparr>
     ts_write = (\<lambda>(n, m) p cap. if length p + 16 \<le> cap
        then (Ok (p @ u64_be n @ u64_be n), n + 1, m) else (Err (External ''input''), n, m)),
     ts_read = (\<lambda>(n, m) c cap. if 16 \<le> length c \<and> drop (length c - 16) c = u64_be m @ u64_be m
        then (Ok (take (length c - 16) c), n, m + 1) else (Err (External ''decrypt''), n, m))\<rparr>"

section \<open>The sending loop\<close>

lemma sample_transport_pair: "transport_pair sample_transport fst snd (=)"
  unfolding transport_pair_def sample_transport_def by (auto split: if_splits)

lemma tx_iter_more:
  assumes "send_ordered W out" "tx_iter T W t s (Ok p) = (Ok False, t', s')"
  shows "\<exists>c. p \<noteq> [] \<and> ts_write T t p 16400 = (Ok c, t') \<and> frame_fits c \<and> out s' = out s @ frame_bytes c"
  using assms(2) write_frame_Ok [OF assms(1)]
  by (auto simp: tx_iter_def split: if_splits prod.splits result.splits)

lemma tx_iter_done:
  assumes "send_ordered W out" "tx_iter T W t s outcome = (Ok True, t', s')"
  shows "outcome = Ok [] \<and> t' = t \<and> out s' = out s"
  using assms unfolding send_ordered_def
  by (auto simp: tx_iter_def split: if_splits prod.splits result.splits)

lemma rx_iter_txv:
  "transport_pair T txv rxv peer \<Longrightarrow> rx_iter T R V t r w = (x, t', r', w') \<Longrightarrow> txv t' = txv t"
  unfolding transport_pair_def rx_iter_def by (auto split: prod.splits result.splits option.splits)

lemma tx_iter_rxv:
  "transport_pair T txv rxv peer \<Longrightarrow> tx_iter T W t s x = (y, t', s') \<Longrightarrow> rxv t' = rxv t"
  unfolding transport_pair_def tx_iter_def
  by (auto split: prod.splits result.splits option.splits if_splits)

lemma bridge_run_simps [simp]:
  "bridge_run T W R V [] b = b"
  "bridge_run T W R V (ev # evs) b = bridge_run T W R V evs (bridge_step T W R V ev b)"
  by (simp_all add: bridge_run_def)

lemma bridge_step_error [simp]: "br_error b = Some e \<Longrightarrow> bridge_step T W R V ev b = b"
  by (cases ev) simp_all

lemma bridge_run_error [simp]: "br_error b = Some e \<Longrightarrow> bridge_run T W R V evs b = b"
  by (induction evs) simp_all

lemma bridge_run_ok: "br_error (bridge_run T W R V evs b) = None \<Longrightarrow> br_error b = None"
  using bridge_run_error [of b _ T W R V evs] by (cases "br_error b") auto

lemma bridge_step_ok: "br_error (bridge_step T W R V ev b) = None \<Longrightarrow> br_error b = None"
  using bridge_step_error [of b _ T W R V ev] by (cases "br_error b") auto

lemma bridge_run_tx_done:
  "br_tx b \<Longrightarrow> br_send (bridge_run T W R V evs b) = br_send b"
proof (induction evs arbitrary: b)
  case (Cons ev evs)
  have "br_tx (bridge_step T W R V ev b) \<and> br_send (bridge_step T W R V ev b) = br_send b"
    using Cons.prems by (cases ev) (auto split: prod.splits result.splits)
  then show ?case using Cons.IH by simp
qed simp

text \<open>What a run that has not failed has put on its QUIC stream.\<close>

lemma bridge_sends:
  assumes T: "transport_pair T txv rxv peer" and W: "send_ordered W out"
  shows "br_error (bridge_run T W R V evs b) = None \<Longrightarrow> \<not> br_tx b \<Longrightarrow>
    \<exists>cs v'. sealed T txv (txv (br_noise b)) (tcp_chunks evs) cs v' \<and> (\<forall>c \<in> set cs. frame_fits c) \<and>
      out (br_send (bridge_run T W R V evs b)) = out (br_send b) @ concat (map frame_bytes cs)"
proof (induction evs arbitrary: b rule: tcp_chunks.induct)
  case 1
  show ?case by (intro exI [of _ "[]"]) (auto intro: sealed_Nil)
next
  case (2 p evs)
  have ok: "br_error b = None" using 2(2) by (rule bridge_run_ok)
  let ?b = "bridge_step T W R V (TxRead (Ok p)) b"
  obtain fin t s where it: "tx_iter T W (br_noise b) (br_send b) (Ok p) = (Ok fin, t, s)"
    and b: "?b = b\<lparr>br_noise := t, br_send := s, br_tx := fin\<rparr>"
    using 2(2,3) ok by (auto split: prod.splits result.splits)
  show ?case
  proof (cases "p = []")
    case True
    then have fin: fin using it by (auto simp: tx_iter_def split: prod.splits result.splits)
    then have "out s = out (br_send b)"
      using tx_iter_done [OF W, of T "br_noise b" "br_send b" "Ok p" t s] it by simp
    then show ?thesis using True b fin bridge_run_tx_done [of ?b]
      by (auto intro!: exI [of _ "[]"] sealed_Nil simp del: bridge_step.simps)
  next
    case False
    then have fin: "\<not> fin" using tx_iter_done [OF W] it by fastforce
    then obtain c where c: "ts_write T (br_noise b) p 16400 = (Ok c, t)" "frame_fits c"
      "out s = out (br_send b) @ frame_bytes c"
      using tx_iter_more [OF W] it by fastforce
    have run: "br_error (bridge_run T W R V evs ?b) = None" using 2(2) by (simp del: bridge_step.simps)
    have "\<not> br_tx ?b" "br_noise ?b = t" "br_send ?b = s" unfolding b using fin by simp_all
    then obtain cs v' where "sealed T txv (txv t) (tcp_chunks evs) cs v'" "\<forall>c \<in> set cs. frame_fits c"
      "out (br_send (bridge_run T W R V evs ?b)) = out s @ concat (map frame_bytes cs)"
      using 2(1) [OF False run] by metis
    with c False show ?thesis
      by (intro exI [of _ "c # cs"] exI [of _ v']) (auto intro: sealed_Cons simp del: bridge_step.simps)
  qed
next
  case (3 e evs)
  have ok: "br_error b = None" using 3(1) by (rule bridge_run_ok)
  then show ?case using 3 by (simp add: tx_iter_def)
next
  case (4 evs)
  have ok: "br_error b = None" using 4(2) by (rule bridge_run_ok)
  let ?b = "bridge_step T W R V RxFrame b"
  have "txv (br_noise ?b) = txv (br_noise b) \<and> br_send ?b = br_send b \<and> \<not> br_tx ?b"
    using ok 4(3) rx_iter_txv [OF T] by (auto split: prod.splits result.splits)
  then show ?case using 4(1) [of ?b] 4(2) by (simp del: bridge_step.simps)
qed

section \<open>The receiving loop\<close>

lemma rx_iter_end:
  assumes "recv_reliable R inp" "send_ordered V wout" "inp r = []" "rx_iter T R V t r w = (Ok fin, t', r', w')"
  shows "fin \<and> wout w' = wout w"
proof -
  obtain r1 where "read_frame R r = (Ok None, r1)" using read_frame_end [OF assms(1,3)] by auto
  then show ?thesis
    using assms(2,4) unfolding send_ordered_def
    by (auto simp: rx_iter_def split: prod.splits result.splits)
qed

lemma rx_iter_more:
  assumes T: "transport_pair T txv rxv peer" and R: "recv_reliable R inp" and V: "send_ordered V wout"
    and r: "inp r = frame_bytes c @ rest" "frame_fits c"
    and w: "ts_write T a p cap = (Ok c, a')" and pr: "peer (txv a) (rxv t)"
    and it: "rx_iter T R V t r w = (Ok fin, t', r', w')"
  shows "\<not> fin \<and> inp r' = rest \<and> wout w' = wout w @ p \<and> peer (txv a') (rxv t')"
proof -
  obtain r1 where r1: "read_frame R r = (Ok (Some c), r1)" "inp r1 = rest"
    using read_frame_enc [OF R r(2,1)] by auto
  obtain t1 where t1: "ts_read T t c (length c) = (Ok p, t1)" "peer (txv a') (rxv t1)"
    using T w pr unfolding transport_pair_def by blast
  show ?thesis
    using it r1 t1 V unfolding send_ordered_def
    by (auto simp: rx_iter_def split: prod.splits result.splits)
qed

lemma bridge_run_rx_done:
  "br_rx b \<Longrightarrow> br_rx (bridge_run T W R V evs b) \<and> br_writer (bridge_run T W R V evs b) = br_writer b"
proof (induction evs arbitrary: b)
  case (Cons ev evs)
  have "br_rx (bridge_step T W R V ev b) \<and> br_writer (bridge_step T W R V ev b) = br_writer b"
    using Cons.prems by (cases ev) (auto split: prod.splits result.splits)
  then show ?case using Cons.IH by simp
qed simp

lemma rx_rounds_simps [simp]:
  "rx_rounds [] = 0" "rx_rounds (RxFrame # evs) = Suc (rx_rounds evs)"
  "rx_rounds (TxRead x # evs) = rx_rounds evs"
  by (simp_all add: rx_rounds_def)

lemma bridge_step_rx:
  assumes "br_error b = None" "\<not> br_rx b" "br_error (bridge_step T W R V RxFrame b) = None"
  obtains fin t r w where "rx_iter T R V (br_noise b) (br_recv b) (br_writer b) = (Ok fin, t, r, w)"
    "bridge_step T W R V RxFrame b = b\<lparr>br_noise := t, br_recv := r, br_writer := w, br_rx := fin\<rparr>"
  using assms by (auto split: prod.splits result.splits)

text \<open>What a run that has not failed has written to its TCP socket.\<close>

lemma bridge_receives:
  assumes T: "transport_pair T txv rxv peer" and R: "recv_reliable R inp" and V: "send_ordered V wout"
  shows "br_error (bridge_run T W R V evs b) = None \<Longrightarrow> \<not> br_rx b \<Longrightarrow>
    inp (br_recv b) = concat (map frame_bytes cs) \<Longrightarrow> \<forall>c \<in> set cs. frame_fits c \<Longrightarrow>
    sealed T txv v ps cs v' \<Longrightarrow> peer v (rxv (br_noise b)) \<Longrightarrow>
    \<exists>ps1 ps2. ps = ps1 @ ps2 \<and>
      wout (br_writer (bridge_run T W R V evs b)) = wout (br_writer b) @ concat ps1 \<and>
      (br_rx (bridge_run T W R V evs b) \<longrightarrow> ps2 = []) \<and>
      (length ps < rx_rounds evs \<longrightarrow> br_rx (bridge_run T W R V evs b))"
proof (induction evs arbitrary: b cs ps v)
  case Nil
  then show ?case by (intro exI [of _ "[]"] exI [of _ ps]) simp
next
  case (Cons ev evs)
  let ?b = "bridge_step T W R V ev b"
  have ok: "br_error b = None" "br_error ?b = None"
    using bridge_run_ok [OF Cons.prems(1)] bridge_run_ok [of T W R V evs ?b] Cons.prems(1) by simp_all
  show ?case
  proof (cases ev)
    case (TxRead x)
    have "rxv (br_noise ?b) = rxv (br_noise b) \<and> br_recv ?b = br_recv b \<and> br_writer ?b = br_writer b \<and> \<not> br_rx ?b"
      using ok(1) TxRead Cons.prems(2) tx_iter_rxv [OF T] by (auto split: prod.splits result.splits)
    then show ?thesis
      using Cons.IH [of ?b cs v ps] Cons.prems TxRead by (simp del: bridge_step.simps)
  next
    case RxFrame
    obtain fin t r w where it: "rx_iter T R V (br_noise b) (br_recv b) (br_writer b) = (Ok fin, t, r, w)"
      and b: "?b = b\<lparr>br_noise := t, br_recv := r, br_writer := w, br_rx := fin\<rparr>"
      using bridge_step_rx [OF ok(1) Cons.prems(2)] ok(2) RxFrame by metis
    show ?thesis
    proof (cases ps)
      case Nil
      then have "cs = []" using Cons.prems(5) by (auto elim: sealed_NilE)
      then have "fin \<and> wout w = wout (br_writer b)"
        using rx_iter_end [OF R V _ it] Cons.prems(3) by simp
      then show ?thesis using Nil b bridge_run_rx_done [of ?b T W R V evs] by simp
    next
      case (Cons p ps')
      obtain a cap c a' cs' where c: "v = txv a" "ts_write T a p cap = (Ok c, a')" "cs = c # cs'"
        "sealed T txv (txv a') ps' cs' v'"
        using Cons.prems(5) unfolding Cons by (elim sealed_ConsE) blast
      have step: "\<not> fin \<and> inp r = concat (map frame_bytes cs') \<and> wout w = wout (br_writer b) @ p \<and>
          peer (txv a') (rxv t)"
        using Cons.prems(3,4,6) c by (intro rx_iter_more [OF T R V _ _ c(2) _ it]) auto
      then have "\<exists>ps1 ps2. ps' = ps1 @ ps2 \<and>
          wout (br_writer (bridge_run T W R V evs ?b)) = wout w @ concat ps1 \<and>
          (br_rx (bridge_run T W R V evs ?b) \<longrightarrow> ps2 = []) \<and>
          (length ps' < rx_rounds evs \<longrightarrow> br_rx (bridge_run T W R V evs ?b))"
        using Cons.IH [of ?b cs' "txv a'" ps'] Cons.prems(1,4) c b by simp
      then obtain ps1 ps2 where "ps' = ps1 @ ps2"
        "wout (br_writer (bridge_run T W R V evs ?b)) = wout w @ concat ps1"
        "br_rx (bridge_run T W R V evs ?b) \<longrightarrow> ps2 = []"
        "length ps' < rx_rounds evs \<longrightarrow> br_rx (bridge_run T W R V evs ?b)"
        by blast
      then show ?thesis using step Cons RxFrame
        by (intro exI [of _ "p # ps1"] exI [of _ ps2]) (simp del: bridge_step.simps)
    qed
  qed
qed

text \<open>
  One direction of a tunnel: the receiving end starts to read where the sending end's bridge
  started to write.
\<close>

lemma bridge_one_way:
  assumes T: "transport_pair T txv rxv peer" and "send_ordered W out" "recv_reliable R inp" "send_ordered V wout"
    and "peer (txv ta) (rxv tb)" "wout wb = []"
    and "a = bridge_run T W R V evsA (bridge_new ta sa ra wa)" "br_error a = None"
    and "b = bridge_run T W R V evsB (bridge_new tb sb rb wb)" "br_error b = None"
    and "out (br_send a) = out sa @ inp rb"
  shows "prefix (wout (br_writer b)) (concat (tcp_chunks evsA)) \<and>
    (br_rx b \<longrightarrow> wout (br_writer b) = concat (tcp_chunks evsA)) \<and>
    (length (tcp_chunks evsA) < rx_rounds evsB \<longrightarrow> br_rx b)"
proof -
  obtain cs v' where "sealed T txv (txv ta) (tcp_chunks evsA) cs v'" "\<forall>c \<in> set cs. frame_fits c"
    "out (br_send a) = out sa @ concat (map frame_bytes cs)"
    using bridge_sends [OF T assms(2), of R V evsA "bridge_new ta sa ra wa"] assms(7,8)
    by (auto simp: bridge_new_def)
  then show ?thesis
    using bridge_receives [OF T assms(3,4), of W evsB "bridge_new tb sb rb wb" cs "txv ta"
        "tcp_chunks evsA" v'] assms(5,6,9,10,11)
    by (auto simp: bridge_new_def)
qed

section \<open>Properties\<close>



end
