(* ===== verification/Proxy.thy ===== *)
theory Proxy
  imports Config
begin

text \<open>
  The parts of \<open>src/proxy.rs\<close> that both ends share: the time limits, the registration message,
  socket addresses and their resolution, and the context that binds a TCP stream's handshake to
  its service and stream. The resolver of the operating system is a parameter.
\<close>

section \<open>Data\<close>

definition SETUP :: duration where "SETUP = from_secs 10"
definition SESSION_LIFETIME :: duration where "SESSION_LIFETIME = from_secs 86400"

record offer =
  of_name :: string
  of_kind :: kind
  of_token :: string

record registration =
  rg_version :: u8
  rg_services :: "offer list"

text \<open>\<open>std::net::SocketAddr\<close>: address and port; for IPv6 also flow information and scope.\<close>

datatype socket_addr =
    V4 (v4_ip: u32) (v4_port: u16)
  | V6 (v6_ip: "128 word") (v6_port: u16) (v6_flowinfo: u32) (v6_scope: u32)

fun is_ipv6 :: "socket_addr \<Rightarrow> bool" where
  "is_ipv6 (V4 ip port) = False"
| "is_ipv6 (V6 ip port fi sc) = True"

fun port_of :: "socket_addr \<Rightarrow> u16" where
  "port_of (V4 ip port) = port"
| "port_of (V6 ip port fi sc) = port"

fun is_unspecified :: "socket_addr \<Rightarrow> bool" where
  "is_unspecified (V4 ip port) = (ip = 0)"
| "is_unspecified (V6 ip port fi sc) = (ip = 0)"

text \<open>\<open>set_ip\<close> with \<open>Ipv4Addr::LOCALHOST\<close> (127.0.0.1) or \<open>Ipv6Addr::LOCALHOST\<close> (::1).\<close>

fun set_localhost :: "socket_addr \<Rightarrow> socket_addr" where
  "set_localhost (V4 ip port) = V4 0x7F000001 port"
| "set_localhost (V6 ip port fi sc) = V6 1 port fi sc"

section \<open>Operations\<close>

text \<open>\<open>lookup addr\<close> is \<open>lookup_host(addr)\<close>: how long it takes and what it yields.\<close>

definition resolve :: "(string \<Rightarrow> duration \<times> socket_addr list result) \<Rightarrow> string \<Rightarrow> bool \<Rightarrow> socket_addr result" where
  "resolve lookup addr prefer_ipv6 =
     (case lookup addr of (took, found) \<Rightarrow>
      rbind (timeout SETUP took found) (\<lambda>addresses.
        ok_or (option_or (find (\<lambda>a. is_ipv6 a = prefer_ipv6) addresses)
                 (case addresses of [] \<Rightarrow> None | a # _ \<Rightarrow> Some a))
          (ProxyError NoEndpoints)))"

definition resolve_local :: "(string \<Rightarrow> duration \<times> socket_addr list result) \<Rightarrow> string \<Rightarrow> bool \<Rightarrow> socket_addr result" where
  "resolve_local lookup addr prefer_ipv6 =
     rbind (resolve lookup addr prefer_ipv6) (\<lambda>target.
       if is_unspecified target then Ok (set_localhost target) else Ok target)"

definition tcp_context :: "u16 \<Rightarrow> u64 \<Rightarrow> bytes" where
  "tcp_context service stream = ascii ''tcp'' @ u16_be service @ u64_be stream"

text \<open>The context of the registration handshake, \<open>b"registration"\<close> at both ends.\<close>

definition registration_context :: bytes where
  "registration_context = ascii ''registration''"

section \<open>Resolution\<close>

lemma find_Some_in: "find P xs = Some x \<Longrightarrow> x \<in> set xs \<and> P x"
  by (auto simp: find_Some_iff)

lemma resolve_Ok:
  assumes "resolve lookup addr v6 = Ok a"
  shows "\<exists>took as. lookup addr = (took, Ok as) \<and> took \<le> SETUP \<and> a \<in> set as \<and>
    ((\<exists>b \<in> set as. is_ipv6 b = v6) \<longrightarrow> is_ipv6 a = v6)"
proof -
  obtain took as where l: "lookup addr = (took, Ok as)" "took \<le> SETUP"
    "option_or (find (\<lambda>a. is_ipv6 a = v6) as) (case as of [] \<Rightarrow> None | a # _ \<Rightarrow> Some a) = Some a"
    using assms by (auto simp: resolve_def result_simps split: prod.splits)
  then show ?thesis
    by (cases "find (\<lambda>a. is_ipv6 a = v6) as")
       (auto simp: find_None_iff dest: find_Some_in split: list.splits)
qed

lemma set_localhost_simps [simp]:
  "is_ipv6 (set_localhost a) = is_ipv6 a" "port_of (set_localhost a) = port_of a"
  "\<not> is_unspecified (set_localhost a)"
  by (cases a; simp)+

section \<open>Properties\<close>

text \<open>
  Local targets. \<open>resolve_local\<close> yields an address that can be connected to, never the
  unspecified one; its port and family are those of an address the resolver returned within the
  setup limit; and the preferred family wins whenever the resolver offers it.
\<close>

lemma resolve_local_target:
  assumes "resolve_local lookup addr v6 = Ok t"
  shows "\<exists>took as a. lookup addr = (took, Ok as) \<and> took \<le> SETUP \<and> a \<in> set as \<and>
    \<not> is_unspecified t \<and> port_of t = port_of a \<and> is_ipv6 t = is_ipv6 a \<and>
    (\<not> is_unspecified a \<longrightarrow> t = a) \<and> ((\<exists>b \<in> set as. is_ipv6 b = v6) \<longrightarrow> is_ipv6 t = v6)"
proof -
  obtain a where a: "resolve lookup addr v6 = Ok a"
    "(if is_unspecified a then Ok (set_localhost a) else Ok a) = Ok t"
    using assms unfolding resolve_local_def rbind_eq_Ok by blast
  then have t: "t = (if is_unspecified a then set_localhost a else a)" by (simp split: if_splits)
  obtain took as where r: "lookup addr = (took, Ok as)" "took \<le> SETUP" "a \<in> set as"
    "(\<exists>b \<in> set as. is_ipv6 b = v6) \<longrightarrow> is_ipv6 a = v6"
    using resolve_Ok [OF a(1)] by blast
  show ?thesis
    by (intro exI [of _ took] exI [of _ as] exI [of _ a]) (use r t in simp)
qed

text \<open>
  Stream binding. The context mixed into a TCP stream's Noise handshake determines the
  service and the QUIC stream, and differs from the context of the registration, so a
  handshake of one cannot be replayed for another.
\<close>

lemma tcp_context_binds:
  "(tcp_context service stream = tcp_context service' stream' \<longleftrightarrow> service = service' \<and> stream = stream') \<and>
   tcp_context service stream \<noteq> registration_context"
proof -
  have "length (tcp_context service stream) \<noteq> length registration_context"
    by (simp add: tcp_context_def registration_context_def ascii_def)
  then have "tcp_context service stream \<noteq> registration_context" by metis
  then show ?thesis by (simp add: tcp_context_def)
qed

end
