(* ===== verification/Tcp_Tunnel.thy ===== *)
theory Tcp_Tunnel
  imports Handshake Bridge Proxy
begin

text \<open>
  One tunnelled TCP connection, \<open>tcp_server\<close> and \<open>tcp_client\<close> of \<open>src/proxy.rs\<close>: the server opens
  a QUIC stream for an accepted connection and names the service in the first frame, the client
  looks the service up, both authenticate the stream with a Noise handshake bound to service and
  stream, the client connects to the local target, and the two ends run the bridge.
\<close>

section \<open>Connecting to the local target\<close>

text \<open>
  The retry loop around \<open>TcpStream::connect\<close> inside the setup limit. Each attempt is the time it
  takes and its outcome; \<open>spent\<close> is the time since the setup began, and past \<open>SETUP\<close> the whole
  block is dropped with \<open>Elapsed\<close>. \<open>None\<close>: the loop waits for the next outcome.
\<close>

fun connect_loop :: "u64 \<Rightarrow> (duration \<times> 'c result) list \<Rightarrow> duration \<Rightarrow> 'c result option" where
  "connect_loop retry [] spent = None"
| "connect_loop retry ((took, outcome) # attempts) spent =
     (if SETUP < spent + took then Some (Err Elapsed)
      else case outcome of
        Ok tcp \<Rightarrow> Some (Ok tcp)
      | Err e \<Rightarrow>
          if 0 < retry then
            (let woken = spent + took + from_secs (unat retry) in
             if SETUP < woken then Some (Err Elapsed) else connect_loop retry attempts woken)
          else Some (Err e))"

section \<open>The two ends\<close>

text \<open>
  \<open>elapsed\<close> is the time the awaits up to the connect loop (or up to an earlier return) take,
  \<open>attempts target\<close> what the operating system answers to connecting there, \<open>stream\<close> the id of
  the QUIC stream. An error drops the streams. \<open>None\<close>: not yet returned.
\<close>

definition tcp_client_setup :: "nat \<Rightarrow> ('b, 'h, 't, 'k) noise_api \<Rightarrow> 't transport_api \<Rightarrow> 's send_api \<Rightarrow> 'r recv_api
    \<Rightarrow> (string \<Rightarrow> bytes option) \<Rightarrow> (bytes \<Rightarrow> bytes \<Rightarrow> bytes option) \<Rightarrow> (string \<Rightarrow> duration \<times> socket_addr list result)
    \<Rightarrow> (socket_addr \<Rightarrow> (duration \<times> 'c result) list) \<Rightarrow> ('c \<Rightarrow> bool \<Rightarrow> unit result)
    \<Rightarrow> side \<Rightarrow> duration \<Rightarrow> u64 \<Rightarrow> 's \<Rightarrow> 'r \<Rightarrow> ('c \<times> 't \<times> 's \<times> 'r) result option" where
  "tcp_client_setup fuel N T W R b64 export lookup attempts set_nodelay cfg elapsed stream s r =
     (if SETUP < elapsed then Some (Err Elapsed) else
      case read_frame R r of
        (Err e, r1) \<Rightarrow> Some (Err e)
      | (Ok None, r1) \<Rightarrow> Some (Err (ProxyError MissingTcpHeader))
      | (Ok (Some header), r1) \<Rightarrow>
          if length header \<noteq> 2 then Some (Err (ProxyError InvalidTcpHeader)) else
          let sid = of_be header :: u16 in
          (case nth_opt (map snd (sd_services cfg)) (unat sid) of
             None \<Rightarrow> Some (Err (ProxyError UnknownService))
           | Some service \<Rightarrow>
               if sv_kind service \<noteq> Tcp then Some (Err (ProxyError WrongServiceType)) else
               (case initiate_stream fuel N T W R b64 export (tr_noise (sd_transport cfg)) s r1 (tcp_context sid stream) [] of
                  None \<Rightarrow> None
                | Some (Err e, s2, r2) \<Rightarrow> Some (Err e)
                | Some (Ok (state, reply), s2, r2) \<Rightarrow>
                    if reply \<noteq> ascii ''ok'' then Some (Err (ProxyError HandshakeRejected)) else
                    (case sv_local_addr service of
                       None \<Rightarrow> Some (Err Panicked)
                     | Some addr \<Rightarrow>
                         (case resolve_local lookup addr (sv_prefer_ipv6 service \<or> sd_prefer_ipv6 cfg) of
                            Err e \<Rightarrow> Some (Err e)
                          | Ok target \<Rightarrow>
                              (case connect_loop (service_retry cfg service) (attempts target) elapsed of
                                 None \<Rightarrow> None
                               | Some (Err e) \<Rightarrow> Some (Err e)
                               | Some (Ok tcp) \<Rightarrow>
                                   (case set_nodelay tcp (nodelay cfg service) of
                                      Err e \<Rightarrow> Some (Err e)
                                    | Ok _ \<Rightarrow> Some (Ok (tcp, state, s2, r2)))))))))"

definition tcp_server_setup :: "nat \<Rightarrow> ('b, 'h, 't, 'k) noise_api \<Rightarrow> 't transport_api \<Rightarrow> 's send_api \<Rightarrow> 'r recv_api
    \<Rightarrow> (string \<Rightarrow> bytes option) \<Rightarrow> (bytes \<Rightarrow> bytes \<Rightarrow> bytes option) \<Rightarrow> side \<Rightarrow> duration
    \<Rightarrow> u16 \<Rightarrow> (u64 \<times> 's \<times> 'r) result \<Rightarrow> ('t \<times> 's \<times> 'r) result option" where
  "tcp_server_setup fuel N T W R b64 export cfg elapsed service opened =
     (if SETUP < elapsed then Some (Err Elapsed) else
      case opened of
        Err e \<Rightarrow> Some (Err e)
      | Ok (stream, s, r) \<Rightarrow>
          (case write_frame W s (u16_be service) of
             (Err e, s1) \<Rightarrow> Some (Err e)
           | (Ok _, s1) \<Rightarrow>
               (case receive_stream fuel N T W R b64 export (tr_noise (sd_transport cfg)) s1 r (tcp_context service stream) of
                  None \<Rightarrow> None
                | Some (Err e, s2, r2) \<Rightarrow> Some (Err e)
                | Some (Ok (state, payload), s2, r2) \<Rightarrow>
                    if payload \<noteq> [] then Some (Err (ProxyError UnexpectedPayload)) else
                    (case write_transport T W state s2 (ascii ''ok'') of
                       (Err e, st, s3) \<Rightarrow> Some (Err e)
                     | (Ok _, st, s3) \<Rightarrow> Some (Ok (st, s3, r2))))))"

text \<open>After the setup both ends hand their streams and the TCP connection to the bridge.\<close>

definition tcp_client_bridge :: "('c \<times> 't \<times> 's \<times> 'r) \<Rightarrow> ('t, 's, 'r, 'c) bridge" where
  "tcp_client_bridge x = (case x of (tcp, state, s, r) \<Rightarrow> bridge_new state s r tcp)"

definition tcp_server_bridge :: "'c \<Rightarrow> ('t \<times> 's \<times> 'r) \<Rightarrow> ('t, 's, 'r, 'c) bridge" where
  "tcp_server_bridge tcp x = (case x of (state, s, r) \<Rightarrow> bridge_new state s r tcp)"

section \<open>The connect loop\<close>

text \<open>With a retry interval of at least a second, ten seconds allow at most eleven attempts.\<close>

lemma connect_loop_returns:
  assumes "0 < retry"
  shows "attempts \<noteq> [] \<Longrightarrow> SETUP < spent + from_secs (length attempts) \<Longrightarrow>
    \<exists>x. connect_loop retry attempts spent = Some x"
proof (induction attempts arbitrary: spent)
  case (Cons a attempts)
  obtain took outcome where a: "a = (took, outcome)" by (cases a)
  have r: "1 \<le> unat retry" using assms by (simp add: unat_gt_0 Suc_le_eq word_neq_0_conv)
  let ?woken = "spent + took + from_secs (unat retry)"
  show ?case
  proof (cases "SETUP < spent + took \<or> is_ok outcome \<or> SETUP < ?woken")
    case True
    then show ?thesis using assms a by (cases outcome) (auto simp: Let_def)
  next
    case False
    then obtain e where e: "outcome = Err e" by (cases outcome) auto
    have "from_secs 1 \<le> from_secs (unat retry)" using r by simp
    then have "SETUP < ?woken + from_secs (length attempts)" using Cons.prems(2) by simp
    moreover from this have "attempts \<noteq> []" using False by auto
    ultimately show ?thesis using Cons.IH [of ?woken] False assms a e by simp
  qed
qed simp

section \<open>The two setups together\<close>

lemma u16_frame: "frame_fits (u16_be sid)"
  by (simp add: frame_fits_def MAX_FRAME_def)

lemma prefix_split: "prefix x l \<Longrightarrow> \<exists>rest. l = x @ rest"
  by (auto simp: prefix_def)

lemma ascii_ok: "length (ascii ''ok'') = 2"
  by (simp add: ascii_def)

text \<open>
  There are bytes \<open>x\<close> (client to server) and \<open>y\<close> (server to client) such that each end, given the
  other's bytes, gets through its setup, writes its own bytes and reads nothing beyond; the Noise
  states of the two ends then match in both directions.
\<close>

lemma tcp_setups:
  assumes N: "noise_pair N inst k" and T: "transport_session N T txv rxv peer inst k"
    and W: "send_live W out" and R: "recv_reliable R inp"
    and hi: "handshake N b64 exC (tr_noise (sd_transport c)) True (tcp_context sid stream) = Ok (p True)"
    and hr: "handshake N b64 exS (tr_noise (sd_transport cfg)) False (tcp_context sid stream) = Ok (p False)"
    and p: "inst 0 p" and fuel: "k < fuel" and e: "e1 \<le> SETUP" "e2 \<le> SETUP"
    and sv: "unat sid < length (sd_services c)" "sv = snd (sd_services c ! unat sid)" "sv_kind sv = Tcp" "sv_local_addr sv = Some addr"
    and target: "resolve_local lookup addr (sv_prefer_ipv6 sv \<or> sd_prefer_ipv6 c) = Ok target"
      "connect_loop (service_retry c sv) (attempts target) e1 = Some (Ok tcp)" "set_nodelay tcp (nodelay c sv) = Ok ()"
  shows "\<exists>x y ti tr. peer (txv ti) (rxv tr) \<and> peer (txv tr) (rxv ti) \<and>
    (\<forall>ss rs rest. inp rs = x @ rest \<longrightarrow> (\<exists>s' r'.
       tcp_server_setup fuel N T W R b64 exS cfg e2 sid (Ok (stream, ss, rs)) = Some (Ok (tr, s', r')) \<and>
       out s' = out ss @ y \<and> inp r' = rest)) \<and>
    (\<forall>sc rc rest. inp rc = y @ rest \<longrightarrow> (\<exists>s' r'.
       tcp_client_setup fuel N T W R b64 exC lookup attempts set_nodelay c e1 stream sc rc = Some (Ok (tcp, ti, s', r')) \<and>
       out s' = out sc @ x \<and> inp r' = rest))"
proof -
  have len: "length [] + 16 \<le> 65535" "length (ascii ''ok'') + 16 \<le> 65535" by (simp_all add: ascii_ok)
  obtain mi mr ack tr tr' ti where
    rcv: "\<forall>fuel s r rest. k < fuel \<longrightarrow> inp r = frames mi @ rest \<longrightarrow> (\<exists>s' r'.
       receive_stream fuel N T W R b64 exS (tr_noise (sd_transport cfg)) s r (tcp_context sid stream) = Some (Ok (tr, []), s', r') \<and>
       out s' = out s @ frames mr \<and> inp r' = rest)"
    and rep: "\<forall>s. \<exists>s'. write_transport T W tr s (ascii ''ok'') = (Ok (), tr', s') \<and> out s' = out s @ frame_bytes ack"
    and ini: "\<forall>fuel s r rest. k < fuel \<longrightarrow> inp r = frames mr @ frame_bytes ack @ rest \<longrightarrow> (\<exists>s' r'.
       initiate_stream fuel N T W R b64 exC (tr_noise (sd_transport c)) s r (tcp_context sid stream) [] = Some (Ok (ti, ascii ''ok''), s', r') \<and>
       out s' = out s @ frames mi \<and> inp r' = rest)"
    and peers: "peer (txv ti) (rxv tr')" "peer (txv tr') (rxv ti)"
    using stream_exchange [OF N W R T hi hr p len] by blast
  let ?y = "frame_bytes (u16_be sid) @ frames mr @ frame_bytes ack"
  have server: "\<exists>s' r'. tcp_server_setup fuel N T W R b64 exS cfg e2 sid (Ok (stream, ss, rs)) = Some (Ok (tr', s', r')) \<and>
       out s' = out ss @ ?y \<and> inp r' = rest" if rs: "inp rs = frames mi @ rest" for ss rs rest
  proof -
    obtain s1 where 1: "write_frame W ss (u16_be sid) = (Ok (), s1)" "out s1 = out ss @ frame_bytes (u16_be sid)"
      using write_frame_live [OF W u16_frame] by blast
    obtain s2 r2 where 2: "receive_stream fuel N T W R b64 exS (tr_noise (sd_transport cfg)) s1 rs (tcp_context sid stream) =
        Some (Ok (tr, []), s2, r2)" "out s2 = out s1 @ frames mr" "inp r2 = rest"
      using rcv fuel rs by blast
    obtain s3 where "write_transport T W tr s2 (ascii ''ok'') = (Ok (), tr', s3)" "out s3 = out s2 @ frame_bytes ack"
      using rep by blast
    then show ?thesis using 1 2 e(2) by (simp add: tcp_server_setup_def)
  qed
  have client: "\<exists>s' r'. tcp_client_setup fuel N T W R b64 exC lookup attempts set_nodelay c e1 stream sc rc =
       Some (Ok (tcp, ti, s', r')) \<and> out s' = out sc @ frames mi \<and> inp r' = rest" if rc: "inp rc = ?y @ rest" for sc rc rest
  proof -
    obtain r1 where 1: "read_frame R rc = (Ok (Some (u16_be sid)), r1)" "inp r1 = frames mr @ frame_bytes ack @ rest"
      using read_frame_enc [OF R u16_frame, of rc] rc by auto
    obtain s2 r2 where "initiate_stream fuel N T W R b64 exC (tr_noise (sd_transport c)) sc r1 (tcp_context sid stream) [] =
        Some (Ok (ti, ascii ''ok''), s2, r2)" "out s2 = out sc @ frames mi" "inp r2 = rest"
      using ini fuel 1(2) by blast
    then show ?thesis using 1 e(1) sv target by (simp add: tcp_client_setup_def nth_opt_def)
  qed
  show ?thesis
    by (rule exI [of _ "frames mi"], rule exI [of _ ?y], rule exI [of _ ti], rule exI [of _ tr'])
       (use peers server client in blast)
qed

section \<open>A concrete instance\<close>

lemma sample_transport_session: "transport_session sample_noise sample_transport fst snd (=) sample_inst 2"
  unfolding transport_session_def
proof (intro conjI allI impI sample_transport_pair)
  fix p
  assume "sample_inst 2 p"
  then have "hs_transport sample_noise (p True) = Ok (0, 0)" "hs_transport sample_noise (p False) = Ok (0, 0)"
    by (auto simp: sample_inst_def sample_noise_def)
  then show "\<exists>ti tr. hs_transport sample_noise (p True) = Ok ti \<and> hs_transport sample_noise (p False) = Ok tr \<and>
      fst ti = snd tr \<and> fst tr = snd ti \<and> (\<forall>t m. fst t \<in> {fst ti, fst tr} \<longrightarrow> length m + 16 \<le> 65535 \<longrightarrow>
        is_ok (fst (ts_write sample_transport t m (length m + 16))))"
    by (auto simp: sample_transport_def)
qed

definition sample_tcp_client :: side where
  "sample_tcp_client = (sample_side False)\<lparr>sd_services := [(''web'', (sample_service False)\<lparr>sv_kind := Tcp\<rparr>)]\<rparr>"

definition sample_parties :: "bool \<Rightarrow> bool \<times> nat \<times> bytes" where
  "sample_parties who = (who, 0, prologue_for (replicate 32 1) (tcp_context 0 1))"

definition sample_lookup :: "string \<Rightarrow> duration \<times> socket_addr list result" where
  "sample_lookup addr = (0, Ok [V4 0 7001])"

definition sample_attempts :: "socket_addr \<Rightarrow> (duration \<times> bytes result) list" where
  "sample_attempts target = [(0, Err (External ''refused'')), (0, Ok [])]"

lemma sample_tcp:
  "handshake sample_noise sample_b64 sample_export (tr_noise (sd_transport sample_tcp_client)) True (tcp_context 0 1) = Ok (sample_parties True)"
  "handshake sample_noise sample_b64 sample_export (tr_noise (sd_transport (sample_side True))) False (tcp_context 0 1) = Ok (sample_parties False)"
  "sample_inst 0 sample_parties" "2 < (4::nat)" "0 \<le> SETUP" "0 \<le> SETUP"
  "unat (0::u16) < length (sd_services sample_tcp_client)"
  "(sample_service False)\<lparr>sv_kind := Tcp\<rparr> = snd (sd_services sample_tcp_client ! unat (0::u16))"
  "sv_kind ((sample_service False)\<lparr>sv_kind := Tcp\<rparr>) = Tcp"
  "sv_local_addr ((sample_service False)\<lparr>sv_kind := Tcp\<rparr>) = Some '':7001''"
  "resolve_local sample_lookup '':7001'' b = Ok (V4 0x7F000001 7001)"
  "connect_loop (service_retry sample_tcp_client ((sample_service False)\<lparr>sv_kind := Tcp\<rparr>)) (sample_attempts target) 0 = Some (Ok [])"
proof -
  show "handshake sample_noise sample_b64 sample_export (tr_noise (sd_transport sample_tcp_client)) True (tcp_context 0 1) = Ok (sample_parties True)"
    unfolding sample_parties_def by (rule sample_handshake [of _ False]) (simp add: sample_tcp_client_def)
  show "handshake sample_noise sample_b64 sample_export (tr_noise (sd_transport (sample_side True))) False (tcp_context 0 1) = Ok (sample_parties False)"
    unfolding sample_parties_def by (rule sample_handshake [of _ True]) simp
  show "sample_inst 0 sample_parties"
    unfolding sample_inst_def sample_parties_def
    by (intro conjI exI [of _ "prologue_for (replicate 32 1) (tcp_context 0 1)"])
       (simp_all add: prologue_for_def tcp_context_def ascii_def MAX_FRAME_def u64_be_def fun_eq_iff sample_parties_def)
qed (simp_all add: sample_lookup_def sample_attempts_def resolve_local_def resolve_def timeout_def service_retry_def
    sample_service_def sample_tcp_client_def sample_side_def retry_interval_def SETUP_def)

section \<open>Properties\<close>

text \<open>
  C3: A tunnelled TCP connection is transparent from end to end. For a TCP service of the client,
  there are bytes \<open>x\<close> and \<open>y\<close> such that, when the client's setup bytes \<open>x\<close> reach the server and the
  server's setup bytes \<open>y\<close> reach the client, both setups succeed; and when the two bridges then
  run over the same stream, each under any schedule, what either end writes to its TCP socket is
  a prefix of what the other end read from its own, and all of it once its receiving loop ended.
\<close>

theorem tcp_service_end_to_end:
  assumes N: "noise_pair N inst k" and T: "transport_session N T txv rxv peer inst k"
    and W: "send_live W out" and R: "recv_reliable R inp" and V: "send_ordered V wout"
    and "handshake N b64 exC (tr_noise (sd_transport c)) True (tcp_context sid stream) = Ok (p True)"
      "handshake N b64 exS (tr_noise (sd_transport cfg)) False (tcp_context sid stream) = Ok (p False)"
      "inst 0 p" "k < fuel" "e1 \<le> SETUP" "e2 \<le> SETUP"
    and "unat sid < length (sd_services c)" "sv = snd (sd_services c ! unat sid)" "sv_kind sv = Tcp" "sv_local_addr sv = Some addr"
    and "resolve_local lookup addr (sv_prefer_ipv6 sv \<or> sd_prefer_ipv6 c) = Ok target"
      "connect_loop (service_retry c sv) (attempts target) e1 = Some (Ok tcp)" "set_nodelay tcp (nodelay c sv) = Ok ()"
    and tcp: "wout tcp = []" "wout public = []"
  shows "\<exists>x y. \<forall>ss rs sc rc. out ss = [] \<longrightarrow> out sc = [] \<longrightarrow> prefix x (inp rs) \<longrightarrow> prefix y (inp rc) \<longrightarrow>
    (\<exists>u v. tcp_server_setup fuel N T W R b64 exS cfg e2 sid (Ok (stream, ss, rs)) = Some (Ok u) \<and>
       tcp_client_setup fuel N T W R b64 exC lookup attempts set_nodelay c e1 stream sc rc = Some (Ok v) \<and>
       (\<forall>evsA evsB a b. a = bridge_run T W R V evsA (tcp_server_bridge public u) \<longrightarrow> br_error a = None \<longrightarrow>
          b = bridge_run T W R V evsB (tcp_client_bridge v) \<longrightarrow> br_error b = None \<longrightarrow>
          inp rc = out (br_send a) \<longrightarrow> inp rs = out (br_send b) \<longrightarrow>
          prefix (wout (br_writer b)) (concat (tcp_chunks evsA)) \<and> prefix (wout (br_writer a)) (concat (tcp_chunks evsB)) \<and>
          (br_rx b \<longrightarrow> wout (br_writer b) = concat (tcp_chunks evsA)) \<and>
          (br_rx a \<longrightarrow> wout (br_writer a) = concat (tcp_chunks evsB))))"
proof -
  have pair: "transport_pair T txv rxv peer" using T by (simp add: transport_session_def)
  note ord = send_live_ordered [OF W]
  obtain x y ti tr where peers: "peer (txv ti) (rxv tr)" "peer (txv tr) (rxv ti)"
    and server: "\<forall>ss rs rest. inp rs = x @ rest \<longrightarrow> (\<exists>s' r'.
       tcp_server_setup fuel N T W R b64 exS cfg e2 sid (Ok (stream, ss, rs)) = Some (Ok (tr, s', r')) \<and>
       out s' = out ss @ y \<and> inp r' = rest)"
    and client: "\<forall>sc rc rest. inp rc = y @ rest \<longrightarrow> (\<exists>s' r'.
       tcp_client_setup fuel N T W R b64 exC lookup attempts set_nodelay c e1 stream sc rc = Some (Ok (tcp, ti, s', r')) \<and>
       out s' = out sc @ x \<and> inp r' = rest)"
    using tcp_setups [where p = p and attempts = attempts and set_nodelay = set_nodelay and tcp = tcp, OF N T W R assms(6-18)] by blast
  show ?thesis
  proof (rule exI [of _ x], rule exI [of _ y], intro allI impI)
    fix ss rs sc rc
    assume o: "out ss = []" "out sc = []" and i: "prefix x (inp rs)" "prefix y (inp rc)"
    obtain restx resty where rest: "inp rs = x @ restx" "inp rc = y @ resty" using i by (meson prefix_split)
    obtain s1 r1 where s: "tcp_server_setup fuel N T W R b64 exS cfg e2 sid (Ok (stream, ss, rs)) = Some (Ok (tr, s1, r1))"
      "out s1 = y" "inp r1 = restx" using server rest(1) o(1) by fastforce
    obtain s2 r2 where c: "tcp_client_setup fuel N T W R b64 exC lookup attempts set_nodelay c e1 stream sc rc =
        Some (Ok (tcp, ti, s2, r2))" "out s2 = x" "inp r2 = resty" using client rest(2) o(2) by fastforce
    have "prefix (wout (br_writer b)) (concat (tcp_chunks evsA)) \<and> prefix (wout (br_writer a)) (concat (tcp_chunks evsB)) \<and>
        (br_rx b \<longrightarrow> wout (br_writer b) = concat (tcp_chunks evsA)) \<and>
        (br_rx a \<longrightarrow> wout (br_writer a) = concat (tcp_chunks evsB))"
      if a: "a = bridge_run T W R V evsA (tcp_server_bridge public (tr, s1, r1))" "br_error a = None"
        and b: "b = bridge_run T W R V evsB (tcp_client_bridge (tcp, ti, s2, r2))" "br_error b = None"
        and wires: "inp rc = out (br_send a)" "inp rs = out (br_send b)" for evsA evsB a b
    proof -
      have a': "a = bridge_run T W R V evsA (bridge_new tr s1 r1 public)" using a(1) by (simp add: tcp_server_bridge_def)
      have b': "b = bridge_run T W R V evsB (bridge_new ti s2 r2 tcp)" using b(1) by (simp add: tcp_client_bridge_def)
      have "out (br_send a) = out s1 @ inp r2" "out (br_send b) = out s2 @ inp r1" using wires rest s c by simp_all
      then show ?thesis
        using bridge_one_way [OF pair ord R V peers(2) tcp(1) a' a(2) b' b(2)]
          bridge_one_way [OF pair ord R V peers(1) tcp(2) b' b(2) a' a(2)] by blast
    qed
    then show "\<exists>u v. tcp_server_setup fuel N T W R b64 exS cfg e2 sid (Ok (stream, ss, rs)) = Some (Ok u) \<and>
       tcp_client_setup fuel N T W R b64 exC lookup attempts set_nodelay c e1 stream sc rc = Some (Ok v) \<and>
       (\<forall>evsA evsB a b. a = bridge_run T W R V evsA (tcp_server_bridge public u) \<longrightarrow> br_error a = None \<longrightarrow>
          b = bridge_run T W R V evsB (tcp_client_bridge v) \<longrightarrow> br_error b = None \<longrightarrow>
          inp rc = out (br_send a) \<longrightarrow> inp rs = out (br_send b) \<longrightarrow>
          prefix (wout (br_writer b)) (concat (tcp_chunks evsA)) \<and> prefix (wout (br_writer a)) (concat (tcp_chunks evsB)) \<and>
          (br_rx b \<longrightarrow> wout (br_writer b) = concat (tcp_chunks evsA)) \<and>
          (br_rx a \<longrightarrow> wout (br_writer a) = concat (tcp_chunks evsB)))"
      by (intro exI [of _ "(tr, s1, r1)"] exI [of _ "(tcp, ti, s2, r2)"] conjI s(1) c(1)) blast
  qed
qed

theorem tcp_service_end_to_end_witness:
  "\<exists>rs rc u v. tcp_server_setup 4 sample_noise sample_transport list_send list_recv sample_b64 sample_export
       (sample_side True) 0 0 (Ok (1, [], rs)) = Some (Ok u) \<and>
     tcp_client_setup 4 sample_noise sample_transport list_send list_recv sample_b64 sample_export
       sample_lookup sample_attempts (\<lambda>_ _. Ok ()) sample_tcp_client 0 1 [] rc = Some (Ok v)"
proof -
  note e2e = tcp_service_end_to_end [where p = sample_parties and out = "\<lambda>s. s" and wout = "\<lambda>s. s" and inp = "\<lambda>s. s" and
      attempts = sample_attempts and set_nodelay = "\<lambda>_ _. Ok ()" and public = "[]", OF sample_noise_pair sample_transport_session
      list_send_live list_recv_reliable list_send_ordered sample_tcp refl refl refl]
  show ?thesis
    apply (rule exE [OF e2e], erule exE)
    subgoal for x y
      apply (drule spec [of _ "[]"], drule spec [of _ x], drule spec [of _ "[]"], drule spec [of _ y])
      apply (drule mp, rule refl, drule mp, rule refl, drule mp, rule prefix_order.order_refl,
          drule mp, rule prefix_order.order_refl)
      apply (elim exE conjE)
      subgoal for u v
        by (rule exI [of _ x], rule exI [of _ y], rule exI [of _ u], rule exI [of _ v], rule conjI, assumption, assumption)
      done
    done
qed

text \<open>
  C31: The connect loop ends. Inside the ten seconds of the setup the loop that retries the local
  connection returns after the first attempt if retrying is off, and after at most eleven
  attempts otherwise, however long each attempt takes.
\<close>

theorem connect_retries_end:
  assumes "attempts \<noteq> []" "0 < retry \<Longrightarrow> 11 \<le> length attempts"
  shows "\<exists>x. connect_loop retry attempts spent = Some x"
proof (cases "0 < retry")
  case True
  then have "SETUP < spent + from_secs (length attempts)" using assms(2) by (simp add: SETUP_def)
  then show ?thesis by (rule connect_loop_returns [OF True assms(1)])
next
  case False
  then show ?thesis using assms(1) by (cases attempts) (auto split: result.splits)
qed

theorem connect_retries_end_witness:
  "\<exists>x. connect_loop 1 (replicate 11 (0, Err (External ''refused'') :: unit result)) 0 = Some x"
  by (rule connect_retries_end) simp_all

text \<open>
  C19: Nothing is forwarded before authentication. A TCP connection the client bridges goes to the
  resolved local address of a TCP service in its own configuration, the one the two-byte header
  names, and only after a Noise handshake in the context of that service and stream whose
  encrypted reply was \<open>ok\<close>.
\<close>

theorem tcp_client_authenticates:
  assumes "tcp_client_setup fuel N T W R b64 export lookup attempts set_nodelay cfg elapsed stream s r = Some (Ok (tcp, state, s', r'))"
  shows "\<exists>sid sv r1 addr target. read_frame R r = (Ok (Some (u16_be sid)), r1) \<and>
    unat sid < length (sd_services cfg) \<and> sv = snd (sd_services cfg ! unat sid) \<and> sv_kind sv = Tcp \<and>
    initiate_stream fuel N T W R b64 export (tr_noise (sd_transport cfg)) s r1 (tcp_context sid stream) [] =
      Some (Ok (state, ascii ''ok''), s', r') \<and>
    sv_local_addr sv = Some addr \<and> resolve_local lookup addr (sv_prefer_ipv6 sv \<or> sd_prefer_ipv6 cfg) = Ok target \<and>
    connect_loop (service_retry cfg sv) (attempts target) elapsed = Some (Ok tcp)"
proof -
  obtain header r1 where h: "read_frame R r = (Ok (Some header), r1)" "length header = 2"
    using assms by (auto simp: tcp_client_setup_def split: if_splits prod.splits result.splits option.splits)
  define sid where "sid = (of_be header :: u16)"
  have "header = u16_be sid" using h(2) by (simp add: sid_def u16_be_of_be)
  moreover obtain sv where sv: "nth_opt (map snd (sd_services cfg)) (unat sid) = Some sv" "sv_kind sv = Tcp"
    using assms h by (auto simp: tcp_client_setup_def Let_def sid_def split: if_splits option.splits)
  moreover have "unat sid < length (sd_services cfg)" "sv = snd (sd_services cfg ! unat sid)"
    using sv(1) by (auto simp: nth_opt_def split: if_splits)
  moreover have "\<exists>addr target. initiate_stream fuel N T W R b64 export (tr_noise (sd_transport cfg)) s r1 (tcp_context sid stream) [] =
      Some (Ok (state, ascii ''ok''), s', r') \<and>
    sv_local_addr sv = Some addr \<and> resolve_local lookup addr (sv_prefer_ipv6 sv \<or> sd_prefer_ipv6 cfg) = Ok target \<and>
    connect_loop (service_retry cfg sv) (attempts target) elapsed = Some (Ok tcp)"
    using assms h sv unfolding sid_def
    by (auto simp: tcp_client_setup_def Let_def split: if_splits option.splits prod.splits result.splits)
  ultimately show ?thesis using h(1) by blast
qed


theorem tcp_client_authenticates_witness:
  "\<exists>rc sid r1 v. tcp_client_setup 4 sample_noise sample_transport list_send list_recv sample_b64 sample_export
       sample_lookup sample_attempts (\<lambda>_ _. Ok ()) sample_tcp_client 0 1 [] rc = Some (Ok v) \<and>
     read_frame list_recv rc = (Ok (Some (u16_be sid)), r1) \<and> unat sid < 1"
proof -
  from tcp_setups [where p = sample_parties and out = "\<lambda>s. s" and inp = "\<lambda>s. s" and attempts = sample_attempts and
      set_nodelay = "\<lambda>_ _. Ok ()", OF sample_noise_pair sample_transport_session list_send_live list_recv_reliable sample_tcp refl]
  obtain y ti where "\<forall>sc rc rest. rc = y @ rest \<longrightarrow> (\<exists>s' r'.
       tcp_client_setup 4 sample_noise sample_transport list_send list_recv sample_b64 sample_export
         sample_lookup sample_attempts (\<lambda>_ _. Ok ()) sample_tcp_client 0 1 sc rc = Some (Ok ([], ti, s', r')))"
    by meson
  then obtain rc s' r' where rc: "tcp_client_setup 4 sample_noise sample_transport list_send list_recv sample_b64 sample_export
         sample_lookup sample_attempts (\<lambda>_ _. Ok ()) sample_tcp_client 0 1 [] rc = Some (Ok ([], ti, s', r'))"
    by blast
  have "length (sd_services sample_tcp_client) = 1" by (simp add: sample_tcp_client_def)
  then show ?thesis using tcp_client_authenticates [OF rc] rc by metis
qed

end
