(* ===== verification/Registration.thy ===== *)
theory Registration
  imports Proxy
begin

text \<open>
  Service registration: the offers the client makes from its configuration
  (\<open>src/proxy/client.rs\<close>, \<open>session\<close>), the server's check of the whole registration before any
  public port is opened, and the binding of the ports (\<open>src/proxy/server.rs\<close>, \<open>session\<close>),
  and the numbering of services that both ends derive from it. Constant-time comparison
  (\<open>subtle\<close>) and the operating system's \<open>bind\<close> are parameters.
\<close>

section \<open>The client's offers and destinations\<close>

definition client_registration :: "side \<Rightarrow> registration" where
  "client_registration cfg = \<lparr>rg_version = 1,
     rg_services = map (\<lambda>(name, s). \<lparr>of_name = name, of_kind = sv_kind s, of_token = token cfg s\<rparr>)
       (sd_services cfg)\<rparr>"

text \<open>
  The table of UDP destinations, keyed by the service's position among the configured services
  (cast to 16 bits).
\<close>

fun destinations_from :: "(string \<Rightarrow> duration \<times> socket_addr list result) \<Rightarrow> side \<Rightarrow> nat
    \<Rightarrow> (string \<times> service) list \<Rightarrow> (u16, socket_addr) fmap \<Rightarrow> (u16, socket_addr) fmap result" where
  "destinations_from lookup cfg n [] m = Ok m"
| "destinations_from lookup cfg n ((name, s) # rest) m =
     (if sv_kind s = Udp then
        rbind (ok_or (sv_local_addr s) Panicked) (\<lambda>addr.
        rbind (resolve_local lookup addr (sv_prefer_ipv6 s \<or> sd_prefer_ipv6 cfg)) (\<lambda>target.
        destinations_from lookup cfg (Suc n) rest (fmupd (word_of_nat n) target m)))
      else destinations_from lookup cfg (Suc n) rest m)"

definition client_destinations :: "(string \<Rightarrow> duration \<times> socket_addr list result) \<Rightarrow> side
    \<Rightarrow> (u16, socket_addr) fmap result" where
  "client_destinations lookup cfg = destinations_from lookup cfg 0 (sd_services cfg) fmempty"

section \<open>The server's check\<close>

text \<open>The loop over the offers, with the names seen and the definitions collected so far.\<close>

fun check_offers :: "(string \<Rightarrow> string \<Rightarrow> bool) \<Rightarrow> side \<Rightarrow> string set \<Rightarrow> (string \<times> service) list
    \<Rightarrow> offer list \<Rightarrow> (string \<times> service) list result" where
  "check_offers ct_eq cfg names definitions [] = Ok definitions"
| "check_offers ct_eq cfg names definitions (offer # offers) =
     ensure (of_name offer \<notin> names) (ProxyError DuplicateService) (
     rbind (ok_or (map_of (sd_services cfg) (of_name offer)) (ProxyError AuthenticationFailed)) (\<lambda>s.
     ensure (of_kind offer = sv_kind s \<and> ct_eq (token cfg s) (of_token offer))
       (ProxyError AuthenticationFailed) (
     check_offers ct_eq cfg (insert (of_name offer) names) (definitions @ [(of_name offer, s)]) offers)))"

definition accept_registration :: "(string \<Rightarrow> string \<Rightarrow> bool) \<Rightarrow> side \<Rightarrow> registration
    \<Rightarrow> (string \<times> service) list result" where
  "accept_registration ct_eq cfg reg =
     ensure (rg_version reg = 1 \<and> rg_services reg \<noteq> [] \<and> length (rg_services reg) \<le> 256)
       (ProxyError InvalidRegistration)
     (check_offers ct_eq cfg {} [] (rg_services reg))"

text \<open>
  Opening the public ports, in order, after the check; \<open>bind os kind addr\<close> is the operating
  system's. The first failure drops what was bound.
\<close>

datatype 'l bound = BoundTcp 'l | BoundUdp 'l

fun bind_all :: "('os \<Rightarrow> kind \<Rightarrow> string \<Rightarrow> 'l result \<times> 'os) \<Rightarrow> 'os \<Rightarrow> (string \<times> service) list
    \<Rightarrow> (string \<times> service \<times> 'l bound) list result \<times> 'os" where
  "bind_all bind os [] = (Ok [], os)"
| "bind_all bind os ((name, s) # rest) =
     (case sv_bind_addr s of
        None \<Rightarrow> (Err Panicked, os)
      | Some addr \<Rightarrow>
          (case bind os (sv_kind s) addr of
             (Err e, os') \<Rightarrow> (Err e, os')
           | (Ok l, os') \<Rightarrow>
               (case bind_all bind os' rest of
                  (Err e, os'') \<Rightarrow> (Err e, os'')
                | (Ok bs, os'') \<Rightarrow>
                    (Ok ((name, s, case sv_kind s of Tcp \<Rightarrow> BoundTcp l | Udp \<Rightarrow> BoundUdp l) # bs), os''))))"

definition register_services :: "(string \<Rightarrow> string \<Rightarrow> bool) \<Rightarrow> ('os \<Rightarrow> kind \<Rightarrow> string \<Rightarrow> 'l result \<times> 'os) \<Rightarrow> side
    \<Rightarrow> 'os \<Rightarrow> registration \<Rightarrow> (string \<times> service \<times> 'l bound) list result \<times> 'os" where
  "register_services ct_eq bind cfg os reg =
     (case accept_registration ct_eq cfg reg of
        Err e \<Rightarrow> (Err e, os)
      | Ok definitions \<Rightarrow> bind_all bind os definitions)"

text \<open>An offer the server's configuration honours.\<close>

definition honoured :: "side \<Rightarrow> offer \<Rightarrow> bool" where
  "honoured cfg offer \<longleftrightarrow> (\<exists>s. map_of (sd_services cfg) (of_name offer) = Some s \<and>
     of_kind offer = sv_kind s \<and> of_token offer = token cfg s)"

definition definition_of :: "side \<Rightarrow> offer \<Rightarrow> string \<times> service" where
  "definition_of cfg offer = (of_name offer, the (map_of (sd_services cfg) (of_name offer)))"

text \<open>The address a UDP service of the client forwards to.\<close>

definition udp_target :: "(string \<Rightarrow> duration \<times> socket_addr list result) \<Rightarrow> side \<Rightarrow> service \<Rightarrow> socket_addr option" where
  "udp_target lookup cfg s = (case sv_local_addr s of None \<Rightarrow> None
     | Some addr \<Rightarrow> (case resolve_local lookup addr (sv_prefer_ipv6 s \<or> sd_prefer_ipv6 cfg) of
         Ok t \<Rightarrow> Some t | Err _ \<Rightarrow> None))"

text \<open>A binder for concrete instances: it logs the addresses it opened.\<close>

definition log_bind :: "string list \<Rightarrow> kind \<Rightarrow> string \<Rightarrow> string result \<times> string list" where
  "log_bind os k addr = (Ok addr, os @ [addr])"

section \<open>The check decides\<close>

lemma check_offers_Ok:
  assumes ct: "\<And>a b. ct_eq a b \<longleftrightarrow> a = b"
  shows "check_offers ct_eq cfg names defs offers = Ok out \<longleftrightarrow>
    distinct (map of_name offers) \<and> names \<inter> of_name ` set offers = {} \<and>
    (\<forall>offer \<in> set offers. honoured cfg offer) \<and> out = defs @ map (definition_of cfg) offers"
proof (induction offers arbitrary: names defs)
  case Nil
  then show ?case by auto
next
  case (Cons offer offers)
  have "check_offers ct_eq cfg names defs (offer # offers) = Ok out \<longleftrightarrow>
      of_name offer \<notin> names \<and> honoured cfg offer \<and>
      check_offers ct_eq cfg (insert (of_name offer) names) (defs @ [definition_of cfg offer]) offers = Ok out"
    by (auto simp: result_simps ct honoured_def definition_of_def)
  then show ?case unfolding Cons.IH by auto
qed

lemma check_offers_Panicked: "check_offers ct_eq cfg names defs offers \<noteq> Err Panicked"
  by (induction offers arbitrary: names defs) (auto simp: result_simps)

lemma accept_registration_Ok:
  assumes "\<And>a b. ct_eq a b \<longleftrightarrow> a = b"
  shows "accept_registration ct_eq cfg reg = Ok out \<longleftrightarrow>
    rg_version reg = 1 \<and> length (rg_services reg) \<in> {1..256} \<and> distinct (map of_name (rg_services reg)) \<and>
    (\<forall>offer \<in> set (rg_services reg). honoured cfg offer) \<and>
    out = map (definition_of cfg) (rg_services reg)"
  unfolding accept_registration_def ensure_eq_Ok check_offers_Ok [OF assms] length_range by auto

lemma bind_all_Ok:
  "bind_all bind os defs = (Ok bs, os') \<Longrightarrow> map (\<lambda>(n, s, l). (n, s)) bs = defs"
  by (induction defs arbitrary: os bs os')
     (auto split: option.splits prod.splits result.splits)

lemma bind_all_listeners:
  "bind_all bind os defs = (Ok bs, os') \<Longrightarrow> (name, s, l) \<in> set bs \<Longrightarrow>
   \<exists>x. l = (case sv_kind s of Tcp \<Rightarrow> BoundTcp x | Udp \<Rightarrow> BoundUdp x)"
  by (induction defs arbitrary: os bs os')
     (auto split: option.splits prod.splits result.splits, blast)

lemma bind_all_Panicked:
  assumes "\<And>os k a os'. bind os k a \<noteq> (Err Panicked, os')"
  shows "\<forall>(n, s) \<in> set defs. sv_bind_addr s \<noteq> None \<Longrightarrow> fst (bind_all bind os defs) \<noteq> Err Panicked"
  by (induction defs arbitrary: os)
     (auto simp: assms split: option.splits prod.splits result.splits, metis fst_conv)

section \<open>Destinations\<close>

lemma unat_u16_small: "n < 65536 \<Longrightarrow> unat (word_of_nat n :: u16) = n"
  by (simp add: unat_of_nat)

lemma destinations_from_Ok:
  "destinations_from lookup cfg n es m = Ok m' \<Longrightarrow> n + length es \<le> 65536 \<Longrightarrow>
   fmlookup m' i =
     (if n \<le> unat i \<and> unat i < n + length es \<and> sv_kind (snd (es ! (unat i - n))) = Udp
      then udp_target lookup cfg (snd (es ! (unat i - n))) else fmlookup m i) \<and>
   (n \<le> unat i \<longrightarrow> unat i < n + length es \<longrightarrow> sv_kind (snd (es ! (unat i - n))) = Udp \<longrightarrow>
      udp_target lookup cfg (snd (es ! (unat i - n))) \<noteq> None)"
proof (induction es arbitrary: n m)
  case Nil
  then show ?case by auto
next
  case (Cons e es)
  obtain name s where e: "e = (name, s)" by fastforce
  have len: "Suc n + length es \<le> 65536" "unat (word_of_nat n :: u16) = n"
    using Cons.prems(2) by (simp_all add: unat_u16_small)
  then have eq: "i = word_of_nat n \<longleftrightarrow> unat i = n" by (metis word_unat_eqI)
  have later: "(e # es) ! (unat i - n) = es ! (unat i - Suc n)" if "Suc n \<le> unat i"
    using that by (simp add: nth_Cons' Suc_diff_le [symmetric])
  show ?case
  proof (cases "sv_kind s = Udp")
    case True
    then obtain addr t where t: "sv_local_addr s = Some addr"
      "resolve_local lookup addr (sv_prefer_ipv6 s \<or> sd_prefer_ipv6 cfg) = Ok t"
      "destinations_from lookup cfg (Suc n) es (fmupd (word_of_nat n) t m) = Ok m'"
      using Cons.prems(1) e by (auto simp: result_simps)
    then have target: "udp_target lookup cfg s = Some t" by (simp add: udp_target_def)
    note IH = Cons.IH [OF t(3) len(1)]
    show ?thesis
    proof (cases "unat i = n")
      case True
      then show ?thesis using IH target e eq \<open>sv_kind s = Udp\<close> by simp
    next
      case False
      then show ?thesis using IH later eq by (auto simp: not_less_eq_eq le_Suc_eq)
    qed
  next
    case False
    then have "destinations_from lookup cfg (Suc n) es m = Ok m'" using Cons.prems(1) e by simp
    note IH = Cons.IH [OF this len(1)]
    show ?thesis
    proof (cases "unat i = n")
      case True
      then show ?thesis using IH e False by simp
    next
      case i: False
      then show ?thesis using IH later by (auto simp: not_less_eq_eq le_Suc_eq)
    qed
  qed
qed

lemma destinations_from_Panicked:
  assumes "\<And>a. snd (lookup a) \<noteq> Err Panicked"
  shows "\<forall>(n, s) \<in> set es. sv_local_addr s \<noteq> None \<Longrightarrow> destinations_from lookup cfg n es m \<noteq> Err Panicked"
proof (induction es arbitrary: n m)
  case (Cons e es)
  have "resolve_local lookup a v \<noteq> Err Panicked" for a v
    using assms [of a] by (auto simp: resolve_local_def resolve_def timeout_def result_simps split: prod.splits if_splits)
  then show ?case using Cons by (cases e) (auto simp: result_simps)
qed simp

section \<open>A client's own registration\<close>

lemma btree_distinct: "btree m \<Longrightarrow> distinct (map fst m)"
  by (simp add: btree_def strict_sorted_iff)

lemma client_names [simp]: "map of_name (rg_services (client_registration c)) = map fst (sd_services c)"
  by (simp add: client_registration_def case_prod_beta comp_def)

lemma client_registration_accepted:
  assumes ct: "\<And>a b. ct_eq a b \<longleftrightarrow> a = b" and client: "valid_side b64 c False" "btree (sd_services c)"
  shows "accept_registration ct_eq cfg (client_registration c) = Ok out \<longleftrightarrow>
    (\<forall>(name, sv) \<in> set (sd_services c). \<exists>sv'. map_of (sd_services cfg) name = Some sv' \<and>
       sv_kind sv = sv_kind sv' \<and> token c sv = token cfg sv') \<and>
    out = map (\<lambda>(name, sv). (name, the (map_of (sd_services cfg) name))) (sd_services c)"
proof -
  have len: "length (rg_services (client_registration c)) \<in> {1..256}"
    using client(1) by (simp add: valid_side_def client_registration_def)
  have "(\<forall>offer \<in> set (rg_services (client_registration c)). honoured cfg offer) \<longleftrightarrow>
      (\<forall>(name, sv) \<in> set (sd_services c). \<exists>sv'. map_of (sd_services cfg) name = Some sv' \<and>
         sv_kind sv = sv_kind sv' \<and> token c sv = token cfg sv')"
    by (auto simp: client_registration_def honoured_def)
  moreover have "map (definition_of cfg) (rg_services (client_registration c)) =
      map (\<lambda>(name, sv). (name, the (map_of (sd_services cfg) name))) (sd_services c)"
    by (simp add: client_registration_def definition_of_def case_prod_beta)
  moreover have "rg_version (client_registration c) = 1" by (simp add: client_registration_def)
  ultimately show ?thesis
    unfolding accept_registration_Ok [OF ct] client_names using len btree_distinct [OF client(2)] by simp
qed

lemma log_bind_Panicked: "log_bind os k a \<noteq> (Err Panicked, os')"
  by (simp add: log_bind_def)

lemma sample_services: "sd_services (sample_side server) = [(''game'', sample_service server)]"
  by (simp add: sample_side_def)

lemma sample_registers:
  "register_services (=) log_bind (sample_side True) [] (client_registration (sample_side False)) =
     (Ok [(''game'', sample_service True, BoundUdp '':7000'')], ['':7000''])"
  by (simp add: register_services_def accept_registration_def client_registration_def sample_services
      token_def) (simp add: sample_service_def log_bind_def)

lemma sample_destinations:
  "client_destinations (\<lambda>_. (0, Ok [V4 0 7001])) (sample_side False) = Ok (fmupd 0 (V4 0x7F000001 7001) fmempty)"
  by (simp add: client_destinations_def sample_services)
     (simp add: sample_service_def resolve_local_def resolve_def timeout_def sample_side_def)

section \<open>Properties\<close>

text \<open>
  C7: Registration decides exactly. The server accepts a registration if and only if its version
  is 1, it offers 1 to 256 services with different names, and every single offer names a
  configured service with that service's kind and token; it then keeps its own definitions of
  them, in the order of the offers.
\<close>

theorem registration_decides:
  assumes "\<And>a b. ct_eq a b \<longleftrightarrow> a = b"
  shows "accept_registration ct_eq cfg reg = Ok out \<longleftrightarrow>
    rg_version reg = 1 \<and> length (rg_services reg) \<in> {1..256} \<and> distinct (map of_name (rg_services reg)) \<and>
    (\<forall>offer \<in> set (rg_services reg). honoured cfg offer) \<and>
    out = map (definition_of cfg) (rg_services reg)"
  by (rule accept_registration_Ok [OF assms])

theorem registration_decides_witness:
  "\<exists>out. accept_registration (=) (sample_side True) (client_registration (sample_side False)) = Ok out"
  using registration_decides [of "(=)" "sample_side True" "client_registration (sample_side False)"]
  by (simp add: client_registration_def sample_services honoured_def token_def)
     (simp add: sample_service_def)

text \<open>
  C34: No port before the whole check. If registering has any effect on the operating system (a
  socket was opened), then every offer of the registration was honoured, not only those up to the
  service that was opened.
\<close>

theorem no_port_before_full_check:
  assumes "\<And>a b. ct_eq a b \<longleftrightarrow> a = b"
    and "register_services ct_eq bind cfg os reg = (x, os')" "os' \<noteq> os"
  shows "(\<forall>offer \<in> set (rg_services reg). honoured cfg offer) \<and> distinct (map of_name (rg_services reg))"
proof -
  obtain defs where "accept_registration ct_eq cfg reg = Ok defs"
    using assms(2,3) by (auto simp: register_services_def split: result.splits)
  then show ?thesis using accept_registration_Ok [OF assms(1)] by blast
qed

theorem no_port_before_full_check_witness:
  "snd (register_services (=) log_bind (sample_side True) [] (client_registration (sample_side False))) = ['':7000''] \<and>
   honoured (sample_side True) \<lparr>of_name = ''game'', of_kind = Udp, of_token = token (sample_side False) (sample_service False)\<rparr>"
proof -
  from no_port_before_full_check [OF _ sample_registers]
  have "\<forall>offer \<in> set (rg_services (client_registration (sample_side False))). honoured (sample_side True) offer"
    by simp
  then show ?thesis
    using sample_registers by (simp add: client_registration_def sample_services) (simp add: sample_service_def)
qed

text \<open>
  C16: Both ends number the services alike. When a valid client's registration goes through, the
  server runs one listener per service of the client; listener \<open>i\<close> belongs to the client's
  \<open>i\<close>-th service, by name, kind and token, is a UDP socket exactly for a UDP service, and the
  client has a destination for number \<open>i\<close> exactly then.
\<close>

theorem service_numbers_agree:
  assumes "\<And>a b. ct_eq a b \<longleftrightarrow> a = b" and "valid_side b64 c False" "btree (sd_services c)"
    and "register_services ct_eq bind cfg os (client_registration c) = (Ok bs, os')"
    and "client_destinations lookup c = Ok dest" "i < length (sd_services c)"
  shows "length bs = length (sd_services c) \<and> unat (word_of_nat i :: u16) = i \<and>
    (case (bs ! i, sd_services c ! i) of ((name, s, l), (name', s')) \<Rightarrow>
       name = name' \<and> map_of (sd_services cfg) name = Some s \<and> sv_kind s = sv_kind s' \<and>
       token cfg s = token c s' \<and> (\<exists>x. l = (case sv_kind s of Tcp \<Rightarrow> BoundTcp x | Udp \<Rightarrow> BoundUdp x)) \<and>
       fmlookup dest (word_of_nat i) = (if sv_kind s = Udp then udp_target lookup c s' else None) \<and>
       (sv_kind s = Udp \<longrightarrow> fmlookup dest (word_of_nat i) \<noteq> None))"
proof -
  obtain defs where defs: "accept_registration ct_eq cfg (client_registration c) = Ok defs"
    "bind_all bind os defs = (Ok bs, os')"
    using assms(4) by (auto simp: register_services_def split: result.splits)
  note acc = defs(1) [unfolded client_registration_accepted [OF assms(1-3)]]
  have bs: "map (\<lambda>(n, s, l). (n, s)) bs =
      map (\<lambda>(name, sv). (name, the (map_of (sd_services cfg) name))) (sd_services c)"
    using bind_all_Ok [OF defs(2)] acc by simp
  then have len: "length bs = length (sd_services c)" by (rule map_eq_imp_length_eq)
  have "length (sd_services c) \<le> 256" using assms(2) by (simp add: valid_side_def)
  then have small: "unat (word_of_nat i :: u16) = i" "0 + length (sd_services c) \<le> 65536"
    using assms(6) by (simp_all add: unat_u16_small)
  obtain name s l where e1: "bs ! i = (name, s, l)" by (cases "bs ! i")
  obtain name' s' where e2: "sd_services c ! i = (name', s')" by (cases "sd_services c ! i")
  note e = e1 e2
  have "(name, s) = (name', the (map_of (sd_services cfg) name'))"
    using arg_cong [OF bs, of "\<lambda>xs. xs ! i"] e len assms(6) by simp
  moreover have "\<exists>sv'. map_of (sd_services cfg) name' = Some sv' \<and> sv_kind s' = sv_kind sv' \<and>
      token c s' = token cfg sv'"
    using acc nth_mem [OF assms(6)] e(2) by fastforce
  ultimately have sv: "name = name'" "map_of (sd_services cfg) name = Some s" "sv_kind s = sv_kind s'"
    "token cfg s = token c s'" by auto
  have "\<exists>x. l = (case sv_kind s of Tcp \<Rightarrow> BoundTcp x | Udp \<Rightarrow> BoundUdp x)"
    using bind_all_listeners [OF defs(2)] nth_mem [of i bs] e1 len assms(6) by simp
  with sv show ?thesis
    using destinations_from_Ok [OF assms(5) [unfolded client_destinations_def] small(2), of "word_of_nat i"]
      len small e assms(6)
    by simp
qed

theorem service_numbers_agree_witness:
  "register_services (=) log_bind (sample_side True) [] (client_registration (sample_side False)) =
     (Ok [(''game'', sample_service True, BoundUdp '':7000'')], ['':7000'']) \<and>
   map_of (sd_services (sample_side True)) ''game'' = Some (sample_service True)"
proof -
  have "btree (sd_services (sample_side False))" by (simp add: sample_services btree_def)
  from service_numbers_agree [OF _ sample_valid this sample_registers sample_destinations, of 0]
  show ?thesis using sample_registers by (simp add: sample_services)
qed

text \<open>
  Matching configurations register. A valid client is accepted exactly when the server
  configures each of the client's services under the same name with the same kind and token; the
  server may configure more.
\<close>

lemma matching_client_accepted:
  assumes "\<And>a b. ct_eq a b \<longleftrightarrow> a = b" and "valid_side b64 c False" "btree (sd_services c)"
  shows "is_ok (accept_registration ct_eq cfg (client_registration c)) \<longleftrightarrow>
    (\<forall>(name, sv) \<in> set (sd_services c). \<exists>sv'. map_of (sd_services cfg) name = Some sv' \<and>
       sv_kind sv = sv_kind sv' \<and> token c sv = token cfg sv')"
  unfolding is_ok_iff client_registration_accepted [OF assms] by blast

text \<open>
  The destinations table. For a valid client, building the table of UDP destinations cannot
  panic on a missing local address; when it succeeds the table holds exactly the UDP services, by
  position, each with the resolved address of its \<open>local_addr\<close>.
\<close>

lemma destinations_exact:
  assumes "valid_side b64 c False" "\<And>a. snd (lookup a) \<noteq> Err Panicked"
  shows "client_destinations lookup c \<noteq> Err Panicked \<and>
    (\<forall>dest. client_destinations lookup c = Ok dest \<longrightarrow>
       fmlookup dest i = (if unat i < length (sd_services c) \<and> sv_kind (snd (sd_services c ! unat i)) = Udp
         then udp_target lookup c (snd (sd_services c ! unat i)) else None))"
proof -
  have len: "0 + length (sd_services c) \<le> 65536"
    and "\<forall>e \<in> set (sd_services c). sv_local_addr (snd e) \<noteq> None"
    using assms(1) by (auto simp: valid_side_def valid_service_def)
  then have "client_destinations lookup c \<noteq> Err Panicked"
    unfolding client_destinations_def by (intro destinations_from_Panicked [OF assms(2)]) auto
  moreover have "fmlookup dest i = (if unat i < length (sd_services c) \<and> sv_kind (snd (sd_services c ! unat i)) = Udp
         then udp_target lookup c (snd (sd_services c ! unat i)) else None)"
    if "client_destinations lookup c = Ok dest" for dest
    using destinations_from_Ok [OF that [unfolded client_destinations_def] len, of i] by simp
  ultimately show ?thesis by blast
qed

end
