(* ===== verification/Datagram.thy ===== *)
theory Datagram
  imports Datagram_Crypto
begin

text \<open>
  Fragmentation and reassembly of UDP messages, \<open>src/datagram.rs\<close>. A message of up to 65507
  bytes is cut into fragments of 1000 bytes, each with a 22-byte header, sealed one by one and
  handed to the QUIC connection; the receiver collects fragments per message id, in any order,
  in at most 128 incomplete assemblies that expire after two seconds. The connection is a
  parameter: its \<open>send_datagram\<close> and \<open>close\<close>.
\<close>

section \<open>Constants\<close>

definition CHUNK :: nat where "CHUNK = 1000"
definition MAX_PAYLOAD :: nat where "MAX_PAYLOAD = 65507"
definition HEADER :: nat where "HEADER = 22"
definition MAX_ASSEMBLIES :: nat where "MAX_ASSEMBLIES = 128"

lemmas datagram_constants = CHUNK_def MAX_PAYLOAD_def HEADER_def MAX_ASSEMBLIES_def

section \<open>Sending\<close>

text \<open>Quinn's connection, as the sender uses it: \<open>send_datagram\<close> and \<open>close(code, reason)\<close>.\<close>

record 'c datagram_conn =
  cn_send :: "'c \<Rightarrow> bytes \<Rightarrow> unit result \<times> 'c"
  cn_close :: "'c \<Rightarrow> u32 \<Rightarrow> string \<Rightarrow> 'c"

record 'k sender =
  sn_crypto :: "'k datagram_crypto"
  sn_next_message :: u64

text \<open>
  What is relied on of \<open>send_datagram\<close>: a call that returns \<open>Ok\<close> has queued exactly that
  datagram behind the earlier ones, a call that fails has queued nothing, nor has \<open>close\<close>.
\<close>

definition conn_queues :: "'c datagram_conn \<Rightarrow> ('c \<Rightarrow> bytes list) \<Rightarrow> bool" where
  "conn_queues N sent \<longleftrightarrow>
     (\<forall>c d c'. cn_send N c d = (Ok (), c') \<longrightarrow> sent c' = sent c @ [d]) \<and>
     (\<forall>c d e c'. cn_send N c d = (Err e, c') \<longrightarrow> sent c' = sent c) \<and>
     (\<forall>c code reason. sent (cn_close N c code reason) = sent c)"

text \<open>A concrete connection, used to show \<open>conn_queues\<close> satisfiable: it logs what is sent.\<close>

definition log_conn :: "bytes list datagram_conn" where
  "log_conn = \<lparr>cn_send = (\<lambda>c d. (Ok (), c @ [d])), cn_close = (\<lambda>c _ _. c)\<rparr>"

definition sender_new :: "'k datagram_crypto \<Rightarrow> 'k sender" where
  "sender_new crypto = \<lparr>sn_crypto = crypto, sn_next_message = 0\<rparr>"

definition fragment_count :: "nat \<Rightarrow> nat" where
  "fragment_count len = max (div_ceil len CHUNK) 1"

text \<open>The plaintext of fragment \<open>i\<close>, as the loop body of \<open>send\<close> assembles it.\<close>

definition fragment :: "u16 \<Rightarrow> u64 \<Rightarrow> u64 \<Rightarrow> bytes \<Rightarrow> nat \<Rightarrow> bytes" where
  "fragment service flow message payload i =
     (let start = i * CHUNK; finish = min (start + CHUNK) (length payload)
      in u16_be service @ u64_be flow @ u64_be message @
         u16_be (word_of_nat (length payload)) @ u16_be (word_of_nat i) @
         drop start (take finish payload))"

fun send_fragments :: "'k stateless_api \<Rightarrow> 'c datagram_conn \<Rightarrow> 'k datagram_crypto \<Rightarrow> 'c \<Rightarrow> bytes list
    \<Rightarrow> unit result \<times> 'k datagram_crypto \<times> 'c" where
  "send_fragments A N crypto conn [] = (Ok (), crypto, conn)"
| "send_fragments A N crypto conn (p # ps) =
     (case dc_seal A crypto p of
        (Err e, crypto') \<Rightarrow> (Err e, crypto', cn_close N conn 1 ''Noise key renewal required'')
      | (Ok encrypted, crypto') \<Rightarrow>
          (case cn_send N conn encrypted of
             (Err e, conn') \<Rightarrow> (Err e, crypto', conn')
           | (Ok _, conn') \<Rightarrow> send_fragments A N crypto' conn' ps))"

definition send_payload :: "'k stateless_api \<Rightarrow> 'c datagram_conn \<Rightarrow> 'k sender \<Rightarrow> 'c \<Rightarrow> u16 \<Rightarrow> u64 \<Rightarrow> bytes
    \<Rightarrow> unit result \<times> 'k sender \<times> 'c" where
  "send_payload A N s conn service flow payload =
     (if \<not> length payload \<le> MAX_PAYLOAD then (Err (DatagramError PayloadTooLarge), s, conn)
      else case checked_succ (sn_next_message s) of
        None \<Rightarrow> (Err (DatagramError MessageIdExhausted), s, conn)
      | Some next' \<Rightarrow>
          (let message = sn_next_message s;
               ps = map (fragment service flow message payload)
                      [0..<fragment_count (length payload)]
           in case send_fragments A N (sn_crypto s) conn ps of
                (r, crypto', conn') \<Rightarrow>
                  (r, \<lparr>sn_crypto = crypto', sn_next_message = next'\<rparr>, conn')))"

section \<open>Reassembly\<close>

record packet =
  pk_service :: u16
  pk_flow :: u64
  pk_payload :: bytes

record assembly =
  as_service :: u16
  as_flow :: u64
  as_length :: nat
  as_parts :: "bytes option list"
  as_created :: instant

record reassembler =
  ra_pending :: "(u64, assembly) fmap"

definition ra_default :: reassembler where
  "ra_default = \<lparr>ra_pending = fmempty\<rparr>"

definition ra_expire :: "reassembler \<Rightarrow> instant \<Rightarrow> reassembler" where
  "ra_expire r now = r\<lparr>ra_pending :=
     hm_retain (\<lambda>_ a. now - as_created a < from_secs 2) (ra_pending r)\<rparr>"

text \<open>
  The second half of \<open>push\<close>, after the header checks and the expiry: find or create the
  assembly, check that it is consistent, store the fragment and deliver when none is missing.
\<close>

definition ra_join :: "reassembler \<Rightarrow> u16 \<Rightarrow> u64 \<Rightarrow> u64 \<Rightarrow> nat \<Rightarrow> nat \<Rightarrow> bytes \<Rightarrow> instant
    \<Rightarrow> packet option result \<times> reassembler" where
  "ra_join r service flow message len index part now =
     (if \<not> hm_contains (ra_pending r) message \<and> hm_len (ra_pending r) \<ge> MAX_ASSEMBLIES
      then (Ok None, r) else
      let a = (case fmlookup (ra_pending r) message of
                 Some a \<Rightarrow> a
               | None \<Rightarrow> \<lparr>as_service = service, as_flow = flow, as_length = len,
                           as_parts = replicate (fragment_count len) None, as_created = now\<rparr>);
          r1 = \<lparr>ra_pending = fmupd message a (ra_pending r)\<rparr>
      in
      if \<not> (as_service a = service \<and> as_flow a = flow \<and> as_length a = len)
      then (Err (DatagramError InconsistentFragments), r1) else
      let a' = a\<lparr>as_parts := (as_parts a)[index := Some part]\<rparr> in
      if list_ex (\<lambda>v. v = None) (as_parts a')
      then (Ok None, \<lparr>ra_pending = fmupd message a' (ra_pending r1)\<rparr>)
      else (Ok (Some \<lparr>pk_service = service, pk_flow = flow,
                      pk_payload = concat (map the (as_parts a'))\<rparr>),
            \<lparr>ra_pending = fmdrop message (ra_pending r1)\<rparr>))"

definition ra_push :: "reassembler \<Rightarrow> bytes \<Rightarrow> instant \<Rightarrow> packet option result \<times> reassembler" where
  "ra_push r p now =
     (if \<not> HEADER \<le> length p then (Err (DatagramError ShortFragment), r) else
      let service = of_be (take 2 p);
          flow = of_be (take 8 (drop 2 p));
          message = of_be (take 8 (drop 10 p));
          len = unat (of_be (take 2 (drop 18 p)) :: u16);
          index = unat (of_be (take 2 (drop 20 p)) :: u16)
      in
      if \<not> len \<le> MAX_PAYLOAD then (Err (DatagramError InvalidLength), r) else
      let count = fragment_count len in
      if \<not> index < count then (Err (DatagramError InvalidIndex), r) else
      if length p - HEADER \<noteq> min (len - index * CHUNK) CHUNK
      then (Err (DatagramError InvalidFragmentLength), r) else
      if count = 1
      then (Ok (Some \<lparr>pk_service = service, pk_flow = flow, pk_payload = drop HEADER p\<rparr>), r) else
      ra_join (ra_expire r now) service flow message len index (drop HEADER p) now)"

text \<open>Pushing a sequence of fragments with their arrival times; the results and the final state.\<close>

fun ra_run :: "reassembler \<Rightarrow> (bytes \<times> instant) list \<Rightarrow> packet option result list \<times> reassembler" where
  "ra_run r [] = ([], r)"
| "ra_run r ((p, now) # es) =
     (case ra_push r p now of (x, r') \<Rightarrow> (case ra_run r' es of (xs, r'') \<Rightarrow> (x # xs, r'')))"

text \<open>
  The tables a session's reassembler can reach, with the fragments received on the way: pushes
  of arbitrary bytes at arbitrary times, and the periodic expiry of the session loops.
\<close>

inductive ra_reach :: "reassembler \<Rightarrow> bytes set \<Rightarrow> bool" where
  ra_start: "ra_reach ra_default {}"
| ra_pushed: "ra_reach r H \<Longrightarrow> ra_push r p now = (x, r') \<Longrightarrow> ra_reach r' (insert p H)"
| ra_expired: "ra_reach r H \<Longrightarrow> ra_reach (ra_expire r now) H"

text \<open>The message id a fragment names.\<close>

definition message_of :: "bytes \<Rightarrow> u64" where
  "message_of p = of_be (take 8 (drop 10 p))"

definition chunk :: "bytes \<Rightarrow> nat \<Rightarrow> bytes" where
  "chunk payload i = take CHUNK (drop (i * CHUNK) payload)"

section \<open>The sending loop\<close>

lemma log_conn_queues: "conn_queues log_conn (\<lambda>c. c)"
  by (simp add: conn_queues_def log_conn_def)

lemma send_fragments_Ok:
  "conn_queues N sent \<Longrightarrow> send_fragments A N crypto conn ps = (Ok (), crypto', conn') \<Longrightarrow>
   \<exists>ds. sent conn' = sent conn @ ds \<and> dc_seal_all A crypto ps = map Ok ds"
proof (induction ps arbitrary: crypto conn)
  case Nil
  then show ?case by simp
next
  case (Cons p ps)
  then obtain e c1 n1 where step: "dc_seal A crypto p = (Ok e, c1)" "cn_send N conn e = (Ok (), n1)"
    "send_fragments A N c1 n1 ps = (Ok (), crypto', conn')"
    by (auto split: prod.splits result.splits)
  with Cons.IH [OF Cons.prems(1) step(3)] Cons.prems(1) obtain ds where
    "sent conn' = sent conn @ e # ds" "dc_seal_all A c1 ps = map Ok ds"
    unfolding conn_queues_def by force
  then show ?case using step(1) by (intro exI [of _ "e # ds"]) simp
qed

section \<open>Chunks\<close>

lemma CHUNK_pos [simp]: "0 < CHUNK"
  by (simp add: CHUNK_def)

lemma fragment_count_pos [simp]: "0 < fragment_count n"
  by (simp add: fragment_count_def)

lemma fragment_count_covers: "n \<le> fragment_count n * CHUNK"
proof -
  have "n \<le> div_ceil n CHUNK * CHUNK" by (rule div_ceil_mult) simp
  also have "\<dots> \<le> fragment_count n * CHUNK"
    by (intro mult_le_mono1) (simp add: fragment_count_def)
  finally show ?thesis .
qed

lemma fragment_start: "i < fragment_count n \<Longrightarrow> i * CHUNK \<le> n"
  using div_ceil_less [of CHUNK i n] by (auto simp: fragment_count_def max_def split: if_splits)

lemma fragment_count_le: "n \<le> MAX_PAYLOAD \<Longrightarrow> fragment_count n \<le> 66"
proof -
  assume n: "n \<le> MAX_PAYLOAD"
  have "div_ceil n CHUNK \<le> 66"
  proof (rule ccontr)
    assume "\<not> div_ceil n CHUNK \<le> 66"
    then have "66 * CHUNK < n" by (intro div_ceil_less) auto
    then show False using n by (simp add: datagram_constants)
  qed
  then show ?thesis by (simp add: fragment_count_def)
qed

lemma fragment_count_eq_1: "fragment_count n = 1 \<longleftrightarrow> n \<le> CHUNK"
proof
  assume "fragment_count n = 1"
  then show "n \<le> CHUNK" using fragment_count_covers [of n] by simp
next
  assume n: "n \<le> CHUNK"
  have "\<not> 1 < div_ceil n CHUNK" using div_ceil_less [of CHUNK 1 n] n by auto
  then show "fragment_count n = 1" by (simp add: fragment_count_def)
qed

lemma length_chunk [simp]: "length (chunk payload i) = min (length payload - i * CHUNK) CHUNK"
  by (simp add: chunk_def)

lemma concat_chunks_upto: "concat (map (chunk payload) [0..<k]) = take (k * CHUNK) payload"
proof (induction k)
  case 0
  then show ?case by simp
next
  case (Suc k)
  have "take (Suc k * CHUNK) payload = take (k * CHUNK) payload @ chunk payload k"
    by (simp add: chunk_def add.commute [of CHUNK] take_add)
  then show ?case using Suc by simp
qed

lemma concat_chunks:
  "concat (map (chunk payload) [0..<fragment_count (length payload)]) = payload"
  by (simp add: concat_chunks_upto fragment_count_covers)

lemma fragment_eq:
  "fragment service flow message payload i =
     u16_be service @ u64_be flow @ u64_be message @
     u16_be (word_of_nat (length payload)) @ u16_be (word_of_nat i) @ chunk payload i"
  by (auto simp: fragment_def Let_def chunk_def drop_take min_def)

lemma length_fragment: "length (fragment service flow message payload i) =
    HEADER + min (length payload - i * CHUNK) CHUNK"
  by (simp add: fragment_eq HEADER_def)

lemma message_of_fragment [simp]: "message_of (fragment service flow message payload i) = message"
  by (simp add: message_of_def fragment_eq)

lemma unat_u16_of_nat: "n < 65536 \<Longrightarrow> unat (word_of_nat n :: u16) = n"
  by (simp add: unat_of_nat)

section \<open>One fragment\<close>

text \<open>The assembly of a message of which the fragments \<open>I\<close> have arrived.\<close>

definition partial :: "u16 \<Rightarrow> u64 \<Rightarrow> bytes \<Rightarrow> nat set \<Rightarrow> instant \<Rightarrow> assembly" where
  "partial service flow payload I t0 = \<lparr>as_service = service, as_flow = flow,
     as_length = length payload,
     as_parts = map (\<lambda>i. if i \<in> I then Some (chunk payload i) else None)
       [0..<fragment_count (length payload)],
     as_created = t0\<rparr>"

lemma partial_empty:
  "partial service flow payload {} t0 = \<lparr>as_service = service, as_flow = flow,
     as_length = length payload, as_parts = replicate (fragment_count (length payload)) None,
     as_created = t0\<rparr>"
  by (simp add: partial_def map_replicate_const)

lemma partial_insert:
  assumes "i < fragment_count (length payload)"
  shows "(as_parts (partial service flow payload I t0))[i := Some (chunk payload i)] =
    as_parts (partial service flow payload (insert i I) t0)"
  using assms by (intro nth_equalityI) (auto simp: partial_def nth_list_update)

lemma partial_complete:
  assumes "{..<fragment_count (length payload)} \<subseteq> I"
  shows "concat (map the (as_parts (partial service flow payload I t0))) = payload"
proof -
  have "map the (as_parts (partial service flow payload I t0)) =
      map (chunk payload) [0..<fragment_count (length payload)]"
    using assms by (auto simp: partial_def)
  then show ?thesis by (simp add: concat_chunks)
qed

lemma partial_missing:
  "list_ex (\<lambda>v. v = None) (as_parts (partial service flow payload I t0)) \<longleftrightarrow>
   \<not> {..<fragment_count (length payload)} \<subseteq> I"
  by (auto simp: partial_def list_ex_iff)

text \<open>The assembly that a fragment of \<open>message\<close> joins once the old ones have expired.\<close>

definition received :: "reassembler \<Rightarrow> instant \<Rightarrow> u16 \<Rightarrow> u64 \<Rightarrow> u64 \<Rightarrow> bytes \<Rightarrow> nat set \<Rightarrow> instant \<Rightarrow> bool" where
  "received r now service flow message payload I t0 \<longleftrightarrow>
     (case fmlookup (ra_pending (ra_expire r now)) message of
        Some a \<Rightarrow> a = partial service flow payload I t0
      | None \<Rightarrow> I = {} \<and> t0 = now \<and> hm_len (ra_pending (ra_expire r now)) < MAX_ASSEMBLIES)"

lemma ra_push_single:
  assumes "length payload \<le> CHUNK"
  shows "ra_push r (fragment service flow message payload 0) now =
    (Ok (Some \<lparr>pk_service = service, pk_flow = flow, pk_payload = payload\<rparr>), r)"
proof -
  have "chunk payload 0 = payload" using assms by (simp add: chunk_def)
  moreover have "fragment_count (length payload) = 1" using assms by (rule fragment_count_eq_1 [THEN iffD2])
  ultimately show ?thesis
    using assms unfolding ra_push_def
    by (simp add: Let_def fragment_eq unat_u16_of_nat datagram_constants)
qed

lemma ra_join_fragment:
  assumes i: "i < fragment_count (length payload)"
    and st: "received r now service flow message payload I t0"
  shows "ra_join (ra_expire r now) service flow message (length payload) i (chunk payload i) now =
    (if {..<fragment_count (length payload)} \<subseteq> insert i I
     then (Ok (Some \<lparr>pk_service = service, pk_flow = flow, pk_payload = payload\<rparr>),
           \<lparr>ra_pending = fmdrop message (ra_pending (ra_expire r now))\<rparr>)
     else (Ok None, \<lparr>ra_pending = fmupd message (partial service flow payload (insert i I) t0)
             (ra_pending (ra_expire r now))\<rparr>))"
proof -
  let ?a = "case fmlookup (ra_pending (ra_expire r now)) message of
      Some a \<Rightarrow> a
    | None \<Rightarrow> \<lparr>as_service = service, as_flow = flow, as_length = length payload,
        as_parts = replicate (fragment_count (length payload)) None, as_created = now\<rparr>"
  have a: "?a = partial service flow payload I t0"
    using st by (auto simp: received_def partial_empty split: option.splits)
  have room: "\<not> (\<not> hm_contains (ra_pending (ra_expire r now)) message \<and>
      hm_len (ra_pending (ra_expire r now)) \<ge> MAX_ASSEMBLIES)"
    using st by (auto simp: received_def hm_contains_def split: option.splits)
  have upd: "partial service flow payload I t0\<lparr>as_parts := as_parts (partial service flow payload (insert i I) t0)\<rparr>
      = partial service flow payload (insert i I) t0"
    by (simp add: partial_def)
  have same: "as_service (partial service flow payload I t0) = service \<and>
      as_flow (partial service flow payload I t0) = flow \<and>
      as_length (partial service flow payload I t0) = length payload"
    by (simp add: partial_def)
  show ?thesis
    unfolding ra_join_def Let_def a if_not_P [OF room]
    by (simp add: same i partial_insert partial_missing partial_complete upd)
qed

lemma ra_push_fragment:
  assumes len: "length payload \<le> MAX_PAYLOAD" and i: "i < fragment_count (length payload)"
    and many: "fragment_count (length payload) \<noteq> 1"
  shows "ra_push r (fragment service flow message payload i) now =
    ra_join (ra_expire r now) service flow message (length payload) i (chunk payload i) now"
proof -
  let ?f = "fragment service flow message payload i"
  have i66: "i < 66" using i fragment_count_le [OF len] by simp
  have hdr: "of_be (take 2 ?f) = service" "of_be (take 8 (drop 2 ?f)) = flow"
    "of_be (take 8 (drop 10 ?f)) = message"
    "unat (of_be (take 2 (drop 18 ?f)) :: u16) = length payload"
    "unat (of_be (take 2 (drop 20 ?f)) :: u16) = i" "drop HEADER ?f = chunk payload i"
    using i66 len by (simp_all add: fragment_eq unat_u16_of_nat datagram_constants)
  have size: "HEADER \<le> length ?f" "length ?f - HEADER = min (length payload - i * CHUNK) CHUNK"
    by (simp_all add: length_fragment)
  show ?thesis
    unfolding ra_push_def Let_def hdr size(2) using size(1) len i many by simp
qed

section \<open>Frames: what a push leaves alone\<close>


text \<open>
  The four ways a push can leave the table: untouched (a malformed or a single-fragment
  message), expired only (no room), with the fragment's message updated, or completed.
\<close>

definition push_effect :: "reassembler \<Rightarrow> instant \<Rightarrow> u64 \<Rightarrow> reassembler \<Rightarrow> bool" where
  "push_effect r now m r' \<longleftrightarrow> r' = r \<or> r' = ra_expire r now \<or>
     (\<exists>a. ra_pending r' = fmupd m a (ra_pending (ra_expire r now)) \<and>
        (hm_contains (ra_pending (ra_expire r now)) m \<or>
         hm_len (ra_pending (ra_expire r now)) < MAX_ASSEMBLIES)) \<or>
     ra_pending r' = fmdrop m (ra_pending (ra_expire r now))"

lemma push_effect_if:
  "(c \<Longrightarrow> push_effect r now m x) \<Longrightarrow> (\<not> c \<Longrightarrow> push_effect r now m y) \<Longrightarrow>
   push_effect r now m (if c then x else y)"
  by simp

lemma push_effect_intros:
  "push_effect r now m r" "push_effect r now m (ra_expire r now)"
  "push_effect r now m \<lparr>ra_pending = fmdrop m (ra_pending (ra_expire r now))\<rparr>"
  "\<not> (\<not> hm_contains (ra_pending (ra_expire r now)) m \<and>
      hm_len (ra_pending (ra_expire r now)) \<ge> MAX_ASSEMBLIES) \<Longrightarrow>
   push_effect r now m \<lparr>ra_pending = fmupd m a (ra_pending (ra_expire r now))\<rparr>"
  by (auto simp: push_effect_def)

lemma ra_push_effect: "push_effect r now (message_of p) (snd (ra_push r p now))"
  unfolding ra_push_def ra_join_def Let_def message_of_def [symmetric] if_distrib [of snd] snd_conv
    fmupd_twice reassembler.simps
  by (intro push_effect_if push_effect_intros; assumption)

lemma fmlookup_expire:
  "fmlookup (ra_pending (ra_expire r now)) m = (case fmlookup (ra_pending r) m of
     None \<Rightarrow> None | Some a \<Rightarrow> if now - as_created a < from_secs 2 then Some a else None)"
  by (cases "fmlookup (ra_pending r) m") (simp_all add: ra_expire_def)

lemma fmdom_expire: "fmdom (ra_pending (ra_expire r now)) |\<subseteq>| fmdom (ra_pending r)"
  by (auto simp: ra_expire_def hm_retain_def)

lemma ra_push_frame:
  assumes "m \<noteq> message_of p"
  shows "fmlookup (ra_pending (snd (ra_push r p now))) m = fmlookup (ra_pending r) m \<or>
    fmlookup (ra_pending (snd (ra_push r p now))) m = fmlookup (ra_pending (ra_expire r now)) m"
  using ra_push_effect [of r now p] assms by (auto simp: push_effect_def)

lemma ra_push_dom:
  "fmdom (ra_pending (snd (ra_push r p now))) |\<subseteq>| finsert (message_of p) (fmdom (ra_pending r))"
  using ra_push_effect [of r now p] fmdom_expire [of r now] by (auto simp: push_effect_def)

lemma hm_len_room:
  assumes "fset (fmdom pending) \<subseteq> K" "finite K" "card K \<le> MAX_ASSEMBLIES" "m \<in> K"
    and "fmlookup pending m = None"
  shows "hm_len pending < MAX_ASSEMBLIES"
proof -
  have "fset (fmdom pending) \<subseteq> K - {m}" using assms(1,5) by (auto simp: fmlookup_dom_iff)
  then have "card (fset (fmdom pending)) \<le> card (K - {m})" using assms(2) by (intro card_mono) auto
  also have "\<dots> < card K" using assms(2,4) by (rule card_Diff1_less)
  finally show ?thesis using assms(3) by (simp add: hm_len_def fcard.rep_eq)
qed

section \<open>Interleaved arrivals\<close>

text \<open>
  Arrivals while one message is under way: fragment \<open>i\<close> of that message, or any other bytes.
\<close>

type_synonym arrival = "(nat + bytes) \<times> instant"

fun wire :: "(nat \<Rightarrow> bytes) \<Rightarrow> arrival \<Rightarrow> bytes \<times> instant" where
  "wire frag (Inl i, t) = (frag i, t)"
| "wire frag (Inr p, t) = (p, t)"

fun own_indices :: "arrival list \<Rightarrow> nat list" where
  "own_indices [] = []"
| "own_indices ((Inl i, t) # as) = i # own_indices as"
| "own_indices ((Inr p, t) # as) = own_indices as"

fun own_results :: "arrival list \<Rightarrow> 'r list \<Rightarrow> 'r list" where
  "own_results ((Inl i, t) # as) (x # xs) = x # own_results as xs"
| "own_results ((Inr p, t) # as) (x # xs) = own_results as xs"
| "own_results as xs = []"

fun foreign :: "u64 \<Rightarrow> arrival list \<Rightarrow> bool" where
  "foreign m [] = True"
| "foreign m ((Inl i, t) # as) = foreign m as"
| "foreign m ((Inr p, t) # as) = (message_of p \<noteq> m \<and> foreign m as)"

lemma own_results_none: "own_indices as = [] \<Longrightarrow> own_results as xs = []"
  by (induction as xs rule: own_results.induct) auto

text \<open>The table while the fragments \<open>I\<close> of a message have arrived, none of it older than \<open>T\<close>.\<close>

definition underway :: "reassembler \<Rightarrow> u16 \<Rightarrow> u64 \<Rightarrow> u64 \<Rightarrow> bytes \<Rightarrow> nat set \<Rightarrow> instant \<Rightarrow> bool" where
  "underway r service flow m payload I T \<longleftrightarrow> (case fmlookup (ra_pending r) m of
      None \<Rightarrow> I = {}
    | Some a \<Rightarrow> \<exists>t0\<ge>T. a = partial service flow payload I t0)"

lemma underway_expire:
  assumes "underway r service flow m payload I T" "now < T + from_secs 2"
  shows "fmlookup (ra_pending (ra_expire r now)) m = fmlookup (ra_pending r) m"
  using assms by (auto simp: underway_def fmlookup_expire partial_def split: option.splits)

lemma underway_received:
  assumes "underway r service flow m payload I T" "T \<le> now" "now < T + from_secs 2"
    and "fset (fmdom (ra_pending r)) \<subseteq> K" "finite K" "card K \<le> MAX_ASSEMBLIES" "m \<in> K"
  shows "\<exists>t0\<ge>T. received r now service flow m payload I t0"
proof (cases "fmlookup (ra_pending r) m")
  case None
  have "fset (fmdom (ra_pending (ra_expire r now))) \<subseteq> K"
    using fmdom_expire [of r now] assms(4) by auto
  then have "hm_len (ra_pending (ra_expire r now)) < MAX_ASSEMBLIES"
    using assms(5-7) None by (intro hm_len_room) (auto simp: fmlookup_expire)
  then show ?thesis
    using assms(1,2) None by (auto simp: received_def underway_def fmlookup_expire)
next
  case (Some a)
  then show ?thesis
    using assms(1) underway_expire [OF assms(1,3)] by (auto simp: received_def underway_def)
qed

lemma underway_other:
  assumes "underway r service flow m payload I T" "now < T + from_secs 2" "message_of p \<noteq> m"
  shows "underway (snd (ra_push r p now)) service flow m payload I T"
proof -
  have "fmlookup (ra_pending (snd (ra_push r p now))) m = fmlookup (ra_pending r) m"
    using ra_push_frame [of m p r now] assms(3) underway_expire [OF assms(1,2)] by auto
  then show ?thesis using assms(1) by (simp add: underway_def)
qed

lemma fst_ra_run_Cons: "fst (ra_run r ((p, t) # es)) = fst (ra_push r p t) # fst (ra_run (snd (ra_push r p t)) es)"
  by (simp split: prod.splits)

lemma reassembly_run_single:
  assumes "length payload \<le> CHUNK"
  shows "own_indices as = [0] \<Longrightarrow>
    own_results as (fst (ra_run r (map (wire (fragment service flow m payload)) as))) =
      [Ok (Some \<lparr>pk_service = service, pk_flow = flow, pk_payload = payload\<rparr>)]"
proof (induction as arbitrary: r rule: own_indices.induct)
  case (2 i t as)
  then show ?case
    by (simp add: fst_ra_run_Cons ra_push_single [OF assms] own_results_none del: ra_run.simps)
qed (simp_all add: fst_ra_run_Cons del: ra_run.simps)

lemma reassembly_run:
  assumes len: "length payload \<le> MAX_PAYLOAD" and many: "fragment_count (length payload) \<noteq> 1"
    and K: "finite K" "card K \<le> MAX_ASSEMBLIES" "m \<in> K"
  shows "underway r service flow m payload I T \<Longrightarrow> own_indices as \<noteq> [] \<Longrightarrow>
    distinct (own_indices as) \<Longrightarrow> set (own_indices as) = {..<fragment_count (length payload)} - I \<Longrightarrow>
    foreign m as \<Longrightarrow> (\<forall>a\<in>set as. T \<le> snd a \<and> snd a < T + from_secs 2) \<Longrightarrow>
    fset (fmdom (ra_pending r)) \<union>
      message_of ` fst ` set (map (wire (fragment service flow m payload)) as) \<subseteq> K \<Longrightarrow>
    own_results as (fst (ra_run r (map (wire (fragment service flow m payload)) as))) =
      replicate (length (own_indices as) - 1) (Ok None) @
      [Ok (Some \<lparr>pk_service = service, pk_flow = flow, pk_payload = payload\<rparr>)]"
proof (induction as arbitrary: r I)
  case Nil
  then show ?case by simp
next
  case (Cons a as)
  let ?frag = "fragment service flow m payload"
  let ?n = "fragment_count (length payload)"
  obtain x t where a: "a = (x, t)" by (cases a)
  have t: "T \<le> t" "t < T + from_secs 2" using Cons.prems(6) a by auto
  have dom: "fset (fmdom (ra_pending r)) \<subseteq> K" using Cons.prems(7) by auto
  have dom': "fset (fmdom (ra_pending (snd (ra_push r p t)))) \<subseteq> K" if "message_of p \<in> K" for p
    using ra_push_dom [of r p t] dom that by (auto simp: less_eq_fset.rep_eq)
  show ?case
  proof (cases x)
    case (Inl i)
    have i: "i < ?n" "i \<notin> I" "i \<notin> set (own_indices as)"
      and rest: "set (own_indices as) = {..<?n} - insert i I"
      using Cons.prems(3,4) a Inl by auto
    obtain t0 where t0: "T \<le> t0" "received r t service flow m payload I t0"
      using underway_received [OF Cons.prems(1) t dom K] by blast
    note push = ra_push_fragment [OF len i(1) many, of r service flow m t]
      ra_join_fragment [OF i(1) t0(2)]
    show ?thesis
    proof (cases "{..<?n} \<subseteq> insert i I")
      case True
      then have "set (own_indices as) = {}" unfolding rest by (rule Diff_eq_empty_iff [THEN iffD2])
      then have "own_indices as = []" by simp
      then show ?thesis
        using a Inl push True by (simp add: fst_ra_run_Cons own_results_none del: ra_run.simps)
    next
      case False
      let ?r = "snd (ra_push r (?frag i) t)"
      have "underway ?r service flow m payload (insert i I) T"
        using push False t0(1) by (auto simp: underway_def)
      moreover have ne: "own_indices as \<noteq> []" using rest False by fastforce
      ultimately have "own_results as (fst (ra_run ?r (map (wire ?frag) as))) =
          replicate (length (own_indices as) - 1) (Ok None) @
          [Ok (Some \<lparr>pk_service = service, pk_flow = flow, pk_payload = payload\<rparr>)]"
        using Cons.prems(3,5,6,7) a Inl rest dom' [of "?frag i"] K(3)
        by (intro Cons.IH [of ?r "insert i I"]) auto
      moreover obtain k where "length (own_indices as) = Suc k" using ne by (cases "own_indices as") auto
      ultimately show ?thesis
        using a Inl push False by (simp add: fst_ra_run_Cons del: ra_run.simps)
    qed
  next
    case (Inr p)
    have other: "message_of p \<noteq> m" "message_of p \<in> K" using Cons.prems(5,7) a Inr by auto
    show ?thesis
      using Cons.prems a Inr Cons.IH [OF underway_other [OF Cons.prems(1) t(2) other(1)]]
        dom' [OF other(2)]
      by (simp add: fst_ra_run_Cons del: ra_run.simps)
  qed
qed

section \<open>Well-formed assemblies\<close>

definition part_size :: "bytes option \<Rightarrow> nat" where
  "part_size v = (case v of None \<Rightarrow> 0 | Some b \<Rightarrow> length b)"

definition assembly_shape :: "assembly \<Rightarrow> bool" where
  "assembly_shape a \<longleftrightarrow> as_length a \<le> MAX_PAYLOAD \<and>
     length (as_parts a) = fragment_count (as_length a) \<and>
     (\<forall>i<length (as_parts a). \<forall>b. as_parts a ! i = Some b \<longrightarrow>
        length b = min (as_length a - i * CHUNK) CHUNK)"

text \<open>
  The reassembler's invariant: at most 128 assemblies, every one of the shape its length
  dictates and still missing a fragment.
\<close>

definition ra_wf :: "reassembler \<Rightarrow> bool" where
  "ra_wf r \<longleftrightarrow> hm_len (ra_pending r) \<le> MAX_ASSEMBLIES \<and>
     (\<forall>m a. fmlookup (ra_pending r) m = Some a \<longrightarrow>
        assembly_shape a \<and> list_ex (\<lambda>v. v = None) (as_parts a))"

lemma chunk_sizes: "(\<Sum>i\<leftarrow>[0..<fragment_count n]. min (n - i * CHUNK) CHUNK) = n"
proof -
  let ?z = "replicate n (0::byte)"
  have "length (concat (map (chunk ?z) [0..<fragment_count n])) = n"
    using concat_chunks [of ?z] by simp
  then show ?thesis by (simp add: length_concat comp_def)
qed

lemma shape_parts_sum:
  assumes "assembly_shape a"
  shows "(\<Sum>v\<leftarrow>as_parts a. part_size v) \<le> as_length a"
proof -
  let ?n = "fragment_count (as_length a)"
  have "map part_size (as_parts a) = map (\<lambda>i. part_size (as_parts a ! i)) [0..<?n]"
    by (rule nth_equalityI) (use assms in \<open>simp_all add: assembly_shape_def\<close>)
  then have "(\<Sum>v\<leftarrow>as_parts a. part_size v) = (\<Sum>i\<leftarrow>[0..<?n]. part_size (as_parts a ! i))"
    by simp
  also have "\<dots> \<le> (\<Sum>i\<leftarrow>[0..<?n]. min (as_length a - i * CHUNK) CHUNK)"
    using assms by (intro sum_list_mono) (auto simp: assembly_shape_def part_size_def split: option.splits)
  finally show ?thesis by (simp add: chunk_sizes)
qed

lemma shape_complete_length:
  assumes "assembly_shape a" "\<not> list_ex (\<lambda>v. v = None) (as_parts a)"
  shows "length (concat (map the (as_parts a))) = as_length a"
proof -
  let ?n = "fragment_count (as_length a)"
  have "map length (map the (as_parts a)) = map (\<lambda>i. min (as_length a - i * CHUNK) CHUNK) [0..<?n]"
  proof (rule nth_equalityI)
    fix i assume i: "i < length (map length (map the (as_parts a)))"
    then have mem: "as_parts a ! i \<in> set (as_parts a)" by simp
    have "None \<notin> set (as_parts a)" using assms(2) by (auto simp: list_ex_iff)
    with mem have "as_parts a ! i \<noteq> None" by metis
    then obtain b where b: "as_parts a ! i = Some b" by auto
    then have "length b = min (as_length a - i * CHUNK) CHUNK" "i < ?n"
      using assms(1) i by (simp_all add: assembly_shape_def)
    then show "map length (map the (as_parts a)) ! i =
        map (\<lambda>i. min (as_length a - i * CHUNK) CHUNK) [0..<?n] ! i"
      using b i by simp
  qed (use assms(1) in \<open>simp add: assembly_shape_def\<close>)
  then show ?thesis by (simp add: length_concat chunk_sizes)
qed

lemma shape_empty:
  "n \<le> MAX_PAYLOAD \<Longrightarrow> assembly_shape \<lparr>as_service = s, as_flow = f, as_length = n,
     as_parts = replicate (fragment_count n) None, as_created = t\<rparr>"
  by (simp add: assembly_shape_def)

lemma shape_update:
  assumes "assembly_shape a" "i < fragment_count (as_length a)"
    and "length b = min (as_length a - i * CHUNK) CHUNK"
  shows "assembly_shape (a\<lparr>as_parts := (as_parts a)[i := Some b]\<rparr>)"
  using assms by (auto simp: assembly_shape_def nth_list_update)

lemma ra_wf_default: "ra_wf ra_default"
  by (simp add: ra_wf_def ra_default_def)

lemma ra_wf_expire: "ra_wf r \<Longrightarrow> ra_wf (ra_expire r now)"
  using hm_len_retain [of "\<lambda>_ a. now - as_created a < from_secs 2" "ra_pending r"]
  by (auto simp: ra_wf_def ra_expire_def split: option.splits if_splits)

lemma ra_wf_drop: "ra_wf r \<Longrightarrow> ra_wf \<lparr>ra_pending = fmdrop m (ra_pending r)\<rparr>"
  using hm_len_drop [of m "ra_pending r"] by (auto simp: ra_wf_def split: if_splits)

lemma ra_wf_upd:
  assumes "ra_wf r" "assembly_shape a" "list_ex (\<lambda>v. v = None) (as_parts a)"
    and "\<not> (\<not> hm_contains (ra_pending r) m \<and> hm_len (ra_pending r) \<ge> MAX_ASSEMBLIES)"
  shows "ra_wf \<lparr>ra_pending = fmupd m a (ra_pending r)\<rparr>"
  using assms by (auto simp: ra_wf_def hm_len_upd split: if_splits)

lemma ra_join_cases:
  assumes "ra_join r service flow m n i b now = (x, r')"
  defines "a \<equiv> case fmlookup (ra_pending r) m of Some a \<Rightarrow> a
      | None \<Rightarrow> \<lparr>as_service = service, as_flow = flow, as_length = n,
                  as_parts = replicate (fragment_count n) None, as_created = now\<rparr>"
  defines "a' \<equiv> a\<lparr>as_parts := (as_parts a)[i := Some b]\<rparr>"
  shows "(x, r') =
      (if \<not> hm_contains (ra_pending r) m \<and> hm_len (ra_pending r) \<ge> MAX_ASSEMBLIES then (Ok None, r)
       else if \<not> (as_service a = service \<and> as_flow a = flow \<and> as_length a = n)
       then (Err (DatagramError InconsistentFragments), \<lparr>ra_pending = fmupd m a (ra_pending r)\<rparr>)
       else if list_ex (\<lambda>v. v = None) (as_parts a')
       then (Ok None, \<lparr>ra_pending = fmupd m a' (ra_pending r)\<rparr>)
       else (Ok (Some \<lparr>pk_service = service, pk_flow = flow,
              pk_payload = concat (map the (as_parts a'))\<rparr>),
             \<lparr>ra_pending = fmdrop m (ra_pending r)\<rparr>))"
  using assms(1) [symmetric]
  unfolding ra_join_def Let_def a_def [symmetric] a'_def [symmetric] fmupd_twice reassembler.simps .

lemma ra_join_wf:
  assumes wf: "ra_wf r" and n: "n \<le> MAX_PAYLOAD" and i: "i < fragment_count n"
    and b: "length b = min (n - i * CHUNK) CHUNK"
    and out: "ra_join r service flow m n i b now = (x, r')"
  shows "ra_wf r' \<and> (\<forall>k. x = Ok (Some k) \<longrightarrow> length (pk_payload k) = n)"
proof -
  define new where "new = \<lparr>as_service = service, as_flow = flow, as_length = n,
      as_parts = replicate (fragment_count n) None, as_created = now\<rparr>"
  define a where "a = (case fmlookup (ra_pending r) m of Some a \<Rightarrow> a | None \<Rightarrow> new)"
  define a' where "a' = a\<lparr>as_parts := (as_parts a)[i := Some b]\<rparr>"
  have shape: "assembly_shape a"
    using wf shape_empty [OF n] by (auto simp: ra_wf_def a_def new_def split: option.splits)
  note join = ra_join_cases [OF out, folded new_def, folded a_def, folded a'_def]
  show ?thesis
  proof (cases "as_service a = service \<and> as_flow a = flow \<and> as_length a = n")
    case True
    then have "assembly_shape a'" "as_length a' = n"
      using shape i b by (auto simp: a'_def intro: shape_update)
    then show ?thesis
      using join wf True shape_complete_length [of a'] ra_wf_upd [OF wf, of a' m] ra_wf_drop [OF wf, of m]
      by (auto split: if_splits)
  next
    case False
    then have "fmlookup (ra_pending r) m = Some a" by (auto simp: a_def new_def split: option.splits)
    then have "\<lparr>ra_pending = fmupd m a (ra_pending r)\<rparr> = r" by (simp add: fmupd_same)
    then show ?thesis using join wf False by (auto split: if_splits)
  qed
qed

lemma ra_push_wf:
  assumes wf: "ra_wf r" and out: "ra_push r p now = (x, r')"
  shows "ra_wf r' \<and>
    (\<forall>k. x = Ok (Some k) \<longrightarrow> length (pk_payload k) = unat (of_be (take 2 (drop 18 p)) :: u16))"
proof -
  let ?n = "unat (of_be (take 2 (drop 18 p)) :: u16)"
  let ?i = "unat (of_be (take 2 (drop 20 p)) :: u16)"
  show ?thesis
  proof (cases "HEADER \<le> length p \<and> ?n \<le> MAX_PAYLOAD \<and> ?i < fragment_count ?n \<and>
      length p - HEADER = min (?n - ?i * CHUNK) CHUNK")
    case False
    then show ?thesis using wf out by (auto simp: ra_push_def Let_def split: if_splits)
  next
    case valid: True
    show ?thesis
    proof (cases "fragment_count ?n = 1")
      case True
      then have "length (drop HEADER p) = ?n" using valid fragment_count_eq_1 [of ?n] by simp
      then show ?thesis using wf out valid True by (auto simp: ra_push_def Let_def)
    next
      case False
      then have "ra_join (ra_expire r now) (of_be (take 2 p)) (of_be (take 8 (drop 2 p)))
          (of_be (take 8 (drop 10 p))) ?n ?i (drop HEADER p) now = (x, r')"
        using out valid by (simp add: ra_push_def Let_def)
      with ra_wf_expire [OF wf] show ?thesis using valid by (intro ra_join_wf) auto
    qed
  qed
qed

section \<open>Where delivered bytes come from\<close>

definition raw_fragment :: "u16 \<Rightarrow> u64 \<Rightarrow> u64 \<Rightarrow> nat \<Rightarrow> nat \<Rightarrow> bytes \<Rightarrow> bytes" where
  "raw_fragment service flow m n i b = u16_be service @ u64_be flow @ u64_be m @
     u16_be (word_of_nat n) @ u16_be (word_of_nat i) @ b"

text \<open>Every stored part was received as a fragment with the assembly's header.\<close>

definition sourced :: "reassembler \<Rightarrow> bytes set \<Rightarrow> bool" where
  "sourced r H \<longleftrightarrow> (\<forall>m a i b. fmlookup (ra_pending r) m = Some a \<longrightarrow> i < length (as_parts a) \<longrightarrow>
     as_parts a ! i = Some b \<longrightarrow> raw_fragment (as_service a) (as_flow a) m (as_length a) i b \<in> H)"

lemma fragment_raw: "fragment service flow m payload i =
    raw_fragment service flow m (length payload) i (chunk payload i)"
  by (simp add: fragment_eq raw_fragment_def)

lemma take_drop_append: "take n (drop m xs) @ drop (n + m) xs = drop m xs"
  by (metis append_take_drop_id drop_drop)

lemma split_header:
  assumes "HEADER \<le> length p"
  shows "raw_fragment (of_be (take 2 p)) (of_be (take 8 (drop 2 p))) (of_be (take 8 (drop 10 p)))
    (unat (of_be (take 2 (drop 18 p)) :: u16)) (unat (of_be (take 2 (drop 20 p)) :: u16))
    (drop HEADER p) = p"
proof -
  have "take 2 p @ take 8 (drop 2 p) @ take 8 (drop 10 p) @ take 2 (drop 18 p) @
      take 2 (drop 20 p) @ drop 22 p = p"
    using take_drop_append [of 2 20 p] take_drop_append [of 2 18 p] take_drop_append [of 8 10 p]
      take_drop_append [of 8 2 p] by simp
  then show ?thesis
    using assms by (simp add: raw_fragment_def HEADER_def u16_be_of_be u64_be_of_be)
qed

lemma concat_block:
  assumes "\<And>j. j < i \<Longrightarrow> length (bs ! j) = c" "i < length bs"
    and "length (bs ! i) = c \<or> (length (bs ! i) < c \<and> Suc i = length bs)"
  shows "take c (drop (i * c) (concat bs)) = bs ! i"
proof -
  have split: "concat bs = concat (take i bs) @ bs ! i @ concat (drop (Suc i) bs)"
    using assms(2) by (metis append_assoc concat.simps(2) concat_append id_take_nth_drop append_Cons)
  have "map length (take i bs) = replicate i c"
    by (rule nth_equalityI) (use assms(1,2) in auto)
  then have "length (concat (take i bs)) = i * c" by (simp add: length_concat sum_list_replicate)
  then show ?thesis using assms(3) by (auto simp: split)
qed

lemma chunk_of_parts:
  assumes "assembly_shape a" "\<not> list_ex (\<lambda>v. v = None) (as_parts a)"
    and i: "i < fragment_count (as_length a)"
  shows "as_parts a ! i = Some (chunk (concat (map the (as_parts a))) i)"
proof -
  let ?n = "fragment_count (as_length a)"
  have len: "length (as_parts a) = ?n" using assms(1) by (simp add: assembly_shape_def)
  have part: "\<exists>b. as_parts a ! j = Some b \<and> length b = min (as_length a - j * CHUNK) CHUNK"
    if "j < ?n" for j
  proof -
    have "None \<notin> set (as_parts a)" using assms(2) by (auto simp: list_ex_iff)
    then have "as_parts a ! j \<noteq> None" using that len by (metis nth_mem)
    then show ?thesis using assms(1) that len by (auto simp: assembly_shape_def)
  qed
  have full: "length (map the (as_parts a) ! j) = CHUNK" if "Suc j < ?n" for j
  proof -
    have "Suc j * CHUNK \<le> as_length a" using that by (rule fragment_start)
    then show ?thesis using part [of j] that len by auto
  qed
  have "length (map the (as_parts a) ! i) = CHUNK \<or>
      (length (map the (as_parts a) ! i) < CHUNK \<and> Suc i = length (map the (as_parts a)))"
    using full [of i] part [OF i] i len by (cases "Suc i < ?n") (auto simp: min_def)
  then have "chunk (concat (map the (as_parts a))) i = map the (as_parts a) ! i"
    unfolding chunk_def using full i len by (intro concat_block) auto
  then show ?thesis using part [OF i] i len by auto
qed

lemma sourced_expire: "sourced r H \<Longrightarrow> sourced (ra_expire r now) H"
  by (auto simp: sourced_def fmlookup_expire split: option.splits if_splits)

lemma sourced_mono: "sourced r H \<Longrightarrow> H \<subseteq> H' \<Longrightarrow> sourced r H'"
  by (fastforce simp: sourced_def)

lemma ra_join_sourced:
  assumes wf: "ra_wf r" and src: "sourced r H" and n: "n \<le> MAX_PAYLOAD" and i: "i < fragment_count n"
    and b: "length b = min (n - i * CHUNK) CHUNK" and frag: "raw_fragment service flow m n i b \<in> H"
    and out: "ra_join r service flow m n i b now = (x, r')"
  shows "sourced r' H \<and> (\<forall>k. x = Ok (Some k) \<longrightarrow>
     (\<forall>j<fragment_count (length (pk_payload k)).
        fragment (pk_service k) (pk_flow k) m (pk_payload k) j \<in> H))"
proof -
  define new where "new = \<lparr>as_service = service, as_flow = flow, as_length = n,
      as_parts = replicate (fragment_count n) None, as_created = now\<rparr>"
  define a where "a = (case fmlookup (ra_pending r) m of Some a \<Rightarrow> a | None \<Rightarrow> new)"
  define a' where "a' = a\<lparr>as_parts := (as_parts a)[i := Some b]\<rparr>"
  note join = ra_join_cases [OF out, folded new_def, folded a_def, folded a'_def]
  have shape: "assembly_shape a"
    using wf shape_empty [OF n] by (auto simp: ra_wf_def a_def new_def split: option.splits)
  have srca: "raw_fragment (as_service a) (as_flow a) m (as_length a) j c \<in> H"
    if "j < length (as_parts a)" "as_parts a ! j = Some c" for j c
    using that src by (auto simp: sourced_def a_def new_def split: option.splits)
  show ?thesis
  proof (cases "as_service a = service \<and> as_flow a = flow \<and> as_length a = n")
    case True
    then have a': "assembly_shape a'" "as_length a' = n"
      using shape i b by (auto simp: a'_def intro: shape_update)
    have part: "raw_fragment service flow m n j c \<in> H"
      if "j < length (as_parts a')" "as_parts a' ! j = Some c" for j c
      using that srca [of j c] frag True by (cases "j = i") (auto simp: a'_def)
    have full: "fragment service flow m (concat (map the (as_parts a'))) j \<in> H"
      if "\<not> list_ex (\<lambda>v. v = None) (as_parts a')" "j < fragment_count n" for j
      using part [of j] chunk_of_parts [OF a'(1) that(1)] that(2) a'
        shape_complete_length [OF a'(1) that(1)]
      by (simp add: fragment_raw assembly_shape_def)
    have "sourced \<lparr>ra_pending = fmupd m a' (ra_pending r)\<rparr> H"
      using src part True by (auto simp: sourced_def a'_def)
    moreover have "sourced \<lparr>ra_pending = fmdrop m (ra_pending r)\<rparr> H"
      using src by (auto simp: sourced_def split: if_splits)
    ultimately show ?thesis
      using join src True full shape_complete_length [OF a'(1)] a'(2) by (auto split: if_splits)
  next
    case False
    then have "fmlookup (ra_pending r) m = Some a" by (auto simp: a_def new_def split: option.splits)
    then have "\<lparr>ra_pending = fmupd m a (ra_pending r)\<rparr> = r" by (simp add: fmupd_same)
    then show ?thesis using join src False by (auto split: if_splits)
  qed
qed

lemma ra_push_sourced:
  assumes wf: "ra_wf r" and src: "sourced r H" and out: "ra_push r p now = (x, r')"
  shows "sourced r' (insert p H) \<and> (\<forall>k. x = Ok (Some k) \<longrightarrow>
    (\<forall>j<fragment_count (length (pk_payload k)).
       fragment (pk_service k) (pk_flow k) (message_of p) (pk_payload k) j \<in> insert p H))"
proof -
  let ?n = "unat (of_be (take 2 (drop 18 p)) :: u16)"
  let ?i = "unat (of_be (take 2 (drop 20 p)) :: u16)"
  have src': "sourced r (insert p H)" using src by (rule sourced_mono) auto
  show ?thesis
  proof (cases "HEADER \<le> length p \<and> ?n \<le> MAX_PAYLOAD \<and> ?i < fragment_count ?n \<and>
      length p - HEADER = min (?n - ?i * CHUNK) CHUNK")
    case False
    then show ?thesis using src' out by (auto simp: ra_push_def Let_def split: if_splits)
  next
    case valid: True
    note p = split_header [of p]
    show ?thesis
    proof (cases "fragment_count ?n = 1")
      case True
      then have n: "length (drop HEADER p) = ?n" "?i = 0" "?n \<le> CHUNK"
        using valid fragment_count_eq_1 [of ?n] by auto
      then have "chunk (drop HEADER p) 0 = drop HEADER p" by (simp add: chunk_def)
      then have "fragment (of_be (take 2 p)) (of_be (take 8 (drop 2 p))) (message_of p) (drop HEADER p) 0 = p"
        using p valid n by (simp add: fragment_raw message_of_def)
      then show ?thesis using src' out valid True n(1) by (auto simp: ra_push_def Let_def)
    next
      case False
      then have "ra_join (ra_expire r now) (of_be (take 2 p)) (of_be (take 8 (drop 2 p)))
          (message_of p) ?n ?i (drop HEADER p) now = (x, r')"
        using out valid by (simp add: ra_push_def Let_def message_of_def)
      with ra_wf_expire [OF wf] sourced_expire [OF src'] show ?thesis
        using valid p by (intro ra_join_sourced) (auto simp: message_of_def)
    qed
  qed
qed

lemma ra_reach_inv: "ra_reach r H \<Longrightarrow> ra_wf r \<and> sourced r H"
proof (induction rule: ra_reach.induct)
  case ra_start
  show ?case by (simp add: ra_wf_default) (simp add: sourced_def ra_default_def)
next
  case (ra_pushed r H p now x r')
  then show ?case using ra_push_wf ra_push_sourced by blast
next
  case (ra_expired r H now)
  then show ?case by (simp add: ra_wf_expire sourced_expire)
qed

section \<open>Properties\<close>

text \<open>
  C12: Reassembly under reordering and interleaving. The fragments of a message of at most 65507
  bytes arrive in any order, mixed with any other traffic of the session, within two seconds;
  the table holds nothing of the message yet and at most 128 messages are around. Then every
  fragment but the last to arrive is stored, and the last one delivers the original packet.
\<close>

theorem reassembly_any_interleaving:
  assumes len: "length payload \<le> MAX_PAYLOAD"
    and own: "distinct (own_indices as)" "set (own_indices as) = {..<fragment_count (length payload)}"
    and other: "foreign m as"
    and times: "\<forall>a\<in>set as. T \<le> snd a \<and> snd a < T + from_secs 2"
    and new: "fmlookup (ra_pending r) m = None"
    and room: "card (insert m (fset (fmdom (ra_pending r)) \<union>
        message_of ` fst ` set (map (wire (fragment service flow m payload)) as))) \<le> MAX_ASSEMBLIES"
  shows "own_results as (fst (ra_run r (map (wire (fragment service flow m payload)) as))) =
    replicate (fragment_count (length payload) - 1) (Ok None) @
    [Ok (Some \<lparr>pk_service = service, pk_flow = flow, pk_payload = payload\<rparr>)]"
proof -
  have count: "length (own_indices as) = fragment_count (length payload)"
    using own by (metis card_lessThan distinct_card)
  then have ne: "own_indices as \<noteq> []" by (metis fragment_count_pos length_0_conv less_irrefl)
  show ?thesis
  proof (cases "fragment_count (length payload) = 1")
    case True
    then have "set (own_indices as) = {0}" using own(2) by auto
    then have "own_indices as = [0]"
      using count True by (cases "own_indices as") auto
    moreover have "length payload \<le> CHUNK" using True fragment_count_eq_1 by blast
    ultimately show ?thesis using True by (simp only: reassembly_run_single) simp
  next
    case False
    have "underway r service flow m payload {} T" using new by (simp add: underway_def)
    from reassembly_run [OF len False _ room _ this ne own(1) _ other times] own(2) count
    show ?thesis by auto
  qed
qed

theorem reassembly_any_interleaving_witness:
  "own_results [(Inl 1, 5), (Inr [9], 6), (Inl 0, 7)]
     (fst (ra_run ra_default (map (wire (fragment 3 4 5 (replicate 1500 0)))
       [(Inl 1, 5), (Inr [9], 6), (Inl 0, 7)]))) =
   [Ok None, Ok (Some \<lparr>pk_service = 3, pk_flow = 4, pk_payload = replicate 1500 0\<rparr>)]"
proof -
  let ?as = "[(Inl 1, 5), (Inr [9], 6), (Inl 0, 7)] :: arrival list"
  have n: "fragment_count 1500 = 2"
    by (simp add: fragment_count_def div_ceil_def CHUNK_def)
  have nine: "message_of [9] = 0" by (simp add: message_of_def of_be_def)
  have sets: "set (own_indices ?as) = {..<fragment_count (length (replicate 1500 (0::byte)))}"
    by (auto simp: n)
  have "card (insert (5::u64) (fset (fmdom (ra_pending ra_default)) \<union>
      message_of ` fst ` set (map (wire (fragment 3 4 5 (replicate 1500 0))) ?as))) \<le> card {5, 0 :: u64}"
    by (intro card_mono) (auto simp: ra_default_def nine message_of_fragment)
  also have "\<dots> \<le> MAX_ASSEMBLIES" by (simp add: MAX_ASSEMBLIES_def)
  finally have room: "card (insert (5::u64) (fset (fmdom (ra_pending ra_default)) \<union>
      message_of ` fst ` set (map (wire (fragment 3 4 5 (replicate 1500 0))) ?as))) \<le> MAX_ASSEMBLIES" .
  have "own_results ?as (fst (ra_run ra_default (map (wire (fragment 3 4 5 (replicate 1500 0))) ?as))) =
      replicate (fragment_count (length (replicate 1500 (0::byte))) - 1) (Ok None) @
      [Ok (Some \<lparr>pk_service = 3, pk_flow = 4, pk_payload = replicate 1500 0\<rparr>)]"
    by (rule reassembly_any_interleaving [OF _ _ sets _ _ _ room, where T = 5])
       (simp_all add: MAX_PAYLOAD_def nine ra_default_def)
  then show ?thesis by (simp add: n del: own_results.simps)
qed

text \<open>
  C17: No partial and no mixed delivery. In every table a session can reach, a push hands out a
  packet only when every single fragment of exactly that packet (same service, flow, message id
  and length) has been received.
\<close>

theorem delivered_only_if_all_received:
  assumes "ra_reach r H" and "ra_push r p now = (Ok (Some k), r')"
    and "j < fragment_count (length (pk_payload k))"
  shows "fragment (pk_service k) (pk_flow k) (message_of p) (pk_payload k) j \<in> insert p H"
  using ra_push_sourced [OF _ _ assms(2)] ra_reach_inv [OF assms(1)] assms(3) by blast

theorem delivered_only_if_all_received_witness:
  "ra_push ra_default (fragment 3 4 5 [7, 8] 0) 0 =
     (Ok (Some \<lparr>pk_service = 3, pk_flow = 4, pk_payload = [7, 8]\<rparr>), ra_default) \<and>
   fragment 3 4 (message_of (fragment 3 4 5 [7, 8] 0)) [7, 8] 0 \<in> insert (fragment 3 4 5 [7, 8] 0) {}"
proof -
  have push: "ra_push ra_default (fragment 3 4 5 [7, 8] 0) 0 =
      (Ok (Some \<lparr>pk_service = 3, pk_flow = 4, pk_payload = [7, 8]\<rparr>), ra_default)"
    by (rule ra_push_single) (simp add: CHUNK_def)
  from delivered_only_if_all_received [OF ra_start push, of 0] push show ?thesis by simp
qed

text \<open>
  C29: Bounded reassembly. Whatever is received, a session never holds more than 128 incomplete
  messages; each has exactly one slot per fragment of its advertised length (so storing a
  fragment never indexes out of range) and together its parts never exceed that length, which
  is at most 65507 bytes.
\<close>

theorem reassembler_bounded:
  assumes "ra_reach r H"
  shows "hm_len (ra_pending r) \<le> 128 \<and>
    (\<forall>m a. fmlookup (ra_pending r) m = Some a \<longrightarrow>
       length (as_parts a) = fragment_count (as_length a) \<and>
       (\<Sum>v\<leftarrow>as_parts a. part_size v) \<le> as_length a \<and> as_length a \<le> 65507)"
  using ra_reach_inv [OF assms] shape_parts_sum
  by (auto simp: ra_wf_def assembly_shape_def datagram_constants)

theorem reassembler_bounded_witness:
  "ra_reach ra_default {} \<and> hm_len (ra_pending ra_default) \<le> 128"
  using reassembler_bounded [OF ra_start] ra_start by simp

text \<open>
  Datagram size. Every sealed fragment of a message is at most 1046 bytes, the maximum the
  protocol document gives for a QUIC DATAGRAM payload.
\<close>

lemma sealed_fragment_size:
  assumes "stateless_correct A (dc_state c) k'" "dc_next c < nonce_limit"
  shows "\<exists>d c'. dc_seal A c (fragment service flow m payload i) = (Ok d, c') \<and>
    24 + HEADER \<le> length d \<and> length d \<le> 1046"
proof -
  let ?f = "fragment service flow m payload i"
  have "length ?f \<le> 65519" by (simp add: length_fragment HEADER_def CHUNK_def)
  from dc_seal_correct [OF assms this] obtain x where
    "dc_seal A c ?f = (Ok (u64_be (dc_next c) @ x), c\<lparr>dc_next := dc_next c + 1\<rparr>)"
    "length x = length ?f + 16"
    by blast
  then show ?thesis by (simp add: length_fragment HEADER_def CHUNK_def)
qed

text \<open>
  C35: What a successful send puts on the wire. If \<open>Sender::send\<close> returns \<open>Ok\<close>, exactly the
  fragments of the payload, in order, each sealed under its own nonce, have been queued behind
  the earlier datagrams, and the message id has advanced by one without wrapping.
\<close>

theorem send_emits_all_fragments:
  assumes "conn_queues N sent" and "send_payload A N s conn service flow payload = (Ok (), s', conn')"
  shows "\<exists>ds. sent conn' = sent conn @ ds \<and>
    dc_seal_all A (sn_crypto s) (map (fragment service flow (sn_next_message s) payload)
      [0..<fragment_count (length payload)]) = map Ok ds \<and>
    unat (sn_next_message s') = unat (sn_next_message s) + 1"
proof -
  let ?ps = "map (fragment service flow (sn_next_message s) payload) [0..<fragment_count (length payload)]"
  obtain next' crypto' where ok: "checked_succ (sn_next_message s) = Some next'"
    "send_fragments A N (sn_crypto s) conn ?ps = (Ok (), crypto', conn')"
    "s' = \<lparr>sn_crypto = crypto', sn_next_message = next'\<rparr>"
    using assms(2) by (auto simp: send_payload_def Let_def split: if_splits option.splits prod.splits)
  from send_fragments_Ok [OF assms(1) ok(2)] checked_succ_Some [OF ok(1)] ok(3) show ?thesis by auto
qed

theorem send_emits_all_fragments_witness:
  "\<exists>s' out. send_payload sample_aead log_conn (sender_new (dc_new ())) [] 3 4 [7, 8] = (Ok (), s', out) \<and>
    (\<exists>ds. out = [] @ ds \<and>
      dc_seal_all sample_aead (dc_new ()) (map (fragment 3 4 0 [7, 8]) [0..<1]) = map Ok ds)"
proof -
  have len: "fragment_count (Suc (Suc 0)) = 1" by (simp add: fragment_count_eq_1 [simplified] CHUNK_def)
  have "length (fragment 3 4 0 [7, 8] 0) = 24" by (simp add: length_fragment HEADER_def CHUNK_def)
  then have "\<exists>c out. send_fragments sample_aead log_conn (dc_new ()) [] [fragment 3 4 0 [7, 8] 0] =
      (Ok (), c, out)"
    by (simp add: dc_seal_def nonce_limit_eq sample_aead_def log_conn_def Let_def)
  then obtain s' out where run:
    "send_payload sample_aead log_conn (sender_new (dc_new ())) [] 3 4 [7, 8] = (Ok (), s', out)"
    by (auto simp: send_payload_def len MAX_PAYLOAD_def sender_new_def checked_succ_def)
  from send_emits_all_fragments [OF log_conn_queues run] run len show ?thesis
    by (simp add: sender_new_def)
qed

end
