(* ===== verification/Udp_Tunnel.thy ===== *)
theory Udp_Tunnel
  imports Datagram
begin

text \<open>
  The UDP path from one end to the other. The sending side is \<open>Sender::send\<close>
  (\<open>src/datagram.rs\<close>) as it runs in a session, where the listeners of several services send at
  the same time: a call takes its message id and then seals its fragments one by one, and
  other calls interleave between any two of these steps. The receiving side is \<open>read_packet\<close>
  (\<open>src/proxy.rs\<close>) inside the session loop, whose timer expires assemblies between datagrams.
  The network in between may lose, reorder, duplicate and invent datagrams.
\<close>

section \<open>Concurrent senders\<close>

record send_job =
  jb_service :: u16
  jb_flow :: u64
  jb_message :: u64
  jb_payload :: bytes
  jb_next :: nat
  jb_open :: bool

record ('k, 'c) tunnel_tx =
  tx_sender :: "'k sender"
  tx_conn :: 'c
  tx_jobs :: "send_job list"

definition job_fragment :: "send_job \<Rightarrow> nat \<Rightarrow> bytes" where
  "job_fragment job i = fragment (jb_service job) (jb_flow job) (jb_message job) (jb_payload job) i"

text \<open>
  \<open>Begin\<close> is a call of \<open>send\<close> up to the loop; \<open>Emit j\<close> is the next round of the loop of the
  \<open>j\<close>-th call: \<open>jb_open\<close> is false once that call has returned.
\<close>

datatype tx_event = Begin u16 u64 bytes | Emit nat

fun tx_step :: "'k stateless_api \<Rightarrow> 'c datagram_conn \<Rightarrow> tx_event \<Rightarrow> ('k, 'c) tunnel_tx \<Rightarrow> ('k, 'c) tunnel_tx" where
  "tx_step A N (Begin service flow payload) st =
     (if \<not> length payload \<le> MAX_PAYLOAD then st else
      case checked_succ (sn_next_message (tx_sender st)) of
        None \<Rightarrow> st
      | Some next' \<Rightarrow> st\<lparr>tx_sender := (tx_sender st)\<lparr>sn_next_message := next'\<rparr>,
          tx_jobs := tx_jobs st @ [\<lparr>jb_service = service, jb_flow = flow,
            jb_message = sn_next_message (tx_sender st), jb_payload = payload,
            jb_next = 0, jb_open = True\<rparr>]\<rparr>)"
| "tx_step A N (Emit j) st =
     (if \<not> j < length (tx_jobs st) then st else
      let job = tx_jobs st ! j in
      if \<not> jb_open job then st else
      if \<not> jb_next job < fragment_count (length (jb_payload job))
      then st\<lparr>tx_jobs := (tx_jobs st)[j := job\<lparr>jb_open := False\<rparr>]\<rparr> else
      case dc_seal A (sn_crypto (tx_sender st))
          (job_fragment job (jb_next job)) of
        (Err e, crypto') \<Rightarrow> st\<lparr>tx_sender := (tx_sender st)\<lparr>sn_crypto := crypto'\<rparr>,
          tx_conn := cn_close N (tx_conn st) 1 ''Noise key renewal required'',
          tx_jobs := (tx_jobs st)[j := job\<lparr>jb_open := False\<rparr>]\<rparr>
      | (Ok d, crypto') \<Rightarrow>
          (case cn_send N (tx_conn st) d of
             (Err e, conn') \<Rightarrow> st\<lparr>tx_sender := (tx_sender st)\<lparr>sn_crypto := crypto'\<rparr>,
               tx_conn := conn', tx_jobs := (tx_jobs st)[j := job\<lparr>jb_open := False\<rparr>]\<rparr>
           | (Ok _, conn') \<Rightarrow> st\<lparr>tx_sender := (tx_sender st)\<lparr>sn_crypto := crypto'\<rparr>,
               tx_conn := conn', tx_jobs := (tx_jobs st)[j := job\<lparr>jb_next := Suc (jb_next job)\<rparr>]\<rparr>))"

definition tx_new :: "'k datagram_crypto \<Rightarrow> 'c \<Rightarrow> ('k, 'c) tunnel_tx" where
  "tx_new crypto conn = \<lparr>tx_sender = sender_new crypto, tx_conn = conn, tx_jobs = []\<rparr>"

definition tx_run :: "'k stateless_api \<Rightarrow> 'c datagram_conn \<Rightarrow> tx_event list \<Rightarrow> ('k, 'c) tunnel_tx \<Rightarrow> ('k, 'c) tunnel_tx" where
  "tx_run A N evs st = fold (tx_step A N) evs st"

text \<open>The messages a run has begun, by message id.\<close>

definition message_table :: "send_job list \<Rightarrow> u64 \<Rightarrow> packet option" where
  "message_table jobs = map_of (map (\<lambda>job. (jb_message job,
     \<lparr>pk_service = jb_service job, pk_flow = jb_flow job, pk_payload = jb_payload job\<rparr>)) jobs)"

section \<open>The receiving loop\<close>

text \<open>One round of the loop of \<open>read_packet\<close>, and the loop over the datagrams that arrive.\<close>

definition packet_iter :: "'k stateless_api \<Rightarrow> 'k datagram_crypto \<Rightarrow> reassembler \<Rightarrow> bytes \<Rightarrow> instant
    \<Rightarrow> packet option \<times> 'k datagram_crypto \<times> reassembler" where
  "packet_iter A c ra d now =
     (case dc_open A c d of
        (Err e, c') \<Rightarrow> (None, c', ra)
      | (Ok p, c') \<Rightarrow>
          (case ra_push ra p now of
             (Ok (Some k), ra') \<Rightarrow> (Some k, c', ra')
           | (Ok None, ra') \<Rightarrow> (None, c', ra')
           | (Err e, ra') \<Rightarrow> (None, c', ra')))"

text \<open>\<open>None\<close> in place of the result: still waiting for a datagram.\<close>

fun read_packet :: "'k stateless_api \<Rightarrow> 'k datagram_crypto \<Rightarrow> reassembler \<Rightarrow> (bytes result \<times> instant) list
    \<Rightarrow> packet result option \<times> 'k datagram_crypto \<times> reassembler \<times> (bytes result \<times> instant) list" where
  "read_packet A c ra [] = (None, c, ra, [])"
| "read_packet A c ra ((Err e, now) # rest) = (Some (Err e), c, ra, rest)"
| "read_packet A c ra ((Ok d, now) # rest) =
     (case packet_iter A c ra d now of
        (Some k, c', ra') \<Rightarrow> (Some (Ok k), c', ra', rest)
      | (None, c', ra') \<Rightarrow> read_packet A c' ra' rest)"

text \<open>
  The session loop as the UDP path sees it. A datagram is one round of \<open>read_packet\<close>, which
  \<open>select!\<close> may suspend between rounds; a tick expires assemblies. The result is what
  \<open>read_packet\<close> returned, with the datagram that completed it.
\<close>

datatype rx_event = Datagram bytes instant | Tick instant

fun rx_run :: "'k stateless_api \<Rightarrow> 'k datagram_crypto \<Rightarrow> reassembler \<Rightarrow> rx_event list \<Rightarrow> packet list" where
  "rx_run A c ra [] = []"
| "rx_run A c ra (Tick now # evs) = rx_run A c (ra_expire ra now) evs"
| "rx_run A c ra (Datagram d now # evs) =
     (case packet_iter A c ra d now of
        (Some k, c', ra') \<Rightarrow> k # rx_run A c' ra' evs
      | (None, c', ra') \<Rightarrow> rx_run A c' ra' evs)"

fun datagrams :: "rx_event list \<Rightarrow> bytes list" where
  "datagrams [] = []"
| "datagrams (Tick now # evs) = datagrams evs"
| "datagrams (Datagram d now # evs) = d # datagrams evs"

text \<open>All within the two seconds an assembly lives that starts at \<open>T\<close>.\<close>

definition event_within :: "instant \<Rightarrow> rx_event \<Rightarrow> bool" where
  "event_within T ev \<longleftrightarrow> (case ev of Datagram d t \<Rightarrow> T \<le> t \<and> t < T + from_secs 2 | Tick t \<Rightarrow> t < T + from_secs 2)"

text \<open>
  What the ideal cipher gives: of the datagrams that arrive, only those the peer sent are
  authentic.
\<close>

definition unforged :: "'k stateless_api \<Rightarrow> 'k \<Rightarrow> bytes list \<Rightarrow> bytes list \<Rightarrow> bool" where
  "unforged A k' arrived sent \<longleftrightarrow> (\<forall>d \<in> set arrived. authentic A k' d \<longrightarrow> d \<in> set sent)"

text \<open>
  The same loop with the decryption factored out: the fragments pushed, and what is delivered
  together with the fragment that completed it.
\<close>

fun opened :: "'k stateless_api \<Rightarrow> 'k datagram_crypto \<Rightarrow> rx_event list \<Rightarrow> rx_event list" where
  "opened A c [] = []"
| "opened A c (Tick now # evs) = Tick now # opened A c evs"
| "opened A c (Datagram d now # evs) =
     (case dc_open A c d of
        (Err e, c') \<Rightarrow> opened A c' evs
      | (Ok p, c') \<Rightarrow> Datagram p now # opened A c' evs)"

fun deliveries :: "reassembler \<Rightarrow> rx_event list \<Rightarrow> (bytes \<times> packet) list" where
  "deliveries ra [] = []"
| "deliveries ra (Tick now # evs) = deliveries (ra_expire ra now) evs"
| "deliveries ra (Datagram p now # evs) =
     (case ra_push ra p now of
        (Ok (Some k), ra') \<Rightarrow> (p, k) # deliveries ra' evs
      | (Ok None, ra') \<Rightarrow> deliveries ra' evs
      | (Err e, ra') \<Rightarrow> deliveries ra' evs)"

fun oks :: "'a result list \<Rightarrow> 'a list" where
  "oks [] = []"
| "oks (Ok x # rs) = x # oks rs"
| "oks (Err e # rs) = oks rs"

text \<open>
  The state of the sending side: message ids count the calls, the datagrams handed to the
  connection are the sealed forms of the fragments emitted so far, no fragment is sealed twice
  and no nonce used twice.
\<close>

definition sealed_as :: "'k stateless_api \<Rightarrow> 'k \<Rightarrow> bytes \<Rightarrow> bytes \<Rightarrow> bool" where
  "sealed_as A k d f \<longleftrightarrow> (\<exists>n c. n < nonce_limit \<and> d = u64_be n @ c \<and> sl_write A k n f (length f + 16) = Ok c)"

definition jobs_wf :: "send_job list \<Rightarrow> bool" where
  "jobs_wf jobs \<longleftrightarrow> (\<forall>j<length jobs. unat (jb_message (jobs ! j)) = j \<and>
     length (jb_payload (jobs ! j)) \<le> MAX_PAYLOAD \<and>
     jb_next (jobs ! j) \<le> fragment_count (length (jb_payload (jobs ! j))))"

definition emitted :: "send_job list \<Rightarrow> bytes set" where
  "emitted jobs = {job_fragment (jobs ! j) i | j i. j < length jobs \<and> i < jb_next (jobs ! j)}"

definition tx_inv :: "'k stateless_api \<Rightarrow> ('c \<Rightarrow> bytes list) \<Rightarrow> 'k \<Rightarrow> ('k, 'c) tunnel_tx \<Rightarrow> bool" where
  "tx_inv A sent k st \<longleftrightarrow> jobs_wf (tx_jobs st) \<and>
     unat (sn_next_message (tx_sender st)) = length (tx_jobs st) \<and>
     dc_state (sn_crypto (tx_sender st)) = k \<and>
     distinct (map nonce_of (sent (tx_conn st))) \<and>
     (\<forall>d \<in> set (sent (tx_conn st)). nonce_of d < dc_next (sn_crypto (tx_sender st))) \<and>
     (\<exists>fs. distinct fs \<and> set fs = emitted (tx_jobs st) \<and> list_all2 (sealed_as A k) (sent (tx_conn st)) fs)"

text \<open>The datagrams that carry the fragments of one call.\<close>

definition carriers :: "'k stateless_api \<Rightarrow> 'k \<Rightarrow> bytes list \<Rightarrow> send_job \<Rightarrow> bytes set" where
  "carriers A k sent job = {d \<in> set sent. \<exists>i<fragment_count (length (jb_payload job)).
     sealed_as A k d (job_fragment job i)}"

text \<open>The fragments of the messages in a table.\<close>

definition fragments_of :: "(u64 \<Rightarrow> packet option) \<Rightarrow> bytes set" where
  "fragments_of tab = {fragment (pk_service k) (pk_flow k) m (pk_payload k) i | m k i.
     tab m = Some k \<and> length (pk_payload k) \<le> MAX_PAYLOAD \<and> i < fragment_count (length (pk_payload k))}"

section \<open>Fragments determine their message\<close>

lemma fragment_inject:
  assumes eq: "fragment s f m pl i = fragment s' f' m' pl' i'"
    and len: "length pl \<le> MAX_PAYLOAD" "length pl' \<le> MAX_PAYLOAD"
    and idx: "i < fragment_count (length pl)" "i' < fragment_count (length pl')"
  shows "s = s'" "f = f'" "m = m'" "length pl = length pl'" "i = i'" "chunk pl i = chunk pl' i'"
proof -
  have parts: "s = s'" "f = f'" "m = m'"
    "(word_of_nat (length pl) :: u16) = word_of_nat (length pl')" "(word_of_nat i :: u16) = word_of_nat i'"
    "chunk pl i = chunk pl' i'"
    using eq by (simp_all add: fragment_eq)
  have "length pl < 65536" "length pl' < 65536" "i < 65536" "i' < 65536"
    using len idx fragment_count_le [OF len(1)] fragment_count_le [OF len(2)] by (auto simp: MAX_PAYLOAD_def)
  then show "s = s'" "f = f'" "m = m'" "length pl = length pl'" "i = i'" "chunk pl i = chunk pl' i'"
    using parts by (metis unat_u16_of_nat)+
qed

lemma payload_eqI:
  assumes "length pl = length pl'" "\<And>i. i < fragment_count (length pl) \<Longrightarrow> chunk pl i = chunk pl' i"
  shows "pl = pl'"
proof -
  have "concat (map (chunk pl) [0..<fragment_count (length pl)]) =
      concat (map (chunk pl') [0..<fragment_count (length pl')])"
    using assms by (metis (no_types, lifting) map_cong atLeastLessThan_iff set_upt)
  then show ?thesis by (simp add: concat_chunks)
qed

text \<open>If all fragments of a packet were sent as fragments of message \<open>m\<close>, it is message \<open>m\<close>.\<close>

lemma fragments_identify:
  assumes all: "\<And>j. j < fragment_count (length (pk_payload k)) \<Longrightarrow>
      fragment (pk_service k) (pk_flow k) m (pk_payload k) j \<in> fragments_of tab"
    and len: "length (pk_payload k) \<le> MAX_PAYLOAD"
  shows "tab m = Some k"
proof -
  have one: "\<exists>k'. tab m = Some k' \<and> pk_service k' = pk_service k \<and> pk_flow k' = pk_flow k \<and>
      length (pk_payload k') = length (pk_payload k) \<and> chunk (pk_payload k') j = chunk (pk_payload k) j"
    if j: "j < fragment_count (length (pk_payload k))" for j
  proof -
    obtain m' k' i where e: "fragment (pk_service k) (pk_flow k) m (pk_payload k) j =
        fragment (pk_service k') (pk_flow k') m' (pk_payload k') i"
      "tab m' = Some k'" "length (pk_payload k') \<le> MAX_PAYLOAD" "i < fragment_count (length (pk_payload k'))"
      using all [OF j] unfolding fragments_of_def by blast
    from fragment_inject [OF e(1) len e(3) j e(4)] e(2) show ?thesis by metis
  qed
  then obtain k' where k': "tab m = Some k'" "pk_service k' = pk_service k" "pk_flow k' = pk_flow k"
    "length (pk_payload k') = length (pk_payload k)" by (meson fragment_count_pos)
  have "pk_payload k' = pk_payload k"
    by (rule payload_eqI) (use one k' in fastforce)+
  then show ?thesis using k' by simp
qed

section \<open>What is delivered, and how often\<close>

lemma ra_push_len:
  assumes "ra_wf r" "ra_push r p now = (Ok (Some k), r')"
  shows "length (pk_payload k) \<le> MAX_PAYLOAD"
proof -
  have "unat (of_be (take 2 (drop 18 p)) :: u16) \<le> MAX_PAYLOAD"
    using assms(2) by (auto simp: ra_push_def Let_def split: if_splits)
  then show ?thesis using ra_push_wf [OF assms] by simp
qed

lemma ra_push_drops:
  assumes "ra_wf r" "ra_push r p now = (Ok (Some k), r')" "fragment_count (length (pk_payload k)) \<noteq> 1"
  shows "fmlookup (ra_pending r') (message_of p) = None"
proof -
  have "length (pk_payload k) = unat (of_be (take 2 (drop 18 p)) :: u16)" using ra_push_wf [OF assms(1,2)] by simp
  then show ?thesis
    using assms(2,3)
    by (auto simp: ra_push_def ra_join_def Let_def message_of_def split: if_splits option.splits)
qed

lemma message_of_raw [simp]: "message_of (raw_fragment s f m n i b) = m"
  by (simp add: message_of_def raw_fragment_def)

lemma sourced_without:
  "sourced r H \<Longrightarrow> fmlookup (ra_pending r) m = None \<Longrightarrow> sourced r {q \<in> H. message_of q \<noteq> m}"
  by (auto simp: sourced_def)

text \<open>Each push of a step of the loop keeps the invariants; ticks as well.\<close>

lemma deliveries_Datagram:
  assumes "ra_wf r" "sourced r H"
  obtains x r' where "ra_push r p now = (x, r')" "ra_wf r'" "sourced r' (insert p H)"
    "deliveries r (Datagram p now # evs) =
       (case x of Ok (Some k) \<Rightarrow> [(p, k)] | _ \<Rightarrow> []) @ deliveries r' evs"
proof -
  obtain x r' where push: "ra_push r p now = (x, r')" by fastforce
  have "deliveries r (Datagram p now # evs) =
       (case x of Ok (Some k) \<Rightarrow> [(p, k)] | _ \<Rightarrow> []) @ deliveries r' evs"
    using push by (simp split: result.splits option.splits)
  then show ?thesis using that push ra_push_wf [OF assms(1) push] ra_push_sourced [OF assms push] by blast
qed

lemma deliveries_sourced:
  "ra_wf r \<Longrightarrow> sourced r H \<Longrightarrow> (p, k) \<in> set (deliveries r evs) \<Longrightarrow>
   p \<in> set (datagrams evs) \<and> length (pk_payload k) \<le> MAX_PAYLOAD \<and>
   (\<forall>j<fragment_count (length (pk_payload k)).
      fragment (pk_service k) (pk_flow k) (message_of p) (pk_payload k) j \<in> H \<union> set (datagrams evs))"
proof (induction evs arbitrary: r H rule: datagrams.induct)
  case 1
  then show ?case by simp
next
  case (2 now evs)
  then show ?case using 2(1) [OF ra_wf_expire [OF 2(2)] sourced_expire [OF 2(3)]] by simp
next
  case (3 q now evs)
  obtain x r' where push: "ra_push r q now = (x, r')" "ra_wf r'" "sourced r' (insert q H)"
    "deliveries r (Datagram q now # evs) = (case x of Ok (Some k) \<Rightarrow> [(q, k)] | _ \<Rightarrow> []) @ deliveries r' evs"
    using deliveries_Datagram [OF 3(2,3)] by metis
  show ?case
  proof (cases "(p, k) \<in> set (deliveries r' evs)")
    case True
    from 3(1) [OF push(2,3) this] show ?thesis by auto
  next
    case False
    then have "x = Ok (Some k)" "p = q"
      using 3(4) unfolding push(4) by (auto split: result.splits option.splits)
    then show ?thesis
      using ra_push_len [OF 3(2)] ra_push_sourced [OF 3(2,3)] push(1) by fastforce
  qed
qed

text \<open>
  With every fragment of a message table pushed at most once, every message of the table is
  delivered at most once, and nothing else is.
\<close>

lemma no_redelivery:
  assumes wf: "ra_wf r" and src: "sourced r H" and push: "ra_push r p now = (Ok (Some k), r')"
    and tab: "insert p H \<union> set (datagrams evs) \<subseteq> fragments_of tab"
    and fresh: "insert p H \<inter> set (datagrams evs) = {}"
    and again: "(p', k') \<in> set (deliveries r' evs)"
  shows "message_of p' \<noteq> message_of p"
proof
  let ?m = "message_of p"
  assume m: "message_of p' = ?m"
  have wf': "ra_wf r'" and src': "sourced r' (insert p H)"
    using ra_push_wf [OF wf push] ra_push_sourced [OF wf src push] by blast+
  have k: "tab ?m = Some k"
    by (rule fragments_identify) (use ra_push_sourced [OF wf src push] tab ra_push_len [OF wf push] in blast)+
  note later = deliveries_sourced [OF wf' src' again, unfolded m]
  have "tab ?m = Some k'" by (rule fragments_identify) (use later tab in blast)+
  then have k': "k' = k" using k by simp
  let ?z = "fragment (pk_service k) (pk_flow k) ?m (pk_payload k) 0"
  have z: "?z \<in> insert p H" using ra_push_sourced [OF wf src push] by simp
  show False
  proof (cases "fragment_count (length (pk_payload k)) = 1")
    case True
    have "p' \<in> fragments_of tab" using later tab by blast
    then have "p' = ?z" using m k True by (auto simp: fragments_of_def)
    then show False using later z fresh by blast
  next
    case False
    have "sourced r' {q \<in> insert p H. message_of q \<noteq> ?m}"
      using sourced_without [OF src' ra_push_drops [OF wf push False]] .
    from deliveries_sourced [OF wf' this again, unfolded m] k'
    have "?z \<in> {q \<in> insert p H. message_of q \<noteq> ?m} \<union> set (datagrams evs)" by simp
    then show False using z fresh by auto
  qed
qed

lemma deliveries_distinct:
  "ra_wf r \<Longrightarrow> sourced r H \<Longrightarrow> H \<union> set (datagrams evs) \<subseteq> fragments_of tab \<Longrightarrow>
   distinct (datagrams evs) \<Longrightarrow> H \<inter> set (datagrams evs) = {} \<Longrightarrow>
   distinct (map (\<lambda>(p, k). message_of p) (deliveries r evs))"
proof (induction evs arbitrary: r H rule: datagrams.induct)
  case 1
  then show ?case by simp
next
  case (2 now evs)
  then show ?case using 2(1) [OF ra_wf_expire [OF 2(2)] sourced_expire [OF 2(3)]] by simp
next
  case (3 p now evs)
  obtain x r' where push: "ra_push r p now = (x, r')" "ra_wf r'" "sourced r' (insert p H)"
    "deliveries r (Datagram p now # evs) = (case x of Ok (Some k) \<Rightarrow> [(p, k)] | _ \<Rightarrow> []) @ deliveries r' evs"
    using deliveries_Datagram [OF 3(2,3)] by metis
  have side: "insert p H \<union> set (datagrams evs) \<subseteq> fragments_of tab" "insert p H \<inter> set (datagrams evs) = {}"
    "distinct (datagrams evs)" using 3(4-6) by auto
  have IH: "distinct (map (\<lambda>(p, k). message_of p) (deliveries r' evs))"
    by (rule 3(1) [OF push(2,3)]) (use side in auto)
  show ?case
  proof (cases "\<exists>k. x = Ok (Some k)")
    case True
    then obtain k where x: "x = Ok (Some k)" by blast
    then have "message_of p' \<noteq> message_of p" if "(p', k') \<in> set (deliveries r' evs)" for p' k'
      using no_redelivery [OF 3(2,3) _ side(1,2) that] push(1) by blast
    then have "message_of p \<notin> set (map (\<lambda>(p, k). message_of p) (deliveries r' evs))" by fastforce
    then show ?thesis using IH unfolding push(4) x by simp
  next
    case False
    then show ?thesis using IH unfolding push(4) by (auto split: result.splits option.splits)
  qed
qed

lemma deliveries_identified:
  assumes "ra_wf r" "sourced r H" "H \<union> set (datagrams evs) \<subseteq> fragments_of tab"
    and "(p, k) \<in> set (deliveries r evs)"
  shows "tab (message_of p) = Some k"
  by (rule fragments_identify) (use deliveries_sourced [OF assms(1,2,4)] assms(3) in blast)+

section \<open>The receiving loop, decryption factored out\<close>

lemma rx_run_deliveries: "rx_run A c ra evs = map snd (deliveries ra (opened A c evs))"
  by (induction A c ra evs rule: rx_run.induct)
     (auto simp: packet_iter_def split: prod.splits result.splits option.splits)

lemma opened_datagrams: "datagrams (opened A c evs) = oks (dc_open_all A c (datagrams evs))"
  by (induction A c evs rule: opened.induct) (auto split: prod.splits result.splits)

lemma set_oks: "x \<in> set (oks rs) \<longleftrightarrow> Ok x \<in> set rs"
  by (induction rs rule: oks.induct) auto

lemma distinct_oks:
  "(\<And>i j x y. i < j \<Longrightarrow> j < length rs \<Longrightarrow> rs ! i = Ok x \<Longrightarrow> rs ! j = Ok y \<Longrightarrow> x \<noteq> y) \<Longrightarrow> distinct (oks rs)"
proof (induction rs rule: oks.induct)
  case (2 x rs)
  have "x \<notin> set (oks rs)"
  proof
    assume "x \<in> set (oks rs)"
    then obtain j where "j < length rs" "rs ! j = Ok x" by (metis set_oks in_set_conv_nth)
    then show False using 2(2) [of 0 "Suc j" x x] by simp
  qed
  moreover have "distinct (oks rs)" using 2(1) 2(2) [of "Suc _" "Suc _"] by simp
  ultimately show ?case by simp
next
  case (3 e rs)
  then show ?case using 3(2) [of "Suc _" "Suc _"] by simp
qed simp

section \<open>The sending side\<close>

lemma snow_write:
  assumes "stateless_correct A k k'" "sl_write A k n f (length f + 16) = Ok c" "length f \<le> 65519"
  shows "length c = length f + 16" "length c \<le> cap \<Longrightarrow> sl_read A k' n c cap = Ok f"
proof -
  have "length f + 16 \<le> 65535" using assms(3) by simp
  then obtain c' where "sl_write A k n f (length f + 16) = Ok c'" "length c' = length f + 16"
    "\<forall>cap. length c' \<le> cap \<longrightarrow> sl_read A k' n c' cap = Ok f"
    using assms(1) unfolding stateless_correct_def by blast
  then show "length c = length f + 16" "length c \<le> cap \<Longrightarrow> sl_read A k' n c cap = Ok f"
    using assms(2) by simp_all
qed

lemma sealed_as_read:
  assumes "stateless_correct A k k'" "sealed_as A k d f" "length f \<le> 65519"
  shows "sl_read A k' (nonce_of d) (drop 8 d) (length d - 8) = Ok f"
  using assms(2) snow_write(2) [OF assms(1) _ assms(3)] by (auto simp: sealed_as_def)

lemma dc_seal_sealed_as:
  "dc_seal A c f = (Ok d, c') \<Longrightarrow> sealed_as A (dc_state c) d f"
  by (auto simp: dc_seal_def sealed_as_def Let_def split: if_splits result.splits)

lemma dc_seal_state: "dc_seal A c f = (x, c') \<Longrightarrow> dc_state c' = dc_state c"
  by (auto simp: dc_seal_def Let_def split: if_splits result.splits)

lemma job_fragment_inject:
  assumes "jobs_wf jobs" "j < length jobs" "j' < length jobs"
    and "i < fragment_count (length (jb_payload (jobs ! j)))" "i' < fragment_count (length (jb_payload (jobs ! j')))"
    and "job_fragment (jobs ! j) i = job_fragment (jobs ! j') i'"
  shows "j = j' \<and> i = i'"
  using fragment_inject(3,5) [OF assms(6) [unfolded job_fragment_def]] assms(1-5) unfolding jobs_wf_def by metis

lemma emitted_update_open:
  assumes "j < length jobs"
  shows "emitted (jobs[j := (jobs ! j)\<lparr>jb_open := b\<rparr>]) = emitted jobs"
proof -
  have "job_fragment (jobs[j := (jobs ! j)\<lparr>jb_open := b\<rparr>] ! l) = job_fragment (jobs ! l)"
    "jb_next (jobs[j := (jobs ! j)\<lparr>jb_open := b\<rparr>] ! l) = jb_next (jobs ! l)" for l
    using assms by (cases "l = j"; simp add: fun_eq_iff job_fragment_def)+
  then show ?thesis by (simp add: emitted_def)
qed

lemma emitted_update_next:
  assumes j: "j < length jobs"
  shows "emitted (jobs[j := (jobs ! j)\<lparr>jb_next := Suc (jb_next (jobs ! j))\<rparr>]) =
    insert (job_fragment (jobs ! j) (jb_next (jobs ! j))) (emitted jobs)" (is "emitted ?new = insert ?f _")
proof -
  have same: "job_fragment (?new ! l) = job_fragment (jobs ! l)"
    "jb_next (?new ! l) = (if l = j then Suc (jb_next (jobs ! l)) else jb_next (jobs ! l))" for l
    using j by (cases "l = j"; simp add: fun_eq_iff job_fragment_def)+
  show ?thesis
  proof (intro set_eqI iffI)
    fix f assume "f \<in> emitted ?new"
    then obtain l i where "l < length jobs" "i < jb_next (?new ! l)" "f = job_fragment (jobs ! l) i"
      by (auto simp: emitted_def same(1))
    then show "f \<in> insert ?f (emitted jobs)"
      by (cases "l = j \<and> i = jb_next (jobs ! j)") (auto simp: emitted_def same(2) less_Suc_eq split: if_splits)
  next
    fix f assume "f \<in> insert ?f (emitted jobs)"
    then have "\<exists>l i. l < length jobs \<and> i < jb_next (?new ! l) \<and> f = job_fragment (jobs ! l) i"
    proof
      assume "f = ?f"
      show ?thesis
        by (rule exI [of _ j], rule exI [of _ "jb_next (jobs ! j)"]) (use j same(2) \<open>f = ?f\<close> in simp)
    next
      assume "f \<in> emitted jobs"
      then obtain l i where l: "l < length jobs" "i < jb_next (jobs ! l)" "f = job_fragment (jobs ! l) i"
        by (auto simp: emitted_def)
      show ?thesis by (rule exI [of _ l], rule exI [of _ i]) (use l same(2) in auto)
    qed
    then show "f \<in> emitted ?new" unfolding emitted_def by (auto simp: same(1))
  qed
qed

lemma emitted_append:
  assumes "jb_next job = 0"
  shows "emitted (jobs @ [job]) = emitted jobs"
proof -
  have "l < length (jobs @ [job]) \<and> i < jb_next ((jobs @ [job]) ! l) \<longleftrightarrow> l < length jobs \<and> i < jb_next (jobs ! l)" for l i
    using assms by (auto simp: nth_append less_Suc_eq)
  then show ?thesis unfolding emitted_def by (metis (no_types, lifting) nth_append)
qed

lemma jobs_wf_update:
  assumes "jobs_wf jobs" "j < length jobs" "job' = (jobs ! j)\<lparr>jb_next := n\<rparr> \<or> job' = (jobs ! j)\<lparr>jb_open := b\<rparr>"
    and "jb_next job' \<le> fragment_count (length (jb_payload job'))"
  shows "jobs_wf (jobs[j := job'])"
  using assms unfolding jobs_wf_def by (auto simp: nth_list_update)

lemma tx_invI:
  "jobs_wf (tx_jobs st) \<Longrightarrow> unat (sn_next_message (tx_sender st)) = length (tx_jobs st) \<Longrightarrow>
   dc_state (sn_crypto (tx_sender st)) = k \<Longrightarrow> distinct (map nonce_of (sent (tx_conn st))) \<Longrightarrow>
   (\<And>d. d \<in> set (sent (tx_conn st)) \<Longrightarrow> nonce_of d < dc_next (sn_crypto (tx_sender st))) \<Longrightarrow>
   distinct fs \<Longrightarrow> set fs = emitted (tx_jobs st) \<Longrightarrow>
   list_all2 (sealed_as A k) (sent (tx_conn st)) fs \<Longrightarrow> tx_inv A sent k st"
  unfolding tx_inv_def by blast

lemma tx_invE:
  assumes "tx_inv A sent k st"
  obtains fs where "jobs_wf (tx_jobs st)" "unat (sn_next_message (tx_sender st)) = length (tx_jobs st)"
    "dc_state (sn_crypto (tx_sender st)) = k" "distinct (map nonce_of (sent (tx_conn st)))"
    "\<And>d. d \<in> set (sent (tx_conn st)) \<Longrightarrow> nonce_of d < dc_next (sn_crypto (tx_sender st))"
    "distinct fs" "set fs = emitted (tx_jobs st)" "list_all2 (sealed_as A k) (sent (tx_conn st)) fs"
  using assms unfolding tx_inv_def by blast

lemma tx_inv_new: "sent conn = [] \<Longrightarrow> tx_inv A sent (dc_state crypto) (tx_new crypto conn)"
  by (rule tx_invI [where fs = "[]"]) (simp_all add: tx_new_def sender_new_def jobs_wf_def emitted_def)

lemma tx_begin_inv:
  assumes "tx_inv A sent k st"
  shows "tx_inv A sent k (tx_step A N (Begin service flow payload) st)"
proof (cases "length payload \<le> MAX_PAYLOAD \<and> sn_next_message (tx_sender st) \<noteq> - 1")
  case False
  then show ?thesis using assms by (auto simp: checked_succ_def)
next
  case True
  let ?job = "\<lparr>jb_service = service, jb_flow = flow, jb_message = sn_next_message (tx_sender st),
    jb_payload = payload, jb_next = 0, jb_open = True\<rparr>"
  have step: "tx_step A N (Begin service flow payload) st =
      st\<lparr>tx_sender := (tx_sender st)\<lparr>sn_next_message := sn_next_message (tx_sender st) + 1\<rparr>,
         tx_jobs := tx_jobs st @ [?job]\<rparr>"
    using True by (simp add: checked_succ_def)
  from assms show ?thesis
  proof (rule tx_invE)
    fix fs
    assume inv: "jobs_wf (tx_jobs st)" "unat (sn_next_message (tx_sender st)) = length (tx_jobs st)"
      "dc_state (sn_crypto (tx_sender st)) = k" "distinct (map nonce_of (sent (tx_conn st)))"
      "\<And>d. d \<in> set (sent (tx_conn st)) \<Longrightarrow> nonce_of d < dc_next (sn_crypto (tx_sender st))"
      "distinct fs" "set fs = emitted (tx_jobs st)" "list_all2 (sealed_as A k) (sent (tx_conn st)) fs"
    have wf: "jobs_wf (tx_jobs st @ [?job])"
      using inv(1,2) True unfolding jobs_wf_def by (simp add: nth_append less_Suc_eq)
    show ?thesis
      unfolding step
      by (rule tx_invI [where fs = fs])
         (use inv wf True in \<open>simp_all add: unat_succ_u64 emitted_append\<close>)
  qed
qed

lemma dc_seal_next:
  "dc_seal A c f = (x, c') \<Longrightarrow> dc_next c \<le> dc_next c'"
  "dc_seal A c f = (Ok d, c') \<Longrightarrow> nonce_of d = dc_next c \<and> dc_next c < dc_next c'"
  using dc_seal_next_mono [of A c f x c']
  by (auto simp: word_le_nat_alt word_less_nat_alt dc_seal_def Let_def unat_next split: if_splits result.splits)

text \<open>A round that ends its call, and a round that hands a datagram over.\<close>

lemma tx_close_inv:
  assumes inv: "tx_inv A sent k st" and j: "j < length (tx_jobs st)"
    and c: "dc_state c = k" "dc_next (sn_crypto (tx_sender st)) \<le> dc_next c" "sent conn = sent (tx_conn st)"
  shows "tx_inv A sent k (st\<lparr>tx_sender := (tx_sender st)\<lparr>sn_crypto := c\<rparr>, tx_conn := conn,
    tx_jobs := (tx_jobs st)[j := (tx_jobs st ! j)\<lparr>jb_open := False\<rparr>]\<rparr>)"
proof -
  have "jobs_wf ((tx_jobs st)[j := (tx_jobs st ! j)\<lparr>jb_open := False\<rparr>])"
    by (rule jobs_wf_update [OF _ j]) (use inv j in \<open>auto simp: tx_inv_def jobs_wf_def\<close>)
  moreover obtain fs where "distinct fs" "set fs = emitted (tx_jobs st)"
    "list_all2 (sealed_as A k) (sent (tx_conn st)) fs" using inv by (rule tx_invE)
  moreover have "nonce_of d < dc_next c" if "d \<in> set (sent (tx_conn st))" for d
    using inv that c(2) unfolding tx_inv_def by (auto intro: less_le_trans)
  ultimately show ?thesis
    by (intro tx_invI [where fs = fs]) (use inv c emitted_update_open [OF j] in \<open>simp_all add: tx_inv_def\<close>)
qed

lemma tx_sent_inv:
  assumes N: "conn_queues N sent" and inv: "tx_inv A sent k st" and j: "j < length (tx_jobs st)"
    "jb_next (tx_jobs st ! j) < fragment_count (length (jb_payload (tx_jobs st ! j)))"
    and c: "dc_seal A (sn_crypto (tx_sender st)) (job_fragment (tx_jobs st ! j) (jb_next (tx_jobs st ! j))) = (Ok d, c)"
    "cn_send N (tx_conn st) d = (Ok (), conn)"
  shows "tx_inv A sent k (st\<lparr>tx_sender := (tx_sender st)\<lparr>sn_crypto := c\<rparr>, tx_conn := conn,
    tx_jobs := (tx_jobs st)[j := (tx_jobs st ! j)\<lparr>jb_next := Suc (jb_next (tx_jobs st ! j))\<rparr>]\<rparr>)"
proof -
  let ?jobs = "tx_jobs st"
  let ?job = "?jobs ! j"
  let ?f = "job_fragment ?job (jb_next ?job)"
  have wf: "jobs_wf ?jobs" and k: "dc_state (sn_crypto (tx_sender st)) = k"
    and nonces: "distinct (map nonce_of (sent (tx_conn st)))"
    "\<forall>d \<in> set (sent (tx_conn st)). nonce_of d < dc_next (sn_crypto (tx_sender st))"
    using inv by (simp_all add: tx_inv_def)
  obtain fs where fs: "distinct fs" "set fs = emitted ?jobs" "list_all2 (sealed_as A k) (sent (tx_conn st)) fs"
    using inv by (rule tx_invE)
  have wf': "jobs_wf (?jobs[j := ?job\<lparr>jb_next := Suc (jb_next ?job)\<rparr>])"
    by (rule jobs_wf_update [OF wf j(1)]) (use j in auto)
  have "?f \<notin> emitted ?jobs"
  proof
    assume "?f \<in> emitted ?jobs"
    then obtain l i where l: "l < length ?jobs" "i < jb_next (?jobs ! l)" "?f = job_fragment (?jobs ! l) i"
      by (auto simp: emitted_def)
    then have "i < fragment_count (length (jb_payload (?jobs ! l)))"
      using wf unfolding jobs_wf_def by (meson less_le_trans)
    from job_fragment_inject [OF wf j(1) l(1) j(2) this l(3)] l(2) show False by auto
  qed
  then have new: "distinct (fs @ [?f])" "set (fs @ [?f]) = insert ?f (emitted ?jobs)" using fs by auto
  have conn: "sent conn = sent (tx_conn st) @ [d]" using N c(2) by (simp add: conn_queues_def)
  then have all: "list_all2 (sealed_as A k) (sent conn) (fs @ [?f])"
    using fs(3) dc_seal_sealed_as [OF c(1)] k by (simp add: list_all2_appendI)
  note n = dc_seal_next(2) [OF c(1)]
  have "distinct (map nonce_of (sent conn))" using conn nonces n by auto
  moreover have "nonce_of e < dc_next c" if "e \<in> set (sent conn)" for e
    using that conn nonces(2) n by (auto intro: less_trans)
  ultimately show ?thesis
    by (intro tx_invI [where fs = "fs @ [?f]"])
       (use inv wf' new all dc_seal_state [OF c(1)] k emitted_update_next [OF j(1)] in \<open>simp_all add: tx_inv_def\<close>)
qed

lemma tx_emit_inv:
  assumes N: "conn_queues N sent" and inv: "tx_inv A sent k st"
  shows "tx_inv A sent k (tx_step A N (Emit j) st)"
proof (cases "j < length (tx_jobs st) \<and> jb_open (tx_jobs st ! j)")
  case False
  then show ?thesis using inv by (auto simp: Let_def)
next
  case True
  let ?job = "tx_jobs st ! j"
  let ?crypto = "sn_crypto (tx_sender st)"
  have k: "dc_state ?crypto = k" using inv by (simp add: tx_inv_def)
  show ?thesis
  proof (cases "jb_next ?job < fragment_count (length (jb_payload ?job))")
    case False
    then have "tx_step A N (Emit j) st = st\<lparr>tx_sender := (tx_sender st)\<lparr>sn_crypto := ?crypto\<rparr>,
        tx_conn := tx_conn st, tx_jobs := (tx_jobs st)[j := ?job\<lparr>jb_open := False\<rparr>]\<rparr>"
      using True by (simp add: Let_def)
    then show ?thesis using tx_close_inv [OF inv _ k, of j "tx_conn st"] True by simp
  next
    case more: True
    obtain x c where seal: "dc_seal A ?crypto (job_fragment ?job (jb_next ?job)) = (x, c)" by fastforce
    have c: "dc_state c = k" "dc_next ?crypto \<le> dc_next c"
      using dc_seal_state [OF seal] dc_seal_next(1) [OF seal] k by simp_all
    show ?thesis
    proof (cases x)
      case (Err e)
      then show ?thesis using True more seal N tx_close_inv [OF inv _ c] by (simp add: Let_def conn_queues_def)
    next
      case (Ok d)
      obtain y conn where send: "cn_send N (tx_conn st) d = (y, conn)" by fastforce
      show ?thesis
      proof (cases y)
        case (Err e)
        then have "sent conn = sent (tx_conn st)" using N send by (simp add: conn_queues_def)
        then show ?thesis
          using True more seal Ok send Err tx_close_inv [OF inv _ c] by (simp add: Let_def)
      next
        case ok: (Ok u)
        then show ?thesis
          using True more seal Ok send tx_sent_inv [OF N inv _ more] by (simp add: Let_def)
      qed
    qed
  qed
qed

lemma tx_run_inv:
  assumes "conn_queues N sent"
  shows "tx_inv A sent k st \<Longrightarrow> tx_inv A sent k (tx_run A N evs st)"
  unfolding tx_run_def
proof (induction evs arbitrary: st)
  case (Cons ev evs)
  have "tx_inv A sent k (tx_step A N ev st)"
    by (cases ev) (simp_all only: tx_begin_inv [OF Cons.prems] tx_emit_inv [OF assms Cons.prems])
  then show ?case using Cons.IH by simp
qed simp

lemma emitted_fragments:
  assumes "jobs_wf jobs"
  shows "emitted jobs \<subseteq> fragments_of (message_table jobs)"
proof
  fix f assume "f \<in> emitted jobs"
  then obtain j i where j: "j < length jobs" "i < jb_next (jobs ! j)" "f = job_fragment (jobs ! j) i"
    by (auto simp: emitted_def)
  let ?entry = "\<lambda>job. (jb_message job,
     \<lparr>pk_service = jb_service job, pk_flow = jb_flow job, pk_payload = jb_payload job\<rparr>)"
  have "distinct (map fst (map ?entry jobs))"
    using assms unfolding distinct_conv_nth jobs_wf_def by (simp add: comp_def) metis
  moreover have "?entry (jobs ! j) \<in> set (map ?entry jobs)" using j(1) by simp
  ultimately have "message_table jobs (jb_message (jobs ! j)) = Some (snd (?entry (jobs ! j)))"
    unfolding message_table_def by (metis (no_types, lifting) map_of_is_SomeI snd_conv)
  moreover have "length (jb_payload (jobs ! j)) \<le> MAX_PAYLOAD"
    "i < fragment_count (length (jb_payload (jobs ! j)))"
    using assms j(1,2) unfolding jobs_wf_def by (auto intro: less_le_trans)
  ultimately show "f \<in> fragments_of (message_table jobs)"
    unfolding fragments_of_def j(3) job_fragment_def
    by (intro CollectI exI [of _ "jb_message (jobs ! j)"] exI [of _ "snd (?entry (jobs ! j))"] exI [of _ i]) simp
qed

lemma length_emitted: "f \<in> emitted jobs \<Longrightarrow> length f \<le> 65519"
  by (auto simp: emitted_def job_fragment_def length_fragment HEADER_def CHUNK_def)

text \<open>What the receiver opens is what the sender sealed, each fragment at most once.\<close>

lemma opened_sent:
  assumes snow: "stateless_correct A k k'" and inv: "tx_inv A sent k st" and c: "dc_state c = k'"
    and win: "represents (dc_replay c) S" and un: "unforged A k' (datagrams evs) (sent (tx_conn st))"
  shows "distinct (datagrams (opened A c evs)) \<and> set (datagrams (opened A c evs)) \<subseteq> emitted (tx_jobs st)"
proof -
  let ?ds = "datagrams evs"
  let ?sent = "sent (tx_conn st)"
  obtain fs where fs: "distinct fs" "set fs = emitted (tx_jobs st)" "list_all2 (sealed_as A k) ?sent fs"
    using inv by (rule tx_invE)
  have src: "\<exists>a<length fs. ?sent ! a = ?ds ! i \<and> fs ! a = p"
    if i: "i < length ?ds" "dc_open_all A c ?ds ! i = Ok p" for i p
  proof -
    note o = open_all_value [OF i, unfolded c]
    have "?ds ! i \<in> set ?sent" using un i(1) o unfolding unforged_def by auto
    then obtain a where a: "a < length ?sent" "?sent ! a = ?ds ! i" by (auto simp: in_set_conv_nth)
    then have "sealed_as A k (?ds ! i) (fs ! a)" "a < length fs"
      using fs(3) by (auto simp: list_all2_conv_all_nth)
    moreover from this have "length (fs ! a) \<le> 65519" using fs(2) length_emitted nth_mem by blast
    ultimately show ?thesis using a sealed_as_read [OF snow] o by fastforce
  qed
  have "distinct (oks (dc_open_all A c ?ds))"
  proof (rule distinct_oks)
    fix i j p q
    assume ij: "i < j" "j < length (dc_open_all A c ?ds)"
      "dc_open_all A c ?ds ! i = Ok p" "dc_open_all A c ?ds ! j = Ok q"
    then have "nonce_of (?ds ! i) \<noteq> nonce_of (?ds ! j)" by (intro open_all_no_repeat [OF win, where A = A]) simp_all
    moreover obtain a b where "a < length fs" "?sent ! a = ?ds ! i" "fs ! a = p"
      "b < length fs" "?sent ! b = ?ds ! j" "fs ! b = q"
      using src [of i p] src [of j q] ij by auto
    ultimately show "p \<noteq> q" using fs(1) by (metis nth_eq_iff_index_eq)
  qed
  moreover have "p \<in> emitted (tx_jobs st)" if p: "p \<in> set (oks (dc_open_all A c ?ds))" for p
  proof -
    have "Ok p \<in> set (dc_open_all A c ?ds)" using p by (simp add: set_oks)
    then obtain i where "i < length ?ds" "dc_open_all A c ?ds ! i = Ok p"
      by (auto simp: in_set_conv_nth)
    then obtain a where "a < length fs" "fs ! a = p" using src by blast
    then have "p \<in> set fs" using nth_mem by blast
    then show ?thesis using fs(2) by blast
  qed
  ultimately show ?thesis unfolding opened_datagrams by blast
qed

section \<open>Complete messages are delivered\<close>

lemma sealed_as_authentic:
  assumes "stateless_correct A k k'" "sealed_as A k d f" "length f \<le> 65519"
  shows "authentic A k' d"
proof -
  obtain n c where d: "n < nonce_limit" "d = u64_be n @ c" "sl_write A k n f (length f + 16) = Ok c"
    using assms(2) unfolding sealed_as_def by blast
  have "length c = length f + 16" using snow_write(1) [OF assms(1) d(3) assms(3)] .
  then show ?thesis using sealed_as_read [OF assms] d by (simp add: authentic_def is_ok_iff)
qed

lemma opened_within: "\<forall>ev \<in> set evs. event_within T ev \<Longrightarrow> \<forall>ev \<in> set (opened A c evs). event_within T ev"
proof (induction evs arbitrary: c rule: datagrams.induct)
  case (3 d t evs)
  obtain x c' where "dc_open A c d = (x, c')" by fastforce
  then show ?case using 3 by (cases x) (simp_all add: event_within_def)
qed simp_all

text \<open>The first arrival of a datagram that is fresh and not too late is opened.\<close>

lemma opened_first_arrival:
  assumes win: "represents (dc_replay c) S" and d: "d \<in> set ds" "authentic A (dc_state c) d"
    and fresh: "fresh_in_window S (nonce_of d)"
    and order: "\<And>a b. a < b \<Longrightarrow> b < length ds \<Longrightarrow> ds ! b = d \<Longrightarrow> authentic A (dc_state c) (ds ! a) \<Longrightarrow>
      unat (nonce_of (ds ! a)) < unat (nonce_of d) + 1024"
    and uniq: "\<And>e. e \<in> set ds \<Longrightarrow> authentic A (dc_state c) e \<Longrightarrow> nonce_of e = nonce_of d \<Longrightarrow> e = d"
  shows "\<exists>b<length ds. ds ! b = d \<and> is_ok (dc_open_all A c ds ! b)"
proof -
  define b where "b = (LEAST b. b < length ds \<and> ds ! b = d)"
  have "\<exists>b. b < length ds \<and> ds ! b = d" using d(1) by (auto simp: in_set_conv_nth)
  then have b: "b < length ds" "ds ! b = d" unfolding b_def by (metis (mono_tags, lifting) LeastI)+
  have first: "ds ! a \<noteq> d" if "a < b" for a
    using that b(1) not_less_Least [of a "\<lambda>b. b < length ds \<and> ds ! b = d"] by (auto simp: b_def [symmetric])
  let ?es = "map (\<lambda>d. (nonce_of d, authentic A (dc_state c) d)) ds"
  let ?run = "guarded_run acceptable record_nonce (dc_replay c) ?es"
  have run: "?run ! a \<longleftrightarrow> is_ok (dc_open_all A c ds ! a)" if "a < length ds" for a
    using that by (simp flip: open_all_guarded)
  have "nonce_of d \<noteq> nonce_of (ds ! a) \<and> unat (nonce_of (ds ! a)) < unat (nonce_of d) + 1024"
    if a: "a < b" "?run ! a" for a
  proof -
    have auth: "authentic A (dc_state c) (ds ! a)"
      using run a b(1) open_all_value [of a ds A c] by (auto simp: is_ok_iff)
    then show ?thesis using first [OF a(1)] uniq [of "ds ! a"] order [OF a(1) b] a(1) b(1) by fastforce
  qed
  then have "?run ! b" using window.guarded_run_exact [OF win, of b ?es] b d(2) fresh by simp
  then show ?thesis using run b by blast
qed


lemma underway_tick:
  assumes "underway r service flow m payload I T" "now < T + from_secs 2"
  shows "underway (ra_expire r now) service flow m payload I T"
  using assms(1) underway_expire [OF assms] by (simp add: underway_def)

lemma deliveries_step:
  "deliveries r (Datagram p t # evs) =
     (case fst (ra_push r p t) of Ok (Some k) \<Rightarrow> [(p, k)] | _ \<Rightarrow> []) @ deliveries (snd (ra_push r p t)) evs"
  by (simp split: prod.splits result.splits option.splits)

text \<open>One fragment of a message arrives: what is left to arrive, and what the reassembler does.\<close>

lemma fragments_left:
  assumes "length payload \<le> MAX_PAYLOAD" "distinct (p # ps)"
    and "set (p # ps) = fragment service flow m payload ` ({..<fragment_count (length payload)} - I)"
    and "i < fragment_count (length payload)" "p = fragment service flow m payload i"
  shows "set ps = fragment service flow m payload ` ({..<fragment_count (length payload)} - insert i I)"
proof -
  have "set ps = fragment service flow m payload ` ({..<fragment_count (length payload)} - I) - {fragment service flow m payload i}"
    using assms(2,3,5) by auto
  also have "\<dots> = fragment service flow m payload ` ({..<fragment_count (length payload)} - insert i I)"
    using fragment_inject(5) [OF _ assms(1) assms(1)] assms(4) by fastforce
  finally show ?thesis .
qed

lemma fragment_completes:
  assumes "length payload \<le> MAX_PAYLOAD" "i < fragment_count (length payload)"
    and "underway r service flow m payload I T" "T \<le> t" "t < T + from_secs 2"
    and "fset (fmdom (ra_pending r)) \<subseteq> K" "finite K" "card K \<le> MAX_ASSEMBLIES" "m \<in> K"
    and "{..<fragment_count (length payload)} \<subseteq> insert i I"
  shows "fst (ra_push r (fragment service flow m payload i) t) =
    Ok (Some \<lparr>pk_service = service, pk_flow = flow, pk_payload = payload\<rparr>)"
proof (cases "fragment_count (length payload) = 1")
  case True
  then have "i = 0" "length payload \<le> CHUNK" using assms(2) fragment_count_eq_1 by auto
  then show ?thesis using ra_push_single by simp
next
  case False
  obtain t0 where "received r t service flow m payload I t0"
    using underway_received [OF assms(3-9)] by blast
  then show ?thesis
    using ra_push_fragment [OF assms(1,2) False, of r service flow m t] ra_join_fragment [OF assms(2)] assms(10) by simp
qed

lemma fragment_underway:
  assumes "length payload \<le> MAX_PAYLOAD" "i < fragment_count (length payload)"
    and "underway r service flow m payload I T" "T \<le> t" "t < T + from_secs 2"
    and "fset (fmdom (ra_pending r)) \<subseteq> K" "finite K" "card K \<le> MAX_ASSEMBLIES" "m \<in> K"
    and "\<not> {..<fragment_count (length payload)} \<subseteq> insert i I"
  shows "underway (snd (ra_push r (fragment service flow m payload i) t)) service flow m payload (insert i I) T"
proof -
  have many: "fragment_count (length payload) \<noteq> 1" using assms(2,10) by auto
  obtain t0 where t0: "T \<le> t0" "received r t service flow m payload I t0"
    using underway_received [OF assms(3-9)] by blast
  then show ?thesis
    using ra_push_fragment [OF assms(1,2) many, of r service flow m t] ra_join_fragment [OF assms(2) t0(2)] assms(10)
    by (auto simp: underway_def)
qed

text \<open>
  With the fragments \<open>I\<close> of a message stored and each of the others arriving exactly once within
  two seconds, the message is delivered, whatever else arrives and whenever the timer ticks.
\<close>

lemma deliveries_complete:
  fixes service flow m payload
  defines "k \<equiv> \<lparr>pk_service = service, pk_flow = flow, pk_payload = payload\<rparr>"
  assumes len: "length payload \<le> MAX_PAYLOAD" and K: "finite K" "card K \<le> MAX_ASSEMBLIES" "m \<in> K"
  shows "underway r service flow m payload I T \<Longrightarrow> \<not> {..<fragment_count (length payload)} \<subseteq> I \<Longrightarrow>
    distinct (filter (\<lambda>p. message_of p = m) (datagrams evs)) \<Longrightarrow>
    set (filter (\<lambda>p. message_of p = m) (datagrams evs)) =
      fragment service flow m payload ` ({..<fragment_count (length payload)} - I) \<Longrightarrow>
    (\<forall>ev \<in> set evs. event_within T ev) \<Longrightarrow>
    fset (fmdom (ra_pending r)) \<union> message_of ` set (datagrams evs) \<subseteq> K \<Longrightarrow>
    k \<in> snd ` set (deliveries r evs)"
proof (induction evs arbitrary: r I rule: datagrams.induct)
  case 1
  then show ?case by auto
next
  case (2 t evs)
  have t: "t < T + from_secs 2" using 2(6) by (simp add: event_within_def)
  have "fset (fmdom (ra_pending (ra_expire r t))) \<subseteq> fset (fmdom (ra_pending r))"
    using fmdom_expire [of r t] by (simp add: less_eq_fset.rep_eq)
  then show ?case using 2(1) [OF underway_tick [OF 2(2) t] 2(3)] 2(4-7) by auto
next
  case (3 p t evs)
  let ?n = "fragment_count (length payload)"
  let ?r = "snd (ra_push r p t)"
  have t: "T \<le> t" "t < T + from_secs 2" using 3(6) by (auto simp: event_within_def)
  have dom: "fset (fmdom (ra_pending r)) \<subseteq> K" "message_of p \<in> K" using 3(7) by auto
  then have dom': "fset (fmdom (ra_pending ?r)) \<subseteq> K"
    using ra_push_dom [of r p t] by (auto simp: less_eq_fset.rep_eq)
  show ?case
  proof (cases "message_of p = m")
    case False
    have "k \<in> snd ` set (deliveries ?r evs)"
      by (rule 3(1) [OF underway_other [OF 3(2) t(2) False] 3(3)]) (use 3(4-7) False dom' in auto)
    then show ?thesis unfolding deliveries_step by auto
  next
    case True
    then obtain i where i: "i < ?n" "i \<notin> I" "p = fragment service flow m payload i" using 3(5) by auto
    have rest: "set (filter (\<lambda>p. message_of p = m) (datagrams evs)) = fragment service flow m payload ` ({..<?n} - insert i I)"
      by (rule fragments_left [OF len _ _ i(1,3)]) (use 3(4,5) True in simp_all)
    show ?thesis
    proof (cases "{..<?n} \<subseteq> insert i I")
      case all: True
      have "fst (ra_push r p t) = Ok (Some k)"
        using fragment_completes [OF len i(1) 3(2) t dom(1) K all] i(3) by (simp add: k_def)
      then show ?thesis unfolding deliveries_step by simp
    next
      case more: False
      have "k \<in> snd ` set (deliveries ?r evs)"
        using fragment_underway [OF len i(1) 3(2) t dom(1) K more] i(3)
        by (intro 3(1) [OF _ more _ rest]) (use 3(4,6,7) True dom' in auto)
      then show ?thesis unfolding deliveries_step by auto
    qed
  qed
qed

section \<open>Sequential calls\<close>

lemma log_tx_step_Emit:
  assumes "j < length (tx_jobs st)" "jb_open (tx_jobs st ! j)"
    "jb_next (tx_jobs st ! j) < fragment_count (length (jb_payload (tx_jobs st ! j)))"
    and "dc_seal A (sn_crypto (tx_sender st)) (job_fragment (tx_jobs st ! j) (jb_next (tx_jobs st ! j))) = (Ok d, c)"
    and "cn_send N (tx_conn st) d = (Ok (), conn)"
  shows "tx_step A N (Emit j) st = st\<lparr>tx_sender := (tx_sender st)\<lparr>sn_crypto := c\<rparr>, tx_conn := conn,
    tx_jobs := (tx_jobs st)[j := (tx_jobs st ! j)\<lparr>jb_next := Suc (jb_next (tx_jobs st ! j))\<rparr>]\<rparr>"
  using assms by (simp add: Let_def)

text \<open>
  A call that runs alone: the loop of \<open>send_payload\<close> from round \<open>i\<close> on is the emission of the
  job's remaining fragments.
\<close>

lemma send_fragments_steps:
  assumes "j < length (tx_jobs st)" "jb_open (tx_jobs st ! j)" "jb_next (tx_jobs st ! j) = i"
    and "i + n = fragment_count (length (jb_payload (tx_jobs st ! j)))"
    and "send_fragments A N (sn_crypto (tx_sender st)) (tx_conn st)
      (map (job_fragment (tx_jobs st ! j)) [i..<i + n]) = (Ok (), c, conn)"
  shows "tx_run A N (replicate n (Emit j)) st =
    st\<lparr>tx_sender := (tx_sender st)\<lparr>sn_crypto := c\<rparr>, tx_conn := conn,
       tx_jobs := (tx_jobs st)[j := (tx_jobs st ! j)\<lparr>jb_next := i + n\<rparr>]\<rparr>"
  using assms
proof (induction n arbitrary: st i)
  case 0
  have "(tx_jobs st ! j)\<lparr>jb_next := i\<rparr> = tx_jobs st ! j"
    using 0(3) by (cases "tx_jobs st ! j") simp
  then have "(tx_jobs st)[j := (tx_jobs st ! j)\<lparr>jb_next := i\<rparr>] = tx_jobs st" by simp
  then show ?case using 0(5) by (simp add: tx_run_def)
next
  case (Suc n)
  let ?job = "tx_jobs st ! j"
  have "[i..<i + Suc n] = i # [Suc i..<Suc i + n]" by (simp add: upt_rec)
  then obtain d c1 conn1 where d: "dc_seal A (sn_crypto (tx_sender st)) (job_fragment ?job i) = (Ok d, c1)"
    "cn_send N (tx_conn st) d = (Ok (), conn1)"
    "send_fragments A N c1 conn1 (map (job_fragment ?job) [Suc i..<Suc i + n]) = (Ok (), c, conn)"
    using Suc.prems(5) by (auto split: prod.splits result.splits)
  let ?st = "st\<lparr>tx_sender := (tx_sender st)\<lparr>sn_crypto := c1\<rparr>, tx_conn := conn1,
      tx_jobs := (tx_jobs st)[j := ?job\<lparr>jb_next := Suc i\<rparr>]\<rparr>"
  have step: "tx_step A N (Emit j) st = ?st"
    using log_tx_step_Emit [OF Suc.prems(1,2), of A d c1 N conn1] Suc.prems(3,4) d(1,2) by simp
  have frag: "job_fragment (?job\<lparr>jb_next := Suc i\<rparr>) = job_fragment ?job"
    by (simp add: fun_eq_iff job_fragment_def)
  have "tx_run A N (replicate n (Emit j)) ?st =
      ?st\<lparr>tx_sender := (tx_sender ?st)\<lparr>sn_crypto := c\<rparr>, tx_conn := conn,
       tx_jobs := (tx_jobs ?st)[j := (tx_jobs ?st ! j)\<lparr>jb_next := Suc i + n\<rparr>]\<rparr>"
    by (rule Suc.IH) (use Suc.prems d(3) frag in simp_all)
  then show ?case using step Suc.prems(1) by (simp add: tx_run_def del: tx_step.simps)
qed

section \<open>A concrete session\<close>

definition sample_fragment :: bytes where
  "sample_fragment = fragment 3 4 0 [7, 8] 0"

definition sample_datagram :: bytes where
  "sample_datagram = u64_be 0 @ sample_fragment @ u64_be 0 @ u64_be 0"

definition sample_job :: send_job where
  "sample_job = \<lparr>jb_service = 3, jb_flow = 4, jb_message = 0, jb_payload = [7, 8], jb_next = 1, jb_open = True\<rparr>"

definition sample_tx :: "(unit, bytes list) tunnel_tx" where
  "sample_tx = \<lparr>tx_sender = \<lparr>sn_crypto = (dc_new ())\<lparr>dc_next := 1\<rparr>, sn_next_message = 1\<rparr>,
     tx_conn = [sample_datagram], tx_jobs = [sample_job]\<rparr>"

lemma sample_count: "fragment_count (Suc (Suc 0)) = Suc 0"
  using fragment_count_eq_1 [of "Suc (Suc 0)"] by (simp add: CHUNK_def)

lemma sample_seal:
  "dc_seal sample_aead (dc_new ()) sample_fragment = (Ok sample_datagram, (dc_new ())\<lparr>dc_next := 1\<rparr>)"
proof -
  have "length sample_fragment = 24" by (simp add: sample_fragment_def length_fragment HEADER_def CHUNK_def)
  then show ?thesis
    by (simp add: dc_seal_def nonce_limit_eq sample_aead_def Let_def sample_datagram_def)
qed

lemma sample_run:
  "tx_run sample_aead log_conn [Begin 3 4 [7, 8], Emit 0] (tx_new (dc_new ()) []) = sample_tx"
proof -
  let ?job = "sample_job\<lparr>jb_next := 0\<rparr>"
  have "job_fragment ?job 0 = sample_fragment"
    by (simp add: job_fragment_def sample_job_def sample_fragment_def)
  then show ?thesis
    using sample_seal
    by (simp add: tx_run_def tx_new_def sender_new_def MAX_PAYLOAD_def checked_succ_def
        sample_job_def sample_count log_conn_def sample_tx_def)
qed

lemma sample_send:
  "send_payload sample_aead log_conn (sender_new (dc_new ())) [] 3 4 [7, 8] =
     (Ok (), tx_sender sample_tx, [sample_datagram])"
  using sample_seal
  by (simp add: send_payload_def sender_new_def MAX_PAYLOAD_def checked_succ_def sample_count
      sample_fragment_def log_conn_def sample_tx_def)

lemma sample_carriers: "carriers sample_aead () (tx_conn sample_tx) sample_job \<subseteq> {sample_datagram}"
  by (auto simp: carriers_def sample_tx_def)

section \<open>Properties\<close>

text \<open>
  Concurrent sends refine to \<open>Sender::send\<close>. A call of \<open>send\<close> that returns \<open>Ok\<close> is the
  step that takes the message id followed by one emission per fragment: it reaches the same
  sender state and hands the same datagrams to the connection.
\<close>

lemma send_payload_is_steps:
  assumes "send_payload A N (tx_sender st) (tx_conn st) service flow payload = (Ok (), s', conn')"
  shows "tx_sender (tx_run A N (Begin service flow payload #
      replicate (fragment_count (length payload)) (Emit (length (tx_jobs st)))) st) = s' \<and>
    tx_conn (tx_run A N (Begin service flow payload #
      replicate (fragment_count (length payload)) (Emit (length (tx_jobs st)))) st) = conn'"
proof -
  let ?s = "tx_sender st"
  let ?job = "\<lparr>jb_service = service, jb_flow = flow, jb_message = sn_next_message ?s,
    jb_payload = payload, jb_next = 0, jb_open = True\<rparr>"
  obtain n c where ok: "length payload \<le> MAX_PAYLOAD" "checked_succ (sn_next_message ?s) = Some n"
    "send_fragments A N (sn_crypto ?s) (tx_conn st)
       (map (fragment service flow (sn_next_message ?s) payload) [0..<fragment_count (length payload)]) =
       (Ok (), c, conn')"
    "s' = \<lparr>sn_crypto = c, sn_next_message = n\<rparr>"
    using assms by (auto simp: send_payload_def Let_def split: if_splits option.splits prod.splits)
  let ?st = "st\<lparr>tx_sender := ?s\<lparr>sn_next_message := n\<rparr>, tx_jobs := tx_jobs st @ [?job]\<rparr>"
  have "job_fragment ?job = fragment service flow (sn_next_message ?s) payload"
    by (simp add: fun_eq_iff job_fragment_def)
  then have "tx_run A N (replicate (fragment_count (length payload)) (Emit (length (tx_jobs st)))) ?st =
      ?st\<lparr>tx_sender := (tx_sender ?st)\<lparr>sn_crypto := c\<rparr>, tx_conn := conn',
       tx_jobs := (tx_jobs ?st)[length (tx_jobs st) := (tx_jobs ?st ! length (tx_jobs st))
         \<lparr>jb_next := 0 + fragment_count (length payload)\<rparr>]\<rparr>"
    by (intro send_fragments_steps) (use ok(3) in simp_all)
  moreover have "tx_step A N (Begin service flow payload) st = ?st" using ok by simp
  ultimately show ?thesis using ok(4) by (simp add: tx_run_def del: tx_step.simps)
qed

text \<open>
  C1: Delivery is authentic and at most once. Any number of concurrent sends, any loss,
  reordering, duplication and forgery on the way, any expiry at the receiver: the packets the
  receiving session delivers are messages that were sent, complete and unchanged, each for a
  different send.
\<close>

theorem udp_authentic_at_most_once:
  assumes "conn_queues N sent" "stateless_correct A k k'"
    and "sent conn = []" "dc_state crypto = k" "st = tx_run A N txs (tx_new crypto conn)"
    and "dc_state c = k'" "represents (dc_replay c) S"
    and "unforged A k' (datagrams rxs) (sent (tx_conn st))"
  shows "\<exists>ids. distinct ids \<and>
    map Some (rx_run A c ra_default rxs) = map (message_table (tx_jobs st)) ids"
proof -
  have inv: "tx_inv A sent k st"
    using tx_run_inv [OF assms(1) tx_inv_new [of sent conn, OF assms(3)]] assms(4,5) by metis
  let ?evs = "opened A c rxs"
  let ?del = "deliveries ra_default ?evs"
  have o: "distinct (datagrams ?evs)" "set (datagrams ?evs) \<subseteq> emitted (tx_jobs st)"
    using opened_sent [OF assms(2) inv assms(6,7,8)] by blast+
  have "emitted (tx_jobs st) \<subseteq> fragments_of (message_table (tx_jobs st))"
    using inv emitted_fragments by (auto simp: tx_inv_def)
  then have tab: "{} \<union> set (datagrams ?evs) \<subseteq> fragments_of (message_table (tx_jobs st))" using o(2) by simp
  have start: "ra_wf ra_default" "sourced ra_default {}" using ra_reach_inv [OF ra_start] by blast+
  have "distinct (map (\<lambda>(p, k). message_of p) ?del)"
    using deliveries_distinct [OF start tab o(1)] by simp
  moreover have "map Some (rx_run A c ra_default rxs) =
      map (message_table (tx_jobs st)) (map (\<lambda>(p, k). message_of p) ?del)"
    using deliveries_identified [OF start tab] by (auto simp: rx_run_deliveries)
  ultimately show ?thesis by blast
qed

lemma carried_fragments:
  assumes snow: "stateless_correct A k k'" and inv: "tx_inv A sent k st" and c: "dc_state c = k'"
    and win: "represents (dc_replay c) S" and un: "unforged A k' (datagrams rxs) (sent (tx_conn st))"
    and j: "j < length (tx_jobs st)" "job = tx_jobs st ! j"
      "jb_next job = fragment_count (length (jb_payload job))"
    and arrive: "carriers A k (sent (tx_conn st)) job \<subseteq> set (datagrams rxs)"
    and fresh: "\<And>d. d \<in> carriers A k (sent (tx_conn st)) job \<Longrightarrow> fresh_in_window S (nonce_of d)"
    and order: "\<And>a b. a < b \<Longrightarrow> b < length (datagrams rxs) \<Longrightarrow>
      datagrams rxs ! b \<in> carriers A k (sent (tx_conn st)) job \<Longrightarrow> authentic A k' (datagrams rxs ! a) \<Longrightarrow>
      unat (nonce_of (datagrams rxs ! a)) < unat (nonce_of (datagrams rxs ! b)) + 1024"
    and i: "i < fragment_count (length (jb_payload job))"
  shows "job_fragment job i \<in> set (datagrams (opened A c rxs))"
proof -
  let ?ds = "datagrams rxs"
  let ?sent = "sent (tx_conn st)"
  let ?f = "job_fragment job i"
  obtain fs where fs: "set fs = emitted (tx_jobs st)" "list_all2 (sealed_as A k) ?sent fs"
    using inv by (rule tx_invE)
  have f: "?f \<in> emitted (tx_jobs st)"
    unfolding emitted_def by (rule CollectI, rule exI [of _ j], rule exI [of _ i]) (use j i in simp)
  then obtain a where a: "a < length fs" "fs ! a = ?f" using fs(1) by (metis in_set_conv_nth)
  define d where "d = ?sent ! a"
  have d: "sealed_as A k d ?f" "d \<in> set ?sent" using fs(2) a by (auto simp: list_all2_conv_all_nth d_def)
  then have car: "d \<in> carriers A k ?sent job" using i unfolding carriers_def by blast
  have nonces: "distinct (map nonce_of ?sent)" using inv by (simp add: tx_inv_def)
  have uniq: "e = d" if "e \<in> set ?ds" "authentic A k' e" "nonce_of e = nonce_of d" for e
  proof -
    have "e \<in> set ?sent" using un that unfolding unforged_def by blast
    then show ?thesis using nonces d(2) that(3) by (metis distinct_map inj_onD)
  qed
  have "\<exists>b<length ?ds. ?ds ! b = d \<and> is_ok (dc_open_all A c ?ds ! b)"
    by (rule opened_first_arrival [OF win])
       (use car arrive sealed_as_authentic [OF snow d(1) length_emitted [OF f]] fresh order uniq c in auto)
  then obtain b p where b: "b < length ?ds" "?ds ! b = d" "dc_open_all A c ?ds ! b = Ok p"
    by (auto simp: is_ok_iff)
  then have "p = ?f"
    using open_all_value [OF b(1,3)] sealed_as_read [OF snow d(1) length_emitted [OF f]] c by simp
  then show ?thesis using b nth_mem [of b "dc_open_all A c ?ds"] by (simp add: opened_datagrams set_oks)
qed

lemma own_fragments:
  assumes wf: "jobs_wf jobs" and j: "j < length jobs" "jb_next (jobs ! j) = fragment_count (length (jb_payload (jobs ! j)))"
    and sub: "set ps \<subseteq> emitted jobs"
    and all: "\<And>i. i < fragment_count (length (jb_payload (jobs ! j))) \<Longrightarrow> job_fragment (jobs ! j) i \<in> set ps"
  shows "set (filter (\<lambda>p. message_of p = jb_message (jobs ! j)) ps) =
    job_fragment (jobs ! j) ` {..<fragment_count (length (jb_payload (jobs ! j)))}"
proof (intro set_eqI iffI)
  fix p assume "p \<in> set (filter (\<lambda>p. message_of p = jb_message (jobs ! j)) ps)"
  then have p: "p \<in> emitted jobs" "message_of p = jb_message (jobs ! j)" using sub by auto
  then obtain l i where l: "l < length jobs" "i < jb_next (jobs ! l)" "p = job_fragment (jobs ! l) i"
    by (auto simp: emitted_def)
  then have "jb_message (jobs ! l) = jb_message (jobs ! j)" using p(2) by (simp add: job_fragment_def)
  then have "l = j" using wf l(1) j(1) unfolding jobs_wf_def by metis
  then show "p \<in> job_fragment (jobs ! j) ` {..<fragment_count (length (jb_payload (jobs ! j)))}"
    using l j(2) by simp
next
  fix p assume "p \<in> job_fragment (jobs ! j) ` {..<fragment_count (length (jb_payload (jobs ! j)))}"
  then show "p \<in> set (filter (\<lambda>p. message_of p = jb_message (jobs ! j)) ps)"
    using all by (auto simp: job_fragment_def)
qed

theorem udp_authentic_at_most_once_witness:
  "\<exists>ids. distinct ids \<and>
    map Some (rx_run sample_aead (dc_new ()) ra_default
      [Datagram sample_datagram 5, Datagram [1, 2] 6, Tick 7, Datagram sample_datagram 8]) =
    map (message_table (tx_jobs sample_tx)) ids"
proof -
  have "unforged sample_aead () [sample_datagram, [1, 2], sample_datagram] [sample_datagram]"
    by (auto simp: unforged_def authentic_def)
  then show ?thesis
    by (intro udp_authentic_at_most_once [OF log_conn_queues sample_aead_correct _ _ sample_run [symmetric],
        where S = "{}"]) (simp_all add: represents_default sample_tx_def)
qed



text \<open>
  \<open>read_packet\<close> returns the first delivery. On datagrams that arrive without a connection
  error, \<open>read_packet\<close> returns exactly the first packet the session would deliver and leaves the
  state and the datagrams from which the next call delivers the rest; when it still waits,
  nothing is deliverable.
\<close>

lemma read_packet_first:
  "(case read_packet A c ra (map (\<lambda>e. (Ok (fst e), snd e)) ds) of
      (Some (Ok k), c', ra', rest) \<Rightarrow> (\<exists>ds'. rest = map (\<lambda>e. (Ok (fst e), snd e)) ds' \<and>
         rx_run A c ra (map (\<lambda>e. Datagram (fst e) (snd e)) ds) = k # rx_run A c' ra' (map (\<lambda>e. Datagram (fst e) (snd e)) ds'))
    | (Some (Err e), c', ra', rest) \<Rightarrow> False
    | (None, c', ra', rest) \<Rightarrow> rx_run A c ra (map (\<lambda>e. Datagram (fst e) (snd e)) ds) = [])"
proof (induction ds arbitrary: c ra)
  case Nil
  then show ?case by simp
next
  case (Cons e ds)
  obtain d t where e: "e = (d, t)" by fastforce
  obtain x c' ra' where it: "packet_iter A c ra d t = (x, c', ra')" by (cases "packet_iter A c ra d t") auto
  show ?case
  proof (cases x)
    case None
    then have "rx_run A c ra (map (\<lambda>e. Datagram (fst e) (snd e)) (e # ds)) =
        rx_run A c' ra' (map (\<lambda>e. Datagram (fst e) (snd e)) ds)"
      "read_packet A c ra (map (\<lambda>e. (Ok (fst e), snd e)) (e # ds)) =
        read_packet A c' ra' (map (\<lambda>e. (Ok (fst e), snd e)) ds)"
      using e it by simp_all
    then show ?thesis using Cons [of c' ra'] by (simp only:)
  next
    case (Some k)
    then show ?thesis using e it by auto
  qed
qed

end
