(* ===== verification/Session_Setup.thy ===== *)
theory Session_Setup
  imports Handshake Registration Udp_Tunnel
begin

text \<open>
  The setup of a session, the timed blocks at the start of \<open>session\<close> in \<open>src/proxy/client.rs\<close> and
  \<open>src/proxy/server.rs\<close>: the client registers its services over the control stream, the server
  checks them, opens the ports and answers, and both keep the session keys for UDP. The JSON
  codec (\<open>serde_json\<close>) and the operating system's \<open>bind\<close> are parameters.
\<close>

section \<open>The two setups\<close>

text \<open>
  \<open>elapsed\<close> is the time the block takes, \<open>bi\<close> the outcome of \<open>open_bi\<close> (client) and \<open>accept_bi\<close>
  (server). The result carries the sending half of the control stream as the block leaves it; an
  error drops the streams and the listeners. \<open>None\<close>: not yet returned.
\<close>

definition client_setup :: "nat \<Rightarrow> ('b, 'h, 't, 'k) noise_api \<Rightarrow> 'k stateless_api \<Rightarrow> 's send_api \<Rightarrow> 'r recv_api
    \<Rightarrow> (string \<Rightarrow> bytes option) \<Rightarrow> (bytes \<Rightarrow> bytes \<Rightarrow> bytes option) \<Rightarrow> (registration \<Rightarrow> bytes result)
    \<Rightarrow> side \<Rightarrow> duration \<Rightarrow> ('s \<times> 'r) result \<Rightarrow> ('k sender \<times> 's) result option" where
  "client_setup fuel N A W R b64 export to_vec cfg elapsed bi =
     (if SETUP < elapsed then Some (Err Elapsed) else
      case bi of
        Err e \<Rightarrow> Some (Err e)
      | Ok (s, r) \<Rightarrow>
          (case to_vec (client_registration cfg) of
             Err e \<Rightarrow> Some (Err e)
           | Ok payload \<Rightarrow>
               (case initiate_datagram fuel N A W R b64 export (tr_noise (sd_transport cfg)) s r registration_context payload of
                  None \<Rightarrow> None
                | Some (Err e, s1, r1) \<Rightarrow> Some (Err e)
                | Some (Ok (data_crypto, reply), s1, r1) \<Rightarrow>
                    if reply \<noteq> ascii ''ok'' then Some (Err (ProxyError RegistrationRejected)) else
                    (case snd_finish W s1 of
                       (Err e, s2) \<Rightarrow> Some (Err e)
                     | (Ok _, s2) \<Rightarrow>
                         (case read_frame R r1 of
                            (Err e, r2) \<Rightarrow> Some (Err e)
                          | (Ok (Some f), r2) \<Rightarrow> Some (Err (ProxyError UnexpectedControlData))
                          | (Ok None, r2) \<Rightarrow> Some (Ok (sender_new data_crypto, s2)))))))"

definition server_setup :: "nat \<Rightarrow> ('b, 'h, 't, 'k) noise_api \<Rightarrow> 'k stateless_api \<Rightarrow> 's send_api \<Rightarrow> 'r recv_api
    \<Rightarrow> (string \<Rightarrow> bytes option) \<Rightarrow> (bytes \<Rightarrow> bytes \<Rightarrow> bytes option) \<Rightarrow> (bytes \<Rightarrow> registration result)
    \<Rightarrow> (string \<Rightarrow> string \<Rightarrow> bool) \<Rightarrow> ('os \<Rightarrow> kind \<Rightarrow> string \<Rightarrow> 'l result \<times> 'os)
    \<Rightarrow> side \<Rightarrow> duration \<Rightarrow> 'os \<Rightarrow> ('s \<times> 'r) result
    \<Rightarrow> (('k sender \<times> (string \<times> service \<times> 'l bound) list \<times> 's) result \<times> 'os) option" where
  "server_setup fuel N A W R b64 export from_slice ct_eq bind cfg elapsed os bi =
     (if SETUP < elapsed then Some (Err Elapsed, os) else
      case bi of
        Err e \<Rightarrow> Some (Err e, os)
      | Ok (s, r) \<Rightarrow>
          (case receive_datagram fuel N A W R b64 export (tr_noise (sd_transport cfg)) s r registration_context of
             None \<Rightarrow> None
           | Some (Err e, s1, r1) \<Rightarrow> Some (Err e, os)
           | Some (Ok (data_crypto, payload), s1, r1) \<Rightarrow>
               (case from_slice payload of
                  Err e \<Rightarrow> Some (Err e, os)
                | Ok reg \<Rightarrow>
                    (case register_services ct_eq bind cfg os reg of
                       (Err e, os1) \<Rightarrow> Some (Err e, os1)
                     | (Ok bs, os1) \<Rightarrow>
                         (case dc_seal A data_crypto (ascii ''ok'') of
                            (Err e, c1) \<Rightarrow> Some (Err e, os1)
                          | (Ok d, c1) \<Rightarrow>
                              (case write_frame W s1 d of
                                 (Err e, s2) \<Rightarrow> Some (Err e, os1)
                               | (Ok _, s2) \<Rightarrow>
                                   (case snd_finish W s2 of
                                      (Err e, s3) \<Rightarrow> Some (Err e, os1)
                                    | (Ok _, s3) \<Rightarrow>
                                        (case read_frame R r1 of
                                           (Err e, r2) \<Rightarrow> Some (Err e, os1)
                                         | (Ok (Some f), r2) \<Rightarrow> Some (Err (ProxyError UnexpectedControlData), os1)
                                         | (Ok None, r2) \<Rightarrow> Some (Ok (sender_new c1, bs, s3), os1)))))))))"

section \<open>Both setups together\<close>

lemma send_live_finish: "send_live W out \<Longrightarrow> \<exists>s'. snd_finish W s = (Ok (), s') \<and> out s' = out s"
  unfolding send_live_def by blast

lemma after_exchange_simps [simp]:
  "dc_state (after_exchange k) = k" "dc_next (after_exchange k) = 1"
  "dc_replay (after_exchange k) = record_nonce rw_default 0"
  by (simp_all add: after_exchange_def)

lemma after_exchange_window: "represents (dc_replay (after_exchange k)) {0}"
  using window.hist_upd [of rw_default "{}" 0] represents_default by (simp add: acceptable_def rw_default_def)


text \<open>A stateless session of the concrete Noise instance.\<close>

lemma sample_stateless_session: "stateless_session sample_noise sample_aead sample_inst 2"
  unfolding stateless_session_def using sample_aead_correct
  by (auto simp: sample_inst_def sample_noise_def)

section \<open>Properties\<close>




text \<open>
  A valid client with 128 services that share a 512-byte token, the longest the validation allows.
\<close>

definition big_client :: side where
  "big_client = (sample_side False)\<lparr>sd_default_token := Some (replicate 512 CHR ''t''),
     sd_services := map (\<lambda>i. (replicate (Suc i) CHR ''a'', (sample_service False)\<lparr>sv_token := None\<rparr>)) [0..<128]\<rparr>"

lemma replicate_less: "m < n \<Longrightarrow> replicate m CHR ''a'' < replicate n CHR ''a''"
proof (induction m arbitrary: n)
  case 0
  then show ?case by (cases n) simp_all
next
  case (Suc m)
  then show ?case by (cases n) simp_all
qed

lemma big_client_valid: "valid_side sample_b64 big_client False" "btree (sd_services big_client)"
proof -
  have "valid_service big_client False (replicate (Suc i) CHR ''a'', (sample_service False)\<lparr>sv_token := None\<rparr>)" if "i < 128" for i
    using that by (simp add: valid_service_def big_client_def token_def service_retry_def sample_service_def sample_side_def
        retry_interval_def)
  then show "valid_side sample_b64 big_client False"
    using sample_valid [of False]
    by (auto simp: valid_side_def big_client_def keep_alive_def idle_timeout_def valid_role_def)
  show "btree (sd_services big_client)"
    by (simp add: btree_def big_client_def comp_def sorted_wrt_map replicate_less)
       (auto simp: sorted_wrt_iff_nth_less replicate_less simp del: replicate_Suc)
qed

lemma big_client_tokens: "(\<Sum>x\<leftarrow>rg_services (client_registration big_client). length (of_token x)) = 65536"
  by (simp add: client_registration_def big_client_def token_def sample_service_def comp_def case_prod_beta
      sum_list_triv del: upt.simps)

text \<open>
  C40: Too large a registration fails closed. The registration is one Noise message of at most
  65535 bytes, while validation allows 256 services with tokens of 512 bytes: \<open>big_client\<close> passes
  every rule of the configuration, and whatever the server does its setup never succeeds.
\<close>

theorem big_registration_never_succeeds:
  assumes "\<And>k n m cap. 65535 < length m + 16 \<Longrightarrow> \<not> is_ok (sl_write A k n m cap)"
    and "\<And>reg js. to_vec reg = Ok js \<Longrightarrow> (\<Sum>x\<leftarrow>rg_services reg. length (of_token x)) \<le> length js"
  shows "valid_side sample_b64 big_client False \<and> btree (sd_services big_client) \<and>
    client_setup fuel N A W R b64 export to_vec big_client elapsed bi \<noteq> Some (Ok u)"
proof -
  have seal: "dc_seal A (dc_new k) js \<noteq> (Ok d, c')" if "to_vec (client_registration big_client) = Ok js" for k js d c'
  proof -
    have "65535 < length js + 16" using assms(2) [OF that] big_client_tokens by simp
    then have "\<not> is_ok (sl_write A k 0 js (length js + 16))" by (rule assms(1))
    then show ?thesis by (auto simp: dc_seal_def nonce_limit_eq is_ok_iff Let_def split: result.splits)
  qed
  have "client_setup fuel N A W R b64 export to_vec big_client elapsed bi \<noteq> Some (Ok u)"
    using seal by (auto simp: client_setup_def initiate_datagram_def
        split: if_splits result.splits prod.splits option.splits)
  then show ?thesis using big_client_valid by blast
qed

theorem big_registration_never_succeeds_witness:
  "\<forall>u. client_setup 4 sample_noise sample_aead list_send list_recv sample_b64 sample_export
     (\<lambda>reg. Ok (concat (map (\<lambda>x. ascii (of_token x)) (rg_services reg)))) big_client 0 (Ok ([], [])) \<noteq> Some (Ok u)"
  by (rule allI, rule big_registration_never_succeeds [THEN conjunct2, THEN conjunct2])
     (auto simp: sample_aead_def ascii_def length_concat comp_def)

end
