(* ===== verification/Flow_Table.thy ===== *)
theory Flow_Table
  imports Proxy
begin

text \<open>
  The server's UDP flow table, \<open>Flow\<close> and \<open>Flows\<close> of \<open>src/proxy/server.rs\<close>, with every
  operation the session performs on it: the lookup or allocation in \<open>udp_listener\<close>, the
  routing of a packet that comes back from the client, and the periodic expiry. A peer of a
  service has one flow; flow ids are handed out in order and never again.
\<close>

section \<open>Operations\<close>

record 'u flow =
  fl_service :: u16
  fl_peer :: socket_addr
  fl_socket :: 'u
  fl_touched :: instant

record 'u flows =
  fs_next :: u64
  fs_by_id :: "(u64, 'u flow) fmap"
  fs_by_peer :: "(u16 \<times> socket_addr, u64) fmap"

definition flows_new :: "'u flows" where
  "flows_new = \<lparr>fs_next = 0, fs_by_id = fmempty, fs_by_peer = fmempty\<rparr>"

definition flows_expire :: "'u flows \<Rightarrow> duration \<Rightarrow> instant \<Rightarrow> 'u flows" where
  "flows_expire f idle now =
     (let ids = hm_retain (\<lambda>_ fl. now - fl_touched fl < idle) (fs_by_id f)
      in f\<lparr>fs_by_id := ids, fs_by_peer := hm_retain (\<lambda>_ i. hm_contains ids i) (fs_by_peer f)\<rparr>)"

text \<open>
  The critical section of \<open>udp_listener\<close> for a datagram of \<open>peer\<close> on service \<open>sid\<close>. The
  \<open>unwrap\<close> of a missing flow is the \<open>Panicked\<close> branch; \<open>Ok None\<close> drops the datagram.
\<close>

definition flow_for_peer :: "'u flows \<Rightarrow> usize \<Rightarrow> u16 \<Rightarrow> socket_addr \<Rightarrow> 'u \<Rightarrow> instant
    \<Rightarrow> u64 option result \<times> 'u flows" where
  "flow_for_peer f max_flows sid peer socket now =
     (case fmlookup (fs_by_peer f) (sid, peer) of
        Some i \<Rightarrow>
          (case fmlookup (fs_by_id f) i of
             None \<Rightarrow> (Err Panicked, f)
           | Some fl \<Rightarrow> (Ok (Some i), f\<lparr>fs_by_id := fmupd i (fl\<lparr>fl_touched := now\<rparr>) (fs_by_id f)\<rparr>))
      | None \<Rightarrow>
          if hm_len (fs_by_id f) < unat max_flows then
            (case checked_succ (fs_next f) of
               None \<Rightarrow> (Err (ProxyError FlowIdsExhausted), f)
             | Some n \<Rightarrow>
                 (Ok (Some (fs_next f)),
                  \<lparr>fs_next = n,
                   fs_by_id = fmupd (fs_next f) \<lparr>fl_service = sid, fl_peer = peer,
                     fl_socket = socket, fl_touched = now\<rparr> (fs_by_id f),
                   fs_by_peer = fmupd (sid, peer) (fs_next f) (fs_by_peer f)\<rparr>))
          else (Ok None, f))"

text \<open>Where a packet from the client goes: the socket and the peer of its flow.\<close>

definition reply_route :: "'u flows \<Rightarrow> u16 \<Rightarrow> u64 \<Rightarrow> instant \<Rightarrow> ('u \<times> socket_addr) option \<times> 'u flows" where
  "reply_route f service i now =
     (case fmlookup (fs_by_id f) i of
        None \<Rightarrow> (None, f)
      | Some fl \<Rightarrow>
          if fl_service fl = service
          then (Some (fl_socket fl, fl_peer fl),
                f\<lparr>fs_by_id := fmupd i (fl\<lparr>fl_touched := now\<rparr>) (fs_by_id f)\<rparr>)
          else (None, f))"

text \<open>The operations of a session on its table, in the order the mutex serialises them.\<close>

datatype 'u flow_event =
    Arrival u16 socket_addr 'u instant
  | Reply u16 u64 instant
  | Expire instant

fun flow_step :: "usize \<Rightarrow> duration \<Rightarrow> 'u flow_event \<Rightarrow> 'u flows \<Rightarrow> 'u flows" where
  "flow_step max_flows idle (Arrival sid peer socket now) f = snd (flow_for_peer f max_flows sid peer socket now)"
| "flow_step max_flows idle (Reply service i now) f = snd (reply_route f service i now)"
| "flow_step max_flows idle (Expire now) f = flows_expire f idle now"

definition flow_run :: "usize \<Rightarrow> duration \<Rightarrow> 'u flow_event list \<Rightarrow> 'u flows \<Rightarrow> 'u flows" where
  "flow_run max_flows idle evs f = fold (flow_step max_flows idle) evs f"

fun event_time :: "'u flow_event \<Rightarrow> instant" where
  "event_time (Arrival sid peer socket now) = now"
| "event_time (Reply service i now) = now"
| "event_time (Expire now) = now"

text \<open>Who owns a flow id, and the invariant of the table.\<close>

definition owner :: "'u flows \<Rightarrow> u64 \<Rightarrow> (u16 \<times> socket_addr) option" where
  "owner f i = map_option (\<lambda>fl. (fl_service fl, fl_peer fl)) (fmlookup (fs_by_id f) i)"

definition flows_wf :: "usize \<Rightarrow> 'u flows \<Rightarrow> bool" where
  "flows_wf max_flows f \<longleftrightarrow>
     (\<forall>k i. fmlookup (fs_by_peer f) k = Some i \<longleftrightarrow> owner f i = Some k) \<and>
     (\<forall>i k. owner f i = Some k \<longrightarrow> i < fs_next f) \<and>
     hm_len (fs_by_id f) \<le> unat max_flows"

section \<open>The interface of an ownership table\<close>

text \<open>
  A table whose steps only ever give away fresh keys: the keys below \<open>mark\<close> have been handed
  out, \<open>mark\<close> never goes down, and a step changes the owner of a key below it only by
  forgetting it. Then a key handed out once never serves anyone else, however long the run.
\<close>

locale fresh_keys = event_machine step good
  for step :: "'ev \<Rightarrow> 'st \<Rightarrow> 'st" and good :: "'st \<Rightarrow> bool" +
  fixes own :: "'st \<Rightarrow> 'k::linorder \<Rightarrow> 'o option" and mark :: "'st \<Rightarrow> 'k"
  assumes mark_mono: "good s \<Longrightarrow> mark s \<le> mark (step ev s)"
    and own_old: "good s \<Longrightarrow> own (step ev s) k = Some x \<Longrightarrow> k < mark s \<Longrightarrow> own s k = Some x"
    and own_below: "good s \<Longrightarrow> own s k = Some x \<Longrightarrow> k < mark s"
begin

lemma mark_run: "good s \<Longrightarrow> mark s \<le> mark (fold step evs s)"
proof (induction evs arbitrary: s)
  case (Cons ev evs)
  then have "mark (step ev s) \<le> mark (fold step evs (step ev s))" using good_step by blast
  then show ?case using mark_mono [OF Cons.prems, of ev] by (auto intro: order_trans)
qed simp

lemma own_run:
  "good s \<Longrightarrow> own (fold step evs s) k = Some x \<Longrightarrow> k < mark s \<Longrightarrow> own s k = Some x"
proof (induction evs arbitrary: s)
  case (Cons ev evs)
  then have "k < mark (step ev s)" using mark_mono [of s ev] by (auto intro: less_le_trans)
  then have "own (step ev s) k = Some x" using Cons good_step by simp
  then show ?case using Cons.prems own_old by blast
qed simp

lemma own_constant:
  assumes "good s" "own s k = Some x" "own (fold step evs s) k = Some y"
  shows "x = y"
proof -
  have "own s k = Some y" using assms own_below own_run by blast
  then show ?thesis using assms(2) by simp
qed

end

section \<open>Operations preserve the invariant\<close>

lemma flows_wf_peer: "flows_wf m f \<Longrightarrow> fmlookup (fs_by_peer f) k = Some i \<longleftrightarrow> owner f i = Some k"
  and flows_wf_below: "flows_wf m f \<Longrightarrow> owner f i = Some k \<Longrightarrow> i < fs_next f"
  and flows_wf_len: "flows_wf m f \<Longrightarrow> hm_len (fs_by_id f) \<le> unat m"
  unfolding flows_wf_def by blast+

lemma flows_wf_unowned: "flows_wf m f \<Longrightarrow> fmlookup (fs_by_peer f) k = None \<Longrightarrow> owner f i \<noteq> Some k"
  using flows_wf_peer [of m f k i] by auto

lemma owner_upd [simp]:
  "owner (f\<lparr>fs_by_id := fmupd i fl (fs_by_id f)\<rparr>) j =
     (if j = i then Some (fl_service fl, fl_peer fl) else owner f j)"
  by (simp add: owner_def)

lemma owner_next [simp]: "owner (f\<lparr>fs_next := n\<rparr>) = owner f" "owner (f\<lparr>fs_by_peer := p\<rparr>) = owner f"
  by (auto simp: owner_def)

lemma owner_expire:
  "owner (flows_expire f idle now) i =
     (case fmlookup (fs_by_id f) i of None \<Rightarrow> None
      | Some fl \<Rightarrow> if now - fl_touched fl < idle then owner f i else None)"
  by (auto simp: owner_def flows_expire_def Let_def split: option.splits)

lemma hm_contains_owner: "hm_contains (fs_by_id f) i \<longleftrightarrow> owner f i \<noteq> None"
  by (simp add: hm_contains_def owner_def)

lemma touch_wf:
  assumes "flows_wf m f" "fmlookup (fs_by_id f) i = Some fl"
  shows "flows_wf m (f\<lparr>fs_by_id := fmupd i (fl\<lparr>fl_touched := now\<rparr>) (fs_by_id f)\<rparr>)"
    and "owner (f\<lparr>fs_by_id := fmupd i (fl\<lparr>fl_touched := now\<rparr>) (fs_by_id f)\<rparr>) = owner f"
proof -
  show own: "owner (f\<lparr>fs_by_id := fmupd i (fl\<lparr>fl_touched := now\<rparr>) (fs_by_id f)\<rparr>) = owner f"
    using assms(2) by (auto simp: fun_eq_iff owner_def)
  show "flows_wf m (f\<lparr>fs_by_id := fmupd i (fl\<lparr>fl_touched := now\<rparr>) (fs_by_id f)\<rparr>)"
    unfolding flows_wf_def own using assms by (simp add: flows_wf_def hm_len_upd hm_contains_def)
qed

lemma flows_wf_new: "flows_wf m flows_new"
  by (simp add: flows_wf_def flows_new_def owner_def)

lemma flows_wf_expire: "flows_wf m f \<Longrightarrow> flows_wf m (flows_expire f idle now)"
proof -
  assume wf: "flows_wf m f"
  let ?f = "flows_expire f idle now"
  have peer: "fmlookup (fs_by_peer ?f) k = Some i \<longleftrightarrow> fmlookup (fs_by_peer f) k = Some i \<and> owner ?f i \<noteq> None" for k i
    by (auto simp: flows_expire_def Let_def owner_def hm_contains_def split: option.splits)
  have sub: "owner ?f i = Some k \<Longrightarrow> owner f i = Some k" for i k
    by (auto simp: owner_expire split: option.splits if_splits)
  have "hm_len (fs_by_id ?f) \<le> hm_len (fs_by_id f)"
    by (simp add: flows_expire_def Let_def hm_len_retain)
  moreover have "fs_next ?f = fs_next f" by (simp add: flows_expire_def Let_def)
  moreover have "fmlookup (fs_by_peer ?f) k = Some i \<longleftrightarrow> owner ?f i = Some k" for k i
    using wf sub [of i] unfolding peer flows_wf_def by (metis not_Some_eq option.inject)
  ultimately show ?thesis using wf sub unfolding flows_wf_def by fastforce
qed

lemma flows_wf_alloc:
  assumes wf: "flows_wf m f" and new: "fmlookup (fs_by_peer f) (sid, peer) = None"
    and room: "hm_len (fs_by_id f) < unat m" and succ: "checked_succ (fs_next f) = Some n"
    and f': "f' = \<lparr>fs_next = n, fs_by_id = fmupd (fs_next f) \<lparr>fl_service = sid, fl_peer = peer,
      fl_socket = socket, fl_touched = now\<rparr> (fs_by_id f),
      fs_by_peer = fmupd (sid, peer) (fs_next f) (fs_by_peer f)\<rparr>"
  shows "fs_next f < fs_next f'" and "owner f' = (owner f)(fs_next f \<mapsto> (sid, peer))" and "flows_wf m f'"
proof -
  show lt: "fs_next f < fs_next f'"
    using checked_succ_Some [OF succ] by (simp add: f' word_less_nat_alt)
  show own: "owner f' = (owner f)(fs_next f \<mapsto> (sid, peer))" by (auto simp: f' fun_eq_iff owner_def)
  have free: "owner f (fs_next f) = None" using wf unfolding flows_wf_def by (meson less_irrefl not_Some_eq)
  have none: "owner f i \<noteq> Some (sid, peer)" for i using flows_wf_unowned [OF wf new] .
  have "hm_len (fs_by_id f') \<le> unat m" using room by (simp add: f' hm_len_upd)
  moreover have "i < fs_next f'" if "owner f' i = Some k" for i k
    using that flows_wf_below [OF wf, of i k] lt unfolding own
    by (cases "i = fs_next f") (auto intro: less_trans)
  moreover have "fmlookup (fs_by_peer f') k = Some i \<longleftrightarrow> owner f' i = Some k" for k i
    using flows_wf_peer [OF wf, of k i] free none unfolding own by (auto simp: f')
  ultimately show "flows_wf m f'" unfolding flows_wf_def by simp
qed

text \<open>Everything \<open>flow_for_peer\<close> can do on a well-formed table.\<close>

lemma flow_for_peer_cases:
  assumes wf: "flows_wf m f" and out: "flow_for_peer f m sid peer socket now = (x, f')"
  obtains (known) i where "x = Ok (Some i)" "owner f i = Some (sid, peer)" "owner f' = owner f"
      "fs_next f' = fs_next f" "flows_wf m f'"
  | (fresh) "x = Ok (Some (fs_next f))" "\<forall>i. owner f i \<noteq> Some (sid, peer)"
      "owner f' = (owner f)(fs_next f \<mapsto> (sid, peer))" "fs_next f < fs_next f'" "flows_wf m f'"
  | (refused) "x = Ok None" "\<forall>i. owner f i \<noteq> Some (sid, peer)" "hm_len (fs_by_id f) = unat m" "f' = f"
  | (exhausted) "x = Err (ProxyError FlowIdsExhausted)" "fs_next f = - 1" "f' = f"
proof (cases "fmlookup (fs_by_peer f) (sid, peer)")
  case (Some i)
  then have own: "owner f i = Some (sid, peer)" using wf by (simp add: flows_wf_def)
  then obtain fl where fl: "fmlookup (fs_by_id f) i = Some fl" by (auto simp: owner_def)
  have "f' = f\<lparr>fs_by_id := fmupd i (fl\<lparr>fl_touched := now\<rparr>) (fs_by_id f)\<rparr>" "x = Ok (Some i)"
    using out Some fl by (auto simp: flow_for_peer_def)
  then show ?thesis using known own touch_wf [OF wf fl] by simp
next
  case None
  then have none: "\<forall>i. owner f i \<noteq> Some (sid, peer)" using flows_wf_unowned [OF wf] by blast
  consider (full) "\<not> hm_len (fs_by_id f) < unat m"
    | (top) "hm_len (fs_by_id f) < unat m" "checked_succ (fs_next f) = None"
    | (alloc) n where "hm_len (fs_by_id f) < unat m" "checked_succ (fs_next f) = Some n"
    by fastforce
  then show ?thesis
  proof cases
    case full
    then have "hm_len (fs_by_id f) = unat m" using wf by (simp add: flows_wf_def)
    then show ?thesis using refused none out None by (simp add: flow_for_peer_def)
  next
    case top
    then have "fs_next f = - 1" by (simp add: checked_succ_def split: if_splits)
    then show ?thesis using exhausted out None top by (simp add: flow_for_peer_def)
  next
    case (alloc n)
    have "x = Ok (Some (fs_next f))" "f' = \<lparr>fs_next = n, fs_by_id = fmupd (fs_next f)
        \<lparr>fl_service = sid, fl_peer = peer, fl_socket = socket, fl_touched = now\<rparr> (fs_by_id f),
        fs_by_peer = fmupd (sid, peer) (fs_next f) (fs_by_peer f)\<rparr>"
      using out None alloc by (simp_all add: flow_for_peer_def)
    then show ?thesis using fresh none flows_wf_alloc [OF wf None alloc] by blast
  qed
qed

lemma reply_route_wf:
  "flows_wf m f \<Longrightarrow> flows_wf m (snd (reply_route f service i now)) \<and>
     owner (snd (reply_route f service i now)) = owner f \<and>
     fs_next (snd (reply_route f service i now)) = fs_next f"
  using touch_wf [of m f i] by (auto simp: reply_route_def split: option.splits)

lemma reply_route_owner:
  "reply_route f service i now = (Some (socket, peer), f') \<Longrightarrow> owner f i = Some (service, peer)"
  by (auto simp: reply_route_def owner_def split: option.splits if_splits)

interpretation flow_ids: fresh_keys "flow_step m idle" "flows_wf m" owner fs_next for m idle
proof
  fix f :: "'u flows" and ev :: "'u flow_event"
  assume wf: "flows_wf m f"
  have "flows_wf m (flow_step m idle ev f) \<and> fs_next f \<le> fs_next (flow_step m idle ev f) \<and>
      (\<forall>k x. owner (flow_step m idle ev f) k = Some x \<longrightarrow> k < fs_next f \<longrightarrow> owner f k = Some x)"
  proof (cases ev)
    case (Arrival sid peer socket now)
    obtain x f' where out: "flow_for_peer f m sid peer socket now = (x, f')" by fastforce
    show ?thesis
      using wf out Arrival by (cases rule: flow_for_peer_cases [OF wf out]) (auto split: if_splits)
  next
    case (Reply service i now)
    then show ?thesis using reply_route_wf [OF wf] by simp
  next
    case (Expire now)
    then show ?thesis using flows_wf_expire [OF wf]
      by (auto simp: flows_expire_def Let_def owner_def split: option.splits if_splits)
  qed
  then show "flows_wf m (flow_step m idle ev f)" "fs_next f \<le> fs_next (flow_step m idle ev f)"
    "\<And>k x. owner (flow_step m idle ev f) k = Some x \<Longrightarrow> k < fs_next f \<Longrightarrow> owner f k = Some x"
    by blast+
  show "\<And>k x. owner f k = Some x \<Longrightarrow> k < fs_next f" using wf by (simp add: flows_wf_def)
qed

lemma flow_run_wf: "flows_wf m f \<Longrightarrow> flows_wf m (flow_run m idle evs f)"
  unfolding flow_run_def by (rule flow_ids.good_run)

text \<open>A flow in use since \<open>now\<close>.\<close>

text \<open>Every flow goes back to an arrival of its peer on its socket.\<close>

lemma flow_step_origin:
  assumes "fmlookup (fs_by_id (flow_step m idle ev f)) i = Some fl"
  shows "(\<exists>fl'. fmlookup (fs_by_id f) i = Some fl' \<and> fl_service fl' = fl_service fl \<and> fl_peer fl' = fl_peer fl \<and>
      fl_socket fl' = fl_socket fl) \<or> (\<exists>t. ev = Arrival (fl_service fl) (fl_peer fl) (fl_socket fl) t)"
  using assms
  by (cases ev) (auto simp: flow_for_peer_def reply_route_def flows_expire_def Let_def split: option.splits if_splits)

lemma flow_run_origin:
  "fmlookup (fs_by_id (flow_run m idle evs flows_new)) i = Some fl \<Longrightarrow>
   \<exists>t. Arrival (fl_service fl) (fl_peer fl) (fl_socket fl) t \<in> set evs"
proof (induction evs arbitrary: fl rule: rev_induct)
  case Nil
  then show ?case by (simp add: flow_run_def flows_new_def)
next
  case (snoc ev evs)
  then have "fmlookup (fs_by_id (flow_step m idle ev (flow_run m idle evs flows_new))) i = Some fl"
    by (simp add: flow_run_def)
  from flow_step_origin [OF this] show ?case using snoc.IH by fastforce
qed

lemma live_step:
  assumes wf: "flows_wf m f" and fl: "fmlookup (fs_by_id f) i = Some fl" "now \<le> fl_touched fl"
    and t: "now \<le> event_time ev" "event_time ev < now + idle"
  shows "\<exists>fl'. fmlookup (fs_by_id (flow_step m idle ev f)) i = Some fl' \<and> now \<le> fl_touched fl' \<and>
    (fl_service fl', fl_peer fl') = (fl_service fl, fl_peer fl)"
proof (cases ev)
  case (Arrival sid peer socket at)
  have "i \<noteq> fs_next f" using flows_wf_below [OF wf, of i] fl(1) by (auto simp: owner_def)
  then show ?thesis using Arrival fl t by (auto simp: flow_for_peer_def split: option.splits)
next
  case (Reply service j at)
  then show ?thesis using fl t by (auto simp: reply_route_def split: option.splits)
next
  case (Expire at)
  then show ?thesis using fl t by (auto simp: flows_expire_def Let_def)
qed

lemma live_run:
  "flows_wf m f \<Longrightarrow> fmlookup (fs_by_id f) i = Some fl \<Longrightarrow> now \<le> fl_touched fl \<Longrightarrow>
   \<forall>ev \<in> set evs. now \<le> event_time ev \<and> event_time ev < now + idle \<Longrightarrow>
   owner (flow_run m idle evs f) i = Some (fl_service fl, fl_peer fl)"
proof (induction evs arbitrary: f fl)
  case Nil
  then show ?case by (simp add: flow_run_def owner_def)
next
  case (Cons ev evs)
  obtain fl' where "fmlookup (fs_by_id (flow_step m idle ev f)) i = Some fl'" "now \<le> fl_touched fl'"
    "(fl_service fl', fl_peer fl') = (fl_service fl, fl_peer fl)"
    using live_step [OF Cons.prems(1-3), of ev idle] Cons.prems(4) by auto
  then show ?case
    using Cons.IH [OF flow_ids.good_step [OF Cons.prems(1)]] Cons.prems(4) by (simp add: flow_run_def)
qed

lemma flow_for_peer_live:
  assumes "flows_wf m f" "flow_for_peer f m sid peer socket now = (Ok (Some i), f')"
  shows "\<exists>fl. fmlookup (fs_by_id f') i = Some fl \<and> fl_touched fl = now \<and>
    (fl_service fl, fl_peer fl) = (sid, peer)"
proof (cases "fmlookup (fs_by_peer f) (sid, peer)")
  case (Some j)
  moreover from this have "owner f j = Some (sid, peer)" using flows_wf_peer [OF assms(1)] by blast
  ultimately show ?thesis using assms(2) by (auto simp: flow_for_peer_def owner_def)
next
  case None
  then show ?thesis
    using assms(2) by (auto simp: flow_for_peer_def split: if_splits option.splits)
qed

section \<open>Properties\<close>

text \<open>
  The table is bounded and consistent. After any sequence of arrivals, replies and expiries
  there are at most \<open>max_udp_flows\<close> flows, exactly one per peer entry, and the \<open>unwrap\<close> on the
  flow of a known peer cannot panic.
\<close>

lemma flow_table_sound:
  "hm_len (fs_by_id (flow_run m idle evs flows_new)) \<le> unat m \<and>
   (fmlookup (fs_by_peer (flow_run m idle evs flows_new)) k = Some i \<longleftrightarrow>
      owner (flow_run m idle evs flows_new) i = Some k) \<and>
   fst (flow_for_peer (flow_run m idle evs flows_new) m sid peer socket now) \<noteq> Err Panicked"
proof -
  let ?f = "flow_run m idle evs flows_new"
  have wf: "flows_wf m ?f" using flow_run_wf [OF flows_wf_new] .
  obtain x f' where out: "flow_for_peer ?f m sid peer socket now = (x, f')" by fastforce
  have "x \<noteq> Err Panicked" by (cases rule: flow_for_peer_cases [OF wf out]) simp_all
  then show ?thesis using flows_wf_len [OF wf] flows_wf_peer [OF wf] out by simp
qed

text \<open>
  C8: Flows are isolated. Once a flow id has been handed to a peer of a service, then however
  long the session goes on, a packet from the client with that flow id is sent to that very peer
  and only when it names that service, and no other peer is ever given the id.
\<close>

theorem flow_isolated:
  assumes "flows_wf m f" "flow_for_peer f m sid peer socket now = (Ok (Some i), f')"
    and "later = flow_run m idle evs f'"
  shows "(reply_route later service i now' = (Some (socket', peer'), f'') \<longrightarrow>
            service = sid \<and> peer' = peer) \<and>
    (flow_for_peer later m sid' peer'' socket'' now'' = (Ok (Some i), f''') \<longrightarrow>
       sid' = sid \<and> peer'' = peer)"
proof -
  have f': "flows_wf m f'" "owner f' i = Some (sid, peer)"
    by (cases rule: flow_for_peer_cases [OF assms(1,2)]; simp)+
  have later: "flows_wf m later" using flow_run_wf [OF f'(1)] assms(3) by simp
  have same: "owner later i = Some k \<Longrightarrow> k = (sid, peer)" for k
    using flow_ids.own_constant [OF f'] unfolding assms(3) flow_run_def by blast
  have below: "i < fs_next later"
    using flow_ids.mark_run [OF f'(1)] flows_wf_below [OF f'] unfolding assms(3) flow_run_def
    by (rule less_le_trans [rotated])
  have "sid' = sid \<and> peer'' = peer"
    if "flow_for_peer later m sid' peer'' socket'' now'' = (Ok (Some i), f''')"
    using below same by (cases rule: flow_for_peer_cases [OF later that]) auto
  moreover have "service = sid \<and> peer' = peer"
    if "reply_route later service i now' = (Some (socket', peer'), f'')"
    using same [OF reply_route_owner [OF that]] by simp
  ultimately show ?thesis by blast
qed

theorem flow_isolated_witness:
  "\<exists>f'. flow_for_peer flows_new 8 3 (V4 5 6) () 0 = (Ok (Some 0), f') \<and>
    reply_route (flow_run 8 60 [Arrival 3 (V4 7 6) () 1, Expire 2] f') 3 0 4 =
      (Some ((), V4 5 6), snd (reply_route (flow_run 8 60 [Arrival 3 (V4 7 6) () 1, Expire 2] f') 3 0 4))"
proof -
  obtain f' where f': "flow_for_peer flows_new 8 3 (V4 5 6) () 0 = (Ok (Some 0), f')"
    "f' = \<lparr>fs_next = 1, fs_by_id = fmupd 0 \<lparr>fl_service = 3, fl_peer = V4 5 6, fl_socket = (), fl_touched = 0\<rparr> fmempty,
       fs_by_peer = fmupd (3, V4 5 6) 0 fmempty\<rparr>"
    by (simp add: flow_for_peer_def flows_new_def checked_succ_def)
  let ?l = "flow_run 8 60 [Arrival 3 (V4 7 6) () 1, Expire 2] f'"
  obtain p f'' where r: "reply_route ?l 3 0 4 = (Some ((), p), f'')"
    unfolding f'(2)
    by (simp add: flow_run_def flow_for_peer_def hm_len_upd checked_succ_def flows_expire_def
        Let_def reply_route_def)
  have "p = V4 5 6" using flow_isolated [OF flows_wf_new f'(1) refl, of 60] r by blast
  then show ?thesis using f'(1) r by auto
qed

text \<open>
  C36: Active peers keep their flow. For \<open>udp_idle_timeout\<close> after a datagram of a peer, whatever
  other traffic and expiry runs happen in between and however full the table is, the peer's next
  datagram is carried in the same flow.
\<close>

theorem active_peer_keeps_flow:
  assumes "flows_wf m f" "flow_for_peer f m sid peer socket now = (Ok (Some i), f')"
    and "\<forall>ev \<in> set evs. now \<le> event_time ev \<and> event_time ev < now + idle"
  shows "fst (flow_for_peer (flow_run m idle evs f') m sid peer socket' now') = Ok (Some i)"
proof -
  have wf: "flows_wf m f'" by (cases rule: flow_for_peer_cases [OF assms(1,2)]) simp_all
  obtain fl where fl: "fmlookup (fs_by_id f') i = Some fl" "fl_touched fl = now"
    "(fl_service fl, fl_peer fl) = (sid, peer)"
    using flow_for_peer_live [OF assms(1,2)] by blast
  let ?f = "flow_run m idle evs f'"
  have own: "owner ?f i = Some (sid, peer)" using live_run [OF wf fl(1) _ assms(3)] fl by simp
  then have "fmlookup (fs_by_peer ?f) (sid, peer) = Some i"
    using flows_wf_peer [OF flow_run_wf [OF wf]] by blast
  with own show ?thesis by (auto simp: flow_for_peer_def owner_def)
qed

theorem active_peer_keeps_flow_witness:
  "\<exists>f'. flow_for_peer flows_new 1 3 (V4 5 6) () 0 = (Ok (Some 0), f') \<and>
    fst (flow_for_peer (flow_run 1 60 [Arrival 3 (V4 7 6) () 1, Expire 59] f') 1 3 (V4 5 6) () 99) = Ok (Some 0)"
proof -
  obtain f' where f': "flow_for_peer flows_new 1 3 (V4 5 6) () 0 = (Ok (Some 0), f')"
    by (simp add: flow_for_peer_def flows_new_def checked_succ_def)
  with active_peer_keeps_flow [OF flows_wf_new f', of "[Arrival 3 (V4 7 6) () 1, Expire 59]" 60]
  show ?thesis by simp
qed


end
