(* ===== verification/Tokio.thy ===== *)
theory Tokio
  imports Base
begin

text \<open>
  What the sessions use of tokio's semaphores and channels, as parameters: records of the calls,
  with the documented behaviour as hypotheses. Permits are counted: an acquisition takes permits
  if enough are free and never waits, and dropping a permit gives them back. A bounded channel
  delivers in order and refuses a message when it is full. The locale \<open>bounded_resource\<close> is the
  contract of every component that hands permits out.
\<close>

record 'q semaphore_api =
  sem_new :: "nat \<Rightarrow> 'q"
  sem_try_acquire :: "'q \<Rightarrow> nat \<Rightarrow> 'q option"
  sem_release :: "'q \<Rightarrow> nat \<Rightarrow> 'q"

definition semaphore_counts :: "'q semaphore_api \<Rightarrow> ('q \<Rightarrow> nat) \<Rightarrow> bool" where
  "semaphore_counts S free \<longleftrightarrow>
     (\<forall>n. free (sem_new S n) = n) \<and>
     (\<forall>q n. sem_try_acquire S q n = None \<longleftrightarrow> free q < n) \<and>
     (\<forall>q n q'. sem_try_acquire S q n = Some q' \<longrightarrow> free q' + n = free q) \<and>
     (\<forall>q n. free (sem_release S q n) = free q + n)"

text \<open>A semaphore that is its count, for concrete instances.\<close>

definition count_semaphore :: "nat semaphore_api" where
  "count_semaphore = \<lparr>sem_new = (\<lambda>n. n),
     sem_try_acquire = (\<lambda>q n. if n \<le> q then Some (q - n) else None), sem_release = (+)\<rparr>"

lemma count_semaphore_counts: "semaphore_counts count_semaphore (\<lambda>q. q)"
  by (auto simp: semaphore_counts_def count_semaphore_def split: if_splits)

lemma semaphore_countsD:
  assumes "semaphore_counts S free"
  shows "free (sem_new S n) = n" and "sem_try_acquire S q n = None \<longleftrightarrow> free q < n"
    and "sem_try_acquire S q n = Some q' \<Longrightarrow> free q' + n = free q" and "free (sem_release S q n) = free q + n"
  using assms unfolding semaphore_counts_def by blast+

text \<open>
  \<open>mpsc::channel(n)\<close>: \<open>try_send\<close> never waits, \<open>recv\<close> yields \<open>None\<close> while the channel is empty, and
  dropping the receiver drops the messages it has not received.
\<close>

record ('ch, 'm) channel_api =
  ch_new :: "nat \<Rightarrow> 'ch"
  ch_try_send :: "'ch \<Rightarrow> 'm \<Rightarrow> 'ch option"
  ch_recv :: "'ch \<Rightarrow> ('m \<times> 'ch) option"
  ch_dropped :: "'ch \<Rightarrow> 'm list"

definition channel_fifo :: "('ch, 'm) channel_api \<Rightarrow> ('ch \<Rightarrow> 'm list) \<Rightarrow> ('ch \<Rightarrow> nat) \<Rightarrow> bool" where
  "channel_fifo C items room \<longleftrightarrow>
     (\<forall>n. items (ch_new C n) = [] \<and> room (ch_new C n) = n) \<and>
     (\<forall>c m. ch_try_send C c m = None \<longleftrightarrow> room c \<le> length (items c)) \<and>
     (\<forall>c m c'. ch_try_send C c m = Some c' \<longrightarrow> items c' = items c @ [m] \<and> room c' = room c) \<and>
     (\<forall>c. ch_recv C c = None \<longleftrightarrow> items c = []) \<and>
     (\<forall>c m c'. ch_recv C c = Some (m, c') \<longrightarrow> items c = m # items c' \<and> room c' = room c) \<and>
     (\<forall>c. ch_dropped C c = items c)"

definition list_channel :: "(nat \<times> 'm list, 'm) channel_api" where
  "list_channel = \<lparr>ch_new = (\<lambda>n. (n, [])),
     ch_try_send = (\<lambda>(n, ms) m. if length ms < n then Some (n, ms @ [m]) else None),
     ch_recv = (\<lambda>(n, ms). case ms of [] \<Rightarrow> None | m # rest \<Rightarrow> Some (m, n, rest)),
     ch_dropped = snd\<rparr>"

lemma list_channel_fifo: "channel_fifo list_channel snd fst"
  by (auto simp: channel_fifo_def list_channel_def not_less split: if_splits list.splits)

lemma channel_fifoD:
  assumes "channel_fifo C items room"
  shows "items (ch_new C n) = []" and "room (ch_new C n) = n"
    and "ch_try_send C c m = None \<longleftrightarrow> room c \<le> length (items c)"
    and "ch_try_send C c m = Some c' \<Longrightarrow> items c' = items c @ [m] \<and> room c' = room c"
    and "ch_recv C c = None \<longleftrightarrow> items c = []"
    and "ch_recv C c = Some (m, c') \<Longrightarrow> items c = m # items c' \<and> room c' = room c"
    and "ch_dropped C c = items c"
  using assms unfolding channel_fifo_def by blast+

text \<open>
  A machine that keeps the permits it has handed out (\<open>held\<close>) and the free ones (\<open>free\<close>) in
  balance with a fixed capacity never holds more than that, whatever happens to it.
\<close>

locale bounded_resource = event_machine step good
  for step :: "'e \<Rightarrow> 's \<Rightarrow> 's" and good :: "'s \<Rightarrow> bool" +
  fixes free :: "'s \<Rightarrow> nat" and held :: "'s \<Rightarrow> nat" and cap :: nat
  assumes balance: "good s \<Longrightarrow> free s + held s = cap"
begin

lemma run_bounded: "good s \<Longrightarrow> held (fold step evs s) \<le> cap"
  using balance [OF good_run, of s evs] by simp

lemma run_exhausted: "good s \<Longrightarrow> free (fold step evs s) = 0 \<longleftrightarrow> held (fold step evs s) = cap"
  using balance [OF good_run, of s evs] by auto

end

end
