(* ===== verification/Server.thy ===== *)
theory Server
  imports Session_Setup Flow_Table Tokio
begin

text \<open>
  The server, \<open>src/proxy/server.rs\<close>: the accept loop of \<open>run\<close> with its connection slots, and a
  session after its setup, with the loop of \<open>session\<close>, the TCP and UDP listeners it has spawned
  and the state they share. Whatever happens next (a datagram, a timer, an accepted connection,
  the end of a task) is an event; one event is one round of one of the loops, and a run is any
  sequence of events.
\<close>

section \<open>The accept loop\<close>

text \<open>
  \<open>sr_active\<close> counts the session tasks, each of which holds a permit; \<open>sr_open\<close> is false once the
  loop has ended. The decision on a connection attempt is an \<open>incoming\<close>.
\<close>

datatype incoming = Retry | Refuse | Accept

record 'q server_run =
  sr_slots :: 'q
  sr_active :: nat
  sr_open :: bool
  sr_decisions :: "incoming list"

datatype run_event = Shutdown | EndpointClosed | Incoming bool | SessionEnded

definition run_new :: "'q semaphore_api \<Rightarrow> side \<Rightarrow> 'q server_run" where
  "run_new S cfg = \<lparr>sr_slots = sem_new S (unat (q_max_connections (tr_quic (sd_transport cfg)))),
     sr_active = 0, sr_open = True, sr_decisions = []\<rparr>"

text \<open>
  After the loop \<open>endpoint.close\<close>, \<open>abort_all\<close> and the wait for the tasks end every session. An
  \<open>Incoming validated\<close> attempt whose source address is not validated is answered by a stateless
  retry, before a slot is taken.
\<close>

fun run_step :: "'q semaphore_api \<Rightarrow> run_event \<Rightarrow> 'q server_run \<Rightarrow> 'q server_run" where
  "run_step S Shutdown st =
     (if \<not> sr_open st then st
      else st\<lparr>sr_open := False, sr_slots := sem_release S (sr_slots st) (sr_active st), sr_active := 0\<rparr>)"
| "run_step S EndpointClosed st =
     (if \<not> sr_open st then st
      else st\<lparr>sr_open := False, sr_slots := sem_release S (sr_slots st) (sr_active st), sr_active := 0\<rparr>)"
| "run_step S (Incoming validated) st =
     (if \<not> sr_open st then st
      else if \<not> validated then st\<lparr>sr_decisions := sr_decisions st @ [Retry]\<rparr>
      else case sem_try_acquire S (sr_slots st) 1 of
        None \<Rightarrow> st\<lparr>sr_decisions := sr_decisions st @ [Refuse]\<rparr>
      | Some q \<Rightarrow> st\<lparr>sr_slots := q, sr_active := sr_active st + 1, sr_decisions := sr_decisions st @ [Accept]\<rparr>)"
| "run_step S SessionEnded st =
     (if sr_active st = 0 then st
      else st\<lparr>sr_slots := sem_release S (sr_slots st) 1, sr_active := sr_active st - 1\<rparr>)"

text \<open>
  What \<open>run\<close> does before its loop: resolve the address, create the endpoint (a parameter, the
  transport's \<open>server\<close>) and read back its local address for the log line.
\<close>

definition server_start :: "(string \<Rightarrow> duration \<times> socket_addr list result) \<Rightarrow> (socket_addr \<Rightarrow> quic \<Rightarrow> 'e result)
    \<Rightarrow> ('e \<Rightarrow> socket_addr result) \<Rightarrow> 'q semaphore_api \<Rightarrow> side \<Rightarrow> ('e \<times> 'q server_run) result" where
  "server_start lookup endpoint local_addr S cfg =
     rbind (ok_or (sd_bind_addr cfg) Panicked) (\<lambda>addr.
     rbind (resolve lookup addr (sd_prefer_ipv6 cfg)) (\<lambda>a.
     rbind (endpoint a (tr_quic (sd_transport cfg))) (\<lambda>ep.
     rbind (local_addr ep) (\<lambda>_.
     Ok (ep, run_new S cfg)))))"

section \<open>The listeners\<close>

text \<open>
  What \<open>recv_from\<close> returns: a datagram with its sender, or an I/O error with its kind.
\<close>

datatype io_kind = ConnectionReset | ConnectionRefused | OtherIo

type_synonym received = "(bytes \<times> socket_addr) + (io_kind \<times> error)"

definition udp_listener_iter :: "'k stateless_api \<Rightarrow> 'c datagram_conn \<Rightarrow> usize \<Rightarrow> u16 \<Rightarrow> 'l \<Rightarrow> received \<Rightarrow> instant
    \<Rightarrow> 'k sender \<Rightarrow> 'c \<Rightarrow> 'l flows \<Rightarrow> unit result \<times> 'k sender \<times> 'c \<times> 'l flows" where
  "udp_listener_iter A N max_flows sid socket packet now sender conn flows =
     (case packet of
        Inr (k, e) \<Rightarrow> if k = ConnectionReset \<or> k = ConnectionRefused then (Ok (), sender, conn, flows) else (Err e, sender, conn, flows)
      | Inl (buf, peer) \<Rightarrow>
          if MAX_PAYLOAD < length buf then (Ok (), sender, conn, flows) else
          (case flow_for_peer flows max_flows sid peer socket now of
             (Err e, flows') \<Rightarrow> (Err e, sender, conn, flows')
           | (Ok None, flows') \<Rightarrow> (Ok (), sender, conn, flows')
           | (Ok (Some flow), flows') \<Rightarrow>
               (case send_payload A N sender conn sid flow buf of
                  (x, sender', conn') \<Rightarrow> (x, sender', conn', flows'))))"

text \<open>
  A round of \<open>tcp_listener\<close>: without a free stream slot the connection is dropped. \<open>Some tcp\<close> is a
  connection for which a \<open>tcp_server\<close> task has been spawned with the permit.
\<close>

definition tcp_listener_iter :: "'q semaphore_api \<Rightarrow> ('p \<Rightarrow> bool \<Rightarrow> unit result) \<Rightarrow> bool \<Rightarrow> 'q \<Rightarrow> 'p result
    \<Rightarrow> 'p option result \<times> 'q" where
  "tcp_listener_iter S set_nodelay delay slots accepted =
     (case accepted of
        Err e \<Rightarrow> (Err e, slots)
      | Ok tcp \<Rightarrow>
          (case sem_try_acquire S slots 1 of
             None \<Rightarrow> (Ok None, slots)
           | Some q \<Rightarrow>
               (case set_nodelay tcp delay of
                  Err e \<Rightarrow> (Err e, sem_release S q 1)
                | Ok _ \<Rightarrow> (Ok (Some tcp), q))))"

section \<open>A session\<close>

text \<open>
  A listener task: \<open>li_tasks\<close> are the TCP connections it forwards, \<open>li_result\<close> what it has returned
  (it never does so without an error). \<open>ss_out\<close> logs the \<open>send_to\<close> calls, whose results the code
  ignores; \<open>ss_result\<close> is the error the session has ended with.
\<close>

record 'l listener =
  li_service :: service
  li_bound :: "'l bound"
  li_tasks :: nat
  li_result :: "unit result option"

record ('k, 'c, 'l, 'q) server_session =
  ss_sender :: "'k sender"
  ss_conn :: 'c
  ss_assembly :: reassembler
  ss_flows :: "'l flows"
  ss_slots :: 'q
  ss_listeners :: "'l listener list"
  ss_out :: "('l \<times> socket_addr \<times> bytes) list"
  ss_result :: "error option"

definition session_new :: "'q semaphore_api \<Rightarrow> side \<Rightarrow> 'c \<Rightarrow> 'k sender \<Rightarrow> (string \<times> service \<times> 'l bound) list
    \<Rightarrow> ('k, 'c, 'l, 'q) server_session" where
  "session_new S cfg conn sender bs = \<lparr>ss_sender = sender, ss_conn = conn, ss_assembly = ra_default,
     ss_flows = flows_new, ss_slots = sem_new S (unat (q_max_streams (tr_quic (sd_transport cfg)))),
     ss_listeners = map (\<lambda>(name, service, l). \<lparr>li_service = service, li_bound = l, li_tasks = 0, li_result = None\<rparr>) bs,
     ss_out = [], ss_result = None\<rparr>"

datatype 'p server_event =
    Closed
  | ClientStream "unit result"
  | ListenerDone nat
  | SessionTick instant
  | SessionDatagram "bytes result" instant
  | UdpReceived nat received instant
  | TcpAccepted nat "'p result"
  | TcpDone nat

text \<open>
  The routing of a packet that the client sent, and the round of the session loop for a datagram:
  \<open>read_packet\<close> stays suspended until one completes a packet.
\<close>

definition route_packet :: "packet \<Rightarrow> instant \<Rightarrow> ('k, 'c, 'l, 'q) server_session \<Rightarrow> ('k, 'c, 'l, 'q) server_session" where
  "route_packet pk now st =
     (case reply_route (ss_flows st) (pk_service pk) (pk_flow pk) now of
        (None, f) \<Rightarrow> st\<lparr>ss_flows := f\<rparr>
      | (Some (socket, peer), f) \<Rightarrow> st\<lparr>ss_flows := f, ss_out := ss_out st @ [(socket, peer, pk_payload pk)]\<rparr>)"

definition session_datagram :: "'k stateless_api \<Rightarrow> bytes \<Rightarrow> instant \<Rightarrow> ('k, 'c, 'l, 'q) server_session
    \<Rightarrow> ('k, 'c, 'l, 'q) server_session" where
  "session_datagram A d now st =
     (case packet_iter A (sn_crypto (ss_sender st)) (ss_assembly st) d now of
        (x, c, ra) \<Rightarrow>
          (let st' = st\<lparr>ss_sender := (ss_sender st)\<lparr>sn_crypto := c\<rparr>, ss_assembly := ra\<rparr>
           in case x of None \<Rightarrow> st' | Some pk \<Rightarrow> route_packet pk now st'))"

text \<open>
  A listener that returns drops its \<open>JoinSet\<close>, which ends the tasks it has spawned and frees their
  permits. Its error ends the session when \<open>join_next\<close> reports it.
\<close>

definition stop_listener :: "'q semaphore_api \<Rightarrow> nat \<Rightarrow> error \<Rightarrow> ('k, 'c, 'l, 'q) server_session \<Rightarrow> ('k, 'c, 'l, 'q) server_session" where
  "stop_listener S i e st = (let li = ss_listeners st ! i in
     st\<lparr>ss_slots := sem_release S (ss_slots st) (li_tasks li),
        ss_listeners := (ss_listeners st)[i := li\<lparr>li_tasks := 0, li_result := Some (Err e)\<rparr>]\<rparr>)"

definition running :: "('k, 'c, 'l, 'q) server_session \<Rightarrow> nat \<Rightarrow> bool" where
  "running st i \<longleftrightarrow> i < length (ss_listeners st) \<and> li_result (ss_listeners st ! i) = None"

fun session_step :: "'k stateless_api \<Rightarrow> 'c datagram_conn \<Rightarrow> 'q semaphore_api \<Rightarrow> ('p \<Rightarrow> bool \<Rightarrow> unit result) \<Rightarrow> side
    \<Rightarrow> 'p server_event \<Rightarrow> ('k, 'c, 'l, 'q) server_session \<Rightarrow> ('k, 'c, 'l, 'q) server_session" where
  "session_step A N S set_nodelay cfg Closed st = st\<lparr>ss_result := Some (ProxyError ConnectionClosed)\<rparr>"
| "session_step A N S set_nodelay cfg (ClientStream x) st =
     st\<lparr>ss_result := Some (case x of Err e \<Rightarrow> e | Ok _ \<Rightarrow> ProxyError UnexpectedStream)\<rparr>"
| "session_step A N S set_nodelay cfg (ListenerDone i) st =
     (if i < length (ss_listeners st) then
        (case li_result (ss_listeners st ! i) of
           None \<Rightarrow> st
         | Some (Err e) \<Rightarrow> st\<lparr>ss_result := Some e\<rparr>
         | Some (Ok _) \<Rightarrow> st\<lparr>ss_result := Some (ProxyError ListenerStopped)\<rparr>)
      else st)"
| "session_step A N S set_nodelay cfg (SessionTick now) st =
     st\<lparr>ss_flows := flows_expire (ss_flows st) (from_secs (unat (q_udp_idle_timeout (tr_quic (sd_transport cfg))))) now,
        ss_assembly := ra_expire (ss_assembly st) now\<rparr>"
| "session_step A N S set_nodelay cfg (SessionDatagram x now) st =
     (case x of Err e \<Rightarrow> st\<lparr>ss_result := Some e\<rparr> | Ok d \<Rightarrow> session_datagram A d now st)"
| "session_step A N S set_nodelay cfg (UdpReceived i packet now) st =
     (if running st i then
        (case li_bound (ss_listeners st ! i) of
           BoundTcp l \<Rightarrow> st
         | BoundUdp socket \<Rightarrow>
             (case udp_listener_iter A N (q_max_udp_flows (tr_quic (sd_transport cfg))) (word_of_nat i) socket packet now
                     (ss_sender st) (ss_conn st) (ss_flows st) of
                (x, sender, conn, f) \<Rightarrow>
                  (let st' = st\<lparr>ss_sender := sender, ss_conn := conn, ss_flows := f\<rparr>
                   in case x of Ok _ \<Rightarrow> st' | Err e \<Rightarrow> stop_listener S i e st')))
      else st)"
| "session_step A N S set_nodelay cfg (TcpAccepted i accepted) st =
     (if running st i then
        (case li_bound (ss_listeners st ! i) of
           BoundUdp l \<Rightarrow> st
         | BoundTcp l \<Rightarrow>
             (case tcp_listener_iter S set_nodelay (nodelay cfg (li_service (ss_listeners st ! i))) (ss_slots st) accepted of
                (x, slots) \<Rightarrow>
                  (let st' = st\<lparr>ss_slots := slots\<rparr>
                   in case x of
                        Err e \<Rightarrow> stop_listener S i e st'
                      | Ok None \<Rightarrow> st'
                      | Ok (Some tcp) \<Rightarrow> st'\<lparr>ss_listeners := (ss_listeners st)
                          [i := (ss_listeners st ! i)\<lparr>li_tasks := li_tasks (ss_listeners st ! i) + 1\<rparr>]\<rparr>)))
      else st)"
| "session_step A N S set_nodelay cfg (TcpDone i) st =
     (if running st i \<and> 0 < li_tasks (ss_listeners st ! i) then
        st\<lparr>ss_slots := sem_release S (ss_slots st) 1,
           ss_listeners := (ss_listeners st)[i := (ss_listeners st ! i)\<lparr>li_tasks := li_tasks (ss_listeners st ! i) - 1\<rparr>]\<rparr>
      else st)"

text \<open>The session ends at the first result; a run is any sequence of events up to it.\<close>

definition session_round :: "'k stateless_api \<Rightarrow> 'c datagram_conn \<Rightarrow> 'q semaphore_api \<Rightarrow> ('p \<Rightarrow> bool \<Rightarrow> unit result) \<Rightarrow> side
    \<Rightarrow> 'p server_event \<Rightarrow> ('k, 'c, 'l, 'q) server_session \<Rightarrow> ('k, 'c, 'l, 'q) server_session" where
  "session_round A N S set_nodelay cfg ev st = (if ss_result st \<noteq> None then st else session_step A N S set_nodelay cfg ev st)"

definition session_run :: "'k stateless_api \<Rightarrow> 'c datagram_conn \<Rightarrow> 'q semaphore_api \<Rightarrow> ('p \<Rightarrow> bool \<Rightarrow> unit result) \<Rightarrow> side
    \<Rightarrow> 'p server_event list \<Rightarrow> ('k, 'c, 'l, 'q) server_session \<Rightarrow> ('k, 'c, 'l, 'q) server_session" where
  "session_run A N S set_nodelay cfg evs st = fold (session_round A N S set_nodelay cfg) evs st"

section \<open>The slots of the accept loop\<close>

definition run_good :: "'q semaphore_api \<Rightarrow> ('q \<Rightarrow> nat) \<Rightarrow> nat \<Rightarrow> 'q server_run \<Rightarrow> bool" where
  "run_good S free cap st \<longleftrightarrow> semaphore_counts S free \<and> free (sr_slots st) + sr_active st = cap"

interpretation connections: bounded_resource "run_step S" "run_good S free cap" "\<lambda>st. free (sr_slots st)" sr_active cap
  for S free cap
proof
  fix st and ev :: run_event
  assume good: "run_good S free cap st"
  then have S: "semaphore_counts S free" by (simp add: run_good_def)
  show "run_good S free cap (run_step S ev st)"
    using good by (cases ev)
      (auto simp: run_good_def semaphore_countsD(4) [OF S] dest!: semaphore_countsD(3) [OF S] split: option.splits)
  show "free (sr_slots st) + sr_active st = cap" using good by (simp add: run_good_def)
qed

lemma run_new_good: "semaphore_counts S free \<Longrightarrow>
    run_good S free (unat (q_max_connections (tr_quic (sd_transport cfg)))) (run_new S cfg)"
  by (simp add: run_good_def run_new_def semaphore_countsD(1))

section \<open>The slots of a session\<close>

definition tasks_of :: "'l listener list \<Rightarrow> nat" where
  "tasks_of ls = sum_list (map li_tasks ls)"

definition session_good :: "'q semaphore_api \<Rightarrow> ('q \<Rightarrow> nat) \<Rightarrow> nat \<Rightarrow> ('k, 'c, 'l, 'q) server_session \<Rightarrow> bool" where
  "session_good S free cap st \<longleftrightarrow> semaphore_counts S free \<and> free (ss_slots st) + tasks_of (ss_listeners st) = cap"

lemma tasks_of_update:
  "i < length ls \<Longrightarrow> tasks_of (ls[i := l]) + li_tasks (ls ! i) = tasks_of ls + li_tasks l"
  using elem_le_sum_list [of i "map li_tasks ls"] unfolding tasks_of_def map_update by (simp add: sum_list_update)

lemma stop_listener_good:
  assumes "session_good S free cap st" "i < length (ss_listeners st)"
  shows "session_good S free cap (stop_listener S i e st)"
  using assms tasks_of_update [OF assms(2), of "(ss_listeners st ! i)\<lparr>li_tasks := 0, li_result := Some (Err e)\<rparr>"]
    semaphore_countsD(4) [of S free]
  by (simp add: session_good_def stop_listener_def Let_def)

lemma tcp_listener_iter_free:
  assumes "semaphore_counts S free" "tcp_listener_iter S nd delay q accepted = (x, slots)"
  shows "free slots + (case x of Ok (Some _) \<Rightarrow> 1 | _ \<Rightarrow> 0) = free q"
  using assms(2) by (auto simp: tcp_listener_iter_def semaphore_countsD(4) [OF assms(1)]
      dest!: semaphore_countsD(3) [OF assms(1)] split: result.splits option.splits)

lemma tcp_accepted_good:
  assumes good: "session_good S free cap st"
  shows "session_good S free cap (session_step A N S nd cfg (TcpAccepted i accepted) st)"
proof (cases "running st i")
  case True
  then have i: "i < length (ss_listeners st)" by (simp add: running_def)
  obtain x slots where it: "tcp_listener_iter S nd (nodelay cfg (li_service (ss_listeners st ! i))) (ss_slots st) accepted = (x, slots)"
    by fastforce
  have "semaphore_counts S free" using good by (simp add: session_good_def)
  note free = tcp_listener_iter_free [OF this it]
  show ?thesis
  proof (cases "x = Ok None \<or> (\<exists>e. x = Err e)")
    case True
    then have "session_good S free cap (st\<lparr>ss_slots := slots\<rparr>)" using good free by (auto simp: session_good_def)
    then show ?thesis
      using True good i it stop_listener_good [of S free cap "st\<lparr>ss_slots := slots\<rparr>" i]
      by (auto simp: Let_def split: bound.splits)
  next
    case False
    then obtain tcp where x: "x = Ok (Some tcp)" by (cases x) auto
    then show ?thesis
      using good i it free
        tasks_of_update [OF i, of "(ss_listeners st ! i)\<lparr>li_tasks := li_tasks (ss_listeners st ! i) + 1\<rparr>"]
      by (auto simp: session_good_def Let_def split: bound.splits)
  qed
qed (use good in simp)

lemma session_step_good:
  assumes good: "session_good S free cap st"
  shows "session_good S free cap (session_step A N S nd cfg ev st)"
proof -
  have S: "semaphore_counts S free" using good by (simp add: session_good_def)
  show ?thesis
  proof (cases ev)
    case (UdpReceived i packet now)
    show ?thesis
    proof (cases "running st i")
      case True
      then have i: "i < length (ss_listeners st)" by (simp add: running_def)
      have "session_good S free cap (st\<lparr>ss_sender := a, ss_conn := b, ss_flows := f\<rparr>)" for a b f
        using good by (simp add: session_good_def)
      then show ?thesis
        using True UdpReceived good i stop_listener_good [of S free cap "st\<lparr>ss_sender := a, ss_conn := b, ss_flows := f\<rparr>" i for a b f]
        by (auto simp: Let_def split: bound.splits prod.splits result.splits)
    qed (use UdpReceived good in simp)
  next
    case (TcpAccepted i accepted)
    then show ?thesis using tcp_accepted_good [OF good] by blast
  next
    case (TcpDone i)
    show ?thesis
    proof (cases "running st i \<and> 0 < li_tasks (ss_listeners st ! i)")
      case True
      then have i: "i < length (ss_listeners st)" by (simp add: running_def)
      show ?thesis
        using True TcpDone good semaphore_countsD(4) [OF S]
          tasks_of_update [OF i, of "(ss_listeners st ! i)\<lparr>li_tasks := li_tasks (ss_listeners st ! i) - 1\<rparr>"]
        by (auto simp: session_good_def)
    qed (use TcpDone good in auto)
  qed (use good in \<open>auto simp: session_good_def session_datagram_def route_packet_def Let_def
      split: result.splits option.splits prod.splits\<close>)
qed

interpretation streams: bounded_resource "session_round A N S nd cfg" "session_good S free cap"
    "\<lambda>st. free (ss_slots st)" "\<lambda>st. tasks_of (ss_listeners st)" cap
  for A :: "'k stateless_api" and N :: "'c datagram_conn" and S :: "'q semaphore_api" and nd :: "'p \<Rightarrow> bool \<Rightarrow> unit result"
    and cfg free cap
  by unfold_locales (simp_all add: session_round_def session_step_good, simp add: session_good_def)


section \<open>The flow table of a session\<close>

lemma stop_listener_simps [simp]:
  "ss_flows (stop_listener S i e st) = ss_flows st" "ss_assembly (stop_listener S i e st) = ss_assembly st"
  "ss_out (stop_listener S i e st) = ss_out st" "ss_result (stop_listener S i e st) = ss_result st"
  "map li_bound (ss_listeners (stop_listener S i e st)) = map li_bound (ss_listeners st)"
  by (simp_all add: stop_listener_def Let_def map_update)
     (metis list_update_beyond list_update_id map_update not_le nth_map length_map)

lemma session_round_bounds:
  "map li_bound (ss_listeners (session_round A N S nd cfg ev st)) = map li_bound (ss_listeners st)"
proof -
  have upd: "map li_bound (ls[i := (ls ! i)\<lparr>li_tasks := n\<rparr>]) = map li_bound ls" for ls :: "'l listener list" and i n
    by (cases "i < length ls") (simp_all add: map_update list_update_same_conv list_update_beyond)
  have "map li_bound (ss_listeners (session_step A N S nd cfg ev st)) = map li_bound (ss_listeners st)"
    by (cases ev) (auto simp: session_datagram_def route_packet_def Let_def upd
        split: result.splits option.splits prod.splits bound.splits)
  then show ?thesis by (simp add: session_round_def)
qed

abbreviation max_flows_of :: "side \<Rightarrow> usize" where
  "max_flows_of cfg \<equiv> q_max_udp_flows (tr_quic (sd_transport cfg))"

abbreviation idle_of :: "side \<Rightarrow> duration" where
  "idle_of cfg \<equiv> from_secs (unat (q_udp_idle_timeout (tr_quic (sd_transport cfg))))"

text \<open>
  One round changes the table by at most one operation of \<open>Flow_Table\<close>; an arrival in it stems from
  a datagram on a running UDP listener.
\<close>

lemma session_round_flows:
  "\<exists>fes. ss_flows (session_round A N S nd cfg ev st) = flow_run (max_flows_of cfg) (idle_of cfg) fes (ss_flows st) \<and>
    (\<forall>sid peer socket t. Arrival sid peer socket t \<in> set fes \<longrightarrow>
       (\<exists>i buf. ev = UdpReceived i (Inl (buf, peer)) t \<and> sid = word_of_nat i \<and>
          i < length (ss_listeners st) \<and> li_bound (ss_listeners st ! i) = BoundUdp socket))"
proof -
  have none: ?thesis if "ss_flows (session_round A N S nd cfg ev st) = ss_flows st"
    by (rule exI [of _ "[]"]) (simp add: that flow_run_def)
  show ?thesis
  proof (cases "ss_result st \<noteq> None")
    case True
    then show ?thesis by (intro none) (simp add: session_round_def)
  next
    case run: False
    show ?thesis
    proof (cases ev)
      case (SessionTick now)
      then show ?thesis using run
        by (intro exI [of _ "[Expire now]"]) (simp add: session_round_def flow_run_def)
    next
      case (SessionDatagram x now)
      then show ?thesis
      proof (cases "ss_flows (session_round A N S nd cfg ev st) = ss_flows st")
        case False
        then obtain service i where "ss_flows (session_round A N S nd cfg ev st) = snd (reply_route (ss_flows st) service i now)"
          using SessionDatagram run
          by (auto simp: session_round_def session_datagram_def route_packet_def Let_def
              split: result.splits prod.splits option.splits if_splits) (metis snd_conv)+
        then show ?thesis by (intro exI [of _ "[Reply service i now]"]) (simp add: flow_run_def)
      qed (rule none)
    next
      case (UdpReceived i packet now)
      show ?thesis
      proof (cases "ss_flows (session_round A N S nd cfg ev st) = ss_flows st")
        case False
        then obtain buf peer socket where p: "packet = Inl (buf, peer)" "li_bound (ss_listeners st ! i) = BoundUdp socket"
          "i < length (ss_listeners st)"
          "ss_flows (session_round A N S nd cfg ev st) = snd (flow_for_peer (ss_flows st) (max_flows_of cfg) (word_of_nat i) peer socket now)"
          using UdpReceived run
          by (auto simp: session_round_def udp_listener_iter_def running_def Let_def
              split: if_splits bound.splits sum.splits prod.splits result.splits option.splits)
        then show ?thesis using UdpReceived
          by (intro exI [of _ "[Arrival (word_of_nat i) peer socket now]"]) (auto simp: flow_run_def)
      qed (rule none)
    next
      case (TcpAccepted i accepted)
      then show ?thesis using run
        by (intro none) (auto simp: session_round_def Let_def split: if_splits bound.splits prod.splits result.splits option.splits)
    qed (use run none in \<open>auto simp: session_round_def split: if_splits option.splits result.splits\<close>)
  qed
qed


lemma session_run_simps [simp]:
  "session_run A N S nd cfg [] st = st"
  "session_run A N S nd cfg (evs @ [ev]) st = session_round A N S nd cfg ev (session_run A N S nd cfg evs st)"
  by (simp_all add: session_run_def)

lemma session_run_bounds: "map li_bound (ss_listeners (session_run A N S nd cfg evs st)) = map li_bound (ss_listeners st)"
  by (induction evs rule: rev_induct) (simp_all add: session_round_bounds)

lemma session_run_bound:
  "length (ss_listeners (session_run A N S nd cfg evs st)) = length (ss_listeners st)"
  "i < length (ss_listeners st) \<Longrightarrow>
     li_bound (ss_listeners (session_run A N S nd cfg evs st) ! i) = li_bound (ss_listeners st ! i)"
  using session_run_bounds [of A N S nd cfg evs st] by (metis length_map, metis length_map nth_map)

lemma session_run_flows:
  "\<exists>fes. ss_flows (session_run A N S nd cfg evs st) = flow_run (max_flows_of cfg) (idle_of cfg) fes (ss_flows st) \<and>
    (\<forall>sid peer socket t. Arrival sid peer socket t \<in> set fes \<longrightarrow>
       (\<exists>i buf. UdpReceived i (Inl (buf, peer)) t \<in> set evs \<and> sid = word_of_nat i \<and>
          i < length (ss_listeners st) \<and> li_bound (ss_listeners st ! i) = BoundUdp socket))"
proof (induction evs rule: rev_induct)
  case Nil
  show ?case by (rule exI [of _ "[]"]) (simp add: flow_run_def)
next
  case (snoc ev evs)
  then obtain fes where fes: "ss_flows (session_run A N S nd cfg evs st) = flow_run (max_flows_of cfg) (idle_of cfg) fes (ss_flows st)"
    "\<forall>sid peer socket t. Arrival sid peer socket t \<in> set fes \<longrightarrow>
       (\<exists>i buf. UdpReceived i (Inl (buf, peer)) t \<in> set evs \<and> sid = word_of_nat i \<and>
          i < length (ss_listeners st) \<and> li_bound (ss_listeners st ! i) = BoundUdp socket)" by blast
  obtain ges where ges: "ss_flows (session_round A N S nd cfg ev (session_run A N S nd cfg evs st)) =
      flow_run (max_flows_of cfg) (idle_of cfg) ges (ss_flows (session_run A N S nd cfg evs st))"
    "\<forall>sid peer socket t. Arrival sid peer socket t \<in> set ges \<longrightarrow>
       (\<exists>i buf. ev = UdpReceived i (Inl (buf, peer)) t \<and> sid = word_of_nat i \<and>
          i < length (ss_listeners (session_run A N S nd cfg evs st)) \<and>
          li_bound (ss_listeners (session_run A N S nd cfg evs st) ! i) = BoundUdp socket)"
    using session_round_flows [of A N S nd cfg ev "session_run A N S nd cfg evs st"] by blast
  show ?case
  proof (rule exI [of _ "fes @ ges"], intro conjI allI impI)
    show "ss_flows (session_run A N S nd cfg (evs @ [ev]) st) =
        flow_run (max_flows_of cfg) (idle_of cfg) (fes @ ges) (ss_flows st)"
      using fes(1) ges(1) by (simp add: flow_run_def)
    fix sid peer socket t
    assume "Arrival sid peer socket t \<in> set (fes @ ges)"
    then consider "Arrival sid peer socket t \<in> set fes" | "Arrival sid peer socket t \<in> set ges" by auto
    then show "\<exists>i buf. UdpReceived i (Inl (buf, peer)) t \<in> set (evs @ [ev]) \<and> sid = word_of_nat i \<and>
        i < length (ss_listeners st) \<and> li_bound (ss_listeners st ! i) = BoundUdp socket"
    proof cases
      case 1
      then obtain i buf where "UdpReceived i (Inl (buf, peer)) t \<in> set evs" "sid = word_of_nat i"
        "i < length (ss_listeners st)" "li_bound (ss_listeners st ! i) = BoundUdp socket" using fes(2) by blast
      then show ?thesis by auto
    next
      case 2
      then obtain i buf where i: "ev = UdpReceived i (Inl (buf, peer)) t" "sid = word_of_nat i"
        "i < length (ss_listeners (session_run A N S nd cfg evs st))"
        "li_bound (ss_listeners (session_run A N S nd cfg evs st) ! i) = BoundUdp socket" using ges(2) by blast
      moreover have "i < length (ss_listeners st)" using i(3) by (simp only: session_run_bound(1))
      ultimately show ?thesis using session_run_bound(2) [of i st A N S nd cfg evs] by auto
    qed
  qed
qed

lemma session_round_out:
  assumes "x \<in> set (ss_out (session_round A N S nd cfg ev st))" "x \<notin> set (ss_out st)"
  shows "\<exists>socket peer payload service i now f. x = (socket, peer, payload) \<and>
    reply_route (ss_flows st) service i now = (Some (socket, peer), f)"
  using assms
  by (cases ev) (auto simp: session_round_def session_datagram_def route_packet_def Let_def
      split: if_splits result.splits option.splits prod.splits bound.splits)

lemma session_run_out:
  assumes "ss_flows st = flows_new" "ss_out st = []" "(socket, peer, payload) \<in> set (ss_out (session_run A N S nd cfg evs st))"
  shows "\<exists>i buf t. UdpReceived i (Inl (buf, peer)) t \<in> set evs \<and> i < length (ss_listeners st) \<and>
    li_bound (ss_listeners st ! i) = BoundUdp socket"
  using assms(3)
proof (induction evs rule: rev_induct)
  case (snoc ev evs)
  let ?st = "session_run A N S nd cfg evs st"
  show ?case
  proof (cases "(socket, peer, payload) \<in> set (ss_out ?st)")
    case True
    then show ?thesis using snoc.IH by auto
  next
    case False
    then obtain service i now f where "reply_route (ss_flows ?st) service i now = (Some (socket, peer), f)"
      using session_round_out [OF snoc.prems [unfolded session_run_simps(2)] False] by auto
    then obtain fl where fl: "fmlookup (fs_by_id (ss_flows ?st)) i = Some fl" "fl_socket fl = socket" "fl_peer fl = peer"
      by (auto simp: reply_route_def split: option.splits if_splits)
    obtain fes where fes: "ss_flows ?st = flow_run (max_flows_of cfg) (idle_of cfg) fes flows_new"
      "\<forall>sid peer socket t. Arrival sid peer socket t \<in> set fes \<longrightarrow>
       (\<exists>i buf. UdpReceived i (Inl (buf, peer)) t \<in> set evs \<and> sid = word_of_nat i \<and>
          i < length (ss_listeners st) \<and> li_bound (ss_listeners st ! i) = BoundUdp socket)"
      using session_run_flows assms(1) by metis
    obtain t where "Arrival (fl_service fl) peer socket t \<in> set fes"
      using flow_run_origin fl fes(1) by metis
    then show ?thesis using fes(2) by fastforce
  qed
qed (use assms(2) in simp)

lemma session_round_assembly: "ra_wf (ss_assembly st) \<Longrightarrow> ra_wf (ss_assembly (session_round A N S nd cfg ev st))"
  using ra_push_wf
  by (cases ev) (auto simp: session_round_def session_datagram_def route_packet_def packet_iter_def ra_wf_expire Let_def
      split: if_splits result.splits option.splits prod.splits bound.splits)

lemma session_run_assembly: "ra_wf (ss_assembly st) \<Longrightarrow> ra_wf (ss_assembly (session_run A N S nd cfg evs st))"
  by (induction evs rule: rev_induct) (simp_all add: session_round_assembly)


section \<open>A concrete session\<close>

lemma send_fragments_keeps:
  "send_fragments A N c conn ps = (x, c', conn') \<Longrightarrow> dc_replay c' = dc_replay c \<and> dc_state c' = dc_state c"
proof (induction ps arbitrary: c conn)
  case (Cons p ps)
  obtain y c1 where s: "dc_seal A c p = (y, c1)" by fastforce
  then have "dc_replay c1 = dc_replay c \<and> dc_state c1 = dc_state c"
    by (auto simp: dc_seal_def Let_def split: if_splits result.splits)
  then show ?case using Cons s by (auto split: result.splits prod.splits)
qed simp

lemma send_payload_keeps:
  "send_payload A N s conn service flow payload = (x, s', conn') \<Longrightarrow>
   dc_replay (sn_crypto s') = dc_replay (sn_crypto s) \<and> dc_state (sn_crypto s') = dc_state (sn_crypto s)"
  using send_fragments_keeps
  by (fastforce simp: send_payload_def Let_def split: if_splits option.splits prod.splits)

definition sample_server_session :: "(unit, bytes list, string, nat) server_session" where
  "sample_server_session = session_new count_semaphore (sample_side True) [] (sender_new (dc_new ()))
     [(''game'', sample_service True, BoundUdp '':7000'')]"

text \<open>A peer sends a datagram, and the client's answer goes back to it.\<close>

lemma sample_reply:
  "\<exists>d. ('':7000'', V4 5 6, [7, 8]) \<in> set (ss_out (session_run sample_aead log_conn count_semaphore (\<lambda>(_::unit) _. Ok ())
     (sample_side True) [UdpReceived 0 (Inl ([1, 2], V4 5 6)) 0, SessionDatagram (Ok d) 0] sample_server_session))"
proof -
  let ?st = "session_round sample_aead log_conn count_semaphore (\<lambda>(_::unit) _. Ok ()) (sample_side True)
      (UdpReceived 0 (Inl ([1, 2], V4 5 6)) 0) sample_server_session"
  have flow: "flow_for_peer flows_new (max_flows_of (sample_side True)) 0 (V4 5 6) '':7000'' 0 =
      (Ok (Some 0), \<lparr>fs_next = 1, fs_by_id = fmupd 0 \<lparr>fl_service = 0, fl_peer = V4 5 6, fl_socket = '':7000'', fl_touched = 0\<rparr> fmempty,
        fs_by_peer = fmupd (0, V4 5 6) 0 fmempty\<rparr>)"
    by (simp add: flow_for_peer_def flows_new_def checked_succ_def sample_side_def transport_default_def quic_default_def)
  obtain x s' conn' where snd: "send_payload sample_aead log_conn (sender_new (dc_new ())) [] 0 0 [1, 2] = (x, s', conn')"
    by (metis prod_cases3)
  have st: "ss_sender ?st = s'" "ss_assembly ?st = ra_default" "ss_out ?st = []" "ss_result ?st = None"
    "fmlookup (fs_by_id (ss_flows ?st)) 0 = Some \<lparr>fl_service = 0, fl_peer = V4 5 6, fl_socket = '':7000'', fl_touched = 0\<rparr>"
    using flow snd
    by (cases x; simp add: session_round_def sample_server_session_def session_new_def running_def udp_listener_iter_def
        MAX_PAYLOAD_def Let_def stop_listener_def)+
  obtain d where d: "dc_open sample_aead (sn_crypto s') d = (Ok (fragment 0 0 0 [7, 8] 0),
      (sn_crypto s')\<lparr>dc_replay := record_nonce rw_default 0\<rparr>)"
    using send_payload_keeps [OF snd]
    by - (rule first_seal [OF sample_aead_correct, of "fragment 0 0 0 [7, 8] 0" "dc_new ()" "sn_crypto s'"],
      simp_all add: sender_new_def length_fragment HEADER_def CHUNK_def)
  have "packet_iter sample_aead (sn_crypto s') ra_default d 0 =
      (Some \<lparr>pk_service = 0, pk_flow = 0, pk_payload = [7, 8]\<rparr>, (sn_crypto s')\<lparr>dc_replay := record_nonce rw_default 0\<rparr>, ra_default)"
    using d by (simp add: packet_iter_def ra_push_single CHUNK_def)
  then have "ss_out (session_round sample_aead log_conn count_semaphore (\<lambda>(_::unit) _. Ok ()) (sample_side True)
      (SessionDatagram (Ok d) 0) ?st) = [('':7000'', V4 5 6, [7, 8])]"
    using st by (simp add: session_round_def [of _ _ _ _ _ "SessionDatagram (Ok d) 0"] session_datagram_def route_packet_def
        reply_route_def)
  then show ?thesis by (intro exI [of _ d]) (simp add: session_run_def)
qed

lemma server_start_no_panic:
  assumes "valid_side b64 cfg True" "\<And>a. snd (lookup a) \<noteq> Err Panicked" "\<And>a q. endpoint a q \<noteq> Err Panicked"
    and "\<And>ep. local_addr ep \<noteq> Err Panicked"
  shows "server_start lookup endpoint local_addr S cfg \<noteq> Err Panicked"
proof -
  obtain addr where "sd_bind_addr cfg = Some addr" using assms(1) by (auto simp: valid_side_def valid_role_def)
  moreover have "resolve lookup a v \<noteq> Err Panicked" for a v
    using assms(2) [of a] by (auto simp: resolve_def timeout_def result_simps split: prod.splits if_splits)
  ultimately show ?thesis using assms(3,4) by (simp add: server_start_def result_simps)
qed

section \<open>Properties\<close>

text \<open>
  C33: Connections are bounded. Whatever connects, ends or shuts the server down, it never runs more
  than \<open>max_connections\<close> sessions; and while the loop runs, the next attempt from a validated
  address is accepted exactly when a slot is free, one from an address that is not validated never
  takes a slot.
\<close>

theorem server_connections_bounded:
  assumes "semaphore_counts S free" and "st = fold (run_step S) evs (run_new S cfg)"
  shows "sr_active st \<le> unat (q_max_connections (tr_quic (sd_transport cfg))) \<and>
    (sr_open st \<longrightarrow> sr_decisions (run_step S (Incoming True) st) = sr_decisions st @
       [if sr_active st < unat (q_max_connections (tr_quic (sd_transport cfg))) then Accept else Refuse]) \<and>
    sr_active (run_step S (Incoming False) st) = sr_active st"
proof -
  let ?cap = "unat (q_max_connections (tr_quic (sd_transport cfg)))"
  have good: "run_good S free ?cap st"
    using connections.good_run [OF run_new_good [OF assms(1)]] assms(2) by simp
  have "sem_try_acquire S (sr_slots st) 1 = None \<longleftrightarrow> \<not> sr_active st < ?cap"
    using good semaphore_countsD(2) [OF assms(1), of "sr_slots st" 1] by (auto simp: run_good_def)
  moreover have "sr_active st \<le> ?cap" using connections.balance [OF good] by simp
  ultimately show ?thesis by (auto split: option.splits)
qed

theorem server_connections_bounded_witness:
  "\<exists>st. st = fold (run_step count_semaphore) (replicate 200 (Incoming True)) (run_new count_semaphore (sample_side True)) \<and>
     sr_active st \<le> 128"
  using server_connections_bounded [OF count_semaphore_counts refl, of "replicate 200 (Incoming True)" "sample_side True"]
  by (simp add: sample_side_def transport_default_def quic_default_def)

text \<open>
  C21: A session's resources are bounded. After any sequence of events a session holds at most
  \<open>max_udp_flows\<close> flows, 128 incomplete messages and \<open>max_streams\<close> forwarded TCP connections over all
  its listeners, and no datagram that arrives at a UDP listener can make the flow lookup panic.
\<close>

theorem server_session_bounded:
  assumes "semaphore_counts S free" and "st = session_run A N S nd cfg evs (session_new S cfg conn sender bs)"
  shows "hm_len (fs_by_id (ss_flows st)) \<le> unat (q_max_udp_flows (tr_quic (sd_transport cfg))) \<and>
    hm_len (ra_pending (ss_assembly st)) \<le> 128 \<and>
    sum_list (map li_tasks (ss_listeners st)) \<le> unat (q_max_streams (tr_quic (sd_transport cfg))) \<and>
    fst (flow_for_peer (ss_flows st) (q_max_udp_flows (tr_quic (sd_transport cfg))) sid peer socket now) \<noteq> Err Panicked"
proof -
  let ?st0 = "session_new S cfg conn sender bs"
  have "session_good S free (unat (q_max_streams (tr_quic (sd_transport cfg)))) ?st0"
    using assms(1) semaphore_countsD(1) [OF assms(1)]
    by (simp add: session_good_def session_new_def tasks_of_def comp_def case_prod_beta)
  from streams.run_bounded [OF this]
  have tasks: "tasks_of (ss_listeners st) \<le> unat (q_max_streams (tr_quic (sd_transport cfg)))"
    unfolding assms(2) session_run_def .
  obtain fes where "ss_flows st = flow_run (max_flows_of cfg) (idle_of cfg) fes flows_new"
    using session_run_flows [of A N S nd cfg evs ?st0] unfolding assms(2) by (auto simp: session_new_def)
  then have wf: "flows_wf (max_flows_of cfg) (ss_flows st)" using flow_run_wf [OF flows_wf_new] by metis
  have "ra_wf (ss_assembly st)"
    unfolding assms(2) by (rule session_run_assembly) (simp add: session_new_def ra_wf_default)
  moreover obtain x f' where out: "flow_for_peer (ss_flows st) (max_flows_of cfg) sid peer socket now = (x, f')" by fastforce
  have "x \<noteq> Err Panicked" by (cases rule: flow_for_peer_cases [OF wf out]) simp_all
  ultimately show ?thesis
    using tasks flows_wf_len [OF wf] out by (simp add: ra_wf_def tasks_of_def MAX_ASSEMBLIES_def)
qed

theorem server_session_bounded_witness:
  "\<exists>st. st = session_run sample_aead log_conn count_semaphore (\<lambda>(_::unit) _. Ok ()) (sample_side True)
       [UdpReceived 0 (Inl ([1, 2], V4 5 6)) 0, SessionTick 1] (session_new count_semaphore (sample_side True) []
       (sender_new (after_exchange ())) [(''game'', sample_service True, BoundUdp '':7000'')]) \<and>
     hm_len (fs_by_id (ss_flows st)) \<le> 4096"
proof -
  have "unat (q_max_udp_flows (tr_quic (sd_transport (sample_side True)))) = 4096"
    by (simp add: sample_side_def transport_default_def quic_default_def)
  then show ?thesis
    using server_session_bounded [OF count_semaphore_counts refl, of sample_aead log_conn "\<lambda>(_::unit) _. Ok ()" "sample_side True"
      "[UdpReceived 0 (Inl ([1, 2], V4 5 6)) 0, SessionTick 1]" "[]" "sender_new (after_exchange ())"
      "[(''game'', sample_service True, BoundUdp '':7000'')]"] by simp
qed

text \<open>
  C9: The server never sends to strangers. Every datagram a session sends out of a public UDP port
  goes, from the socket of a UDP listener, to an address from which a datagram has arrived at that
  very listener before; a client cannot make the server send anywhere else.
\<close>

theorem server_replies_only_to_contacts:
  assumes "st = session_new S cfg conn sender bs"
    and "(socket, peer, payload) \<in> set (ss_out (session_run A N S nd cfg evs st))"
  shows "\<exists>i buf t. UdpReceived i (Inl (buf, peer)) t \<in> set evs \<and> i < length bs \<and> snd (snd (bs ! i)) = BoundUdp socket"
proof -
  obtain i buf t where "UdpReceived i (Inl (buf, peer)) t \<in> set evs" "i < length (ss_listeners st)"
    "li_bound (ss_listeners st ! i) = BoundUdp socket"
    using session_run_out [OF _ _ assms(2)] by (auto simp: assms(1) session_new_def)
  moreover from this have "i < length bs" "snd (snd (bs ! i)) = BoundUdp socket"
    by (auto simp: assms(1) session_new_def case_prod_beta)
  ultimately show ?thesis by blast
qed


theorem server_replies_only_to_contacts_witness:
  "\<exists>d. ('':7000'', V4 5 6, [7, 8]) \<in> set (ss_out (session_run sample_aead log_conn count_semaphore (\<lambda>(_::unit) _. Ok ())
       (sample_side True) [UdpReceived 0 (Inl ([1, 2], V4 5 6)) 0, SessionDatagram (Ok d) 0] sample_server_session)) \<and>
     (\<exists>i buf t. UdpReceived i (Inl (buf, V4 5 6)) t \<in>
        set [UdpReceived 0 (Inl ([1, 2], V4 5 6)) 0, SessionDatagram (Ok d) 0 :: unit server_event])"
proof -
  obtain d where d: "('':7000'', V4 5 6, [7, 8]) \<in> set (ss_out (session_run sample_aead log_conn count_semaphore (\<lambda>(_::unit) _. Ok ())
       (sample_side True) [UdpReceived 0 (Inl ([1, 2], V4 5 6)) 0, SessionDatagram (Ok d) 0] sample_server_session))"
    using sample_reply by blast
  from server_replies_only_to_contacts [OF sample_server_session_def d] d show ?thesis by blast
qed

end
