(* ===== verification/Client.thy ===== *)
theory Client
  imports Session_Setup Tokio
begin

text \<open>
  The client, \<open>src/proxy/client.rs\<close>: the reconnect loop of \<open>run\<close> with its backoff, one connection
  attempt (\<open>connect\<close>), and a session after its setup: the session loop, the workers \<open>udp_flow\<close> it
  spawns per UDP flow, the bounded queues between them and the byte budget they share. As in the
  server, one event is one round of one of the loops.
\<close>

section \<open>Reconnecting\<close>

text \<open>
  One round of \<open>run\<close>: \<open>elapsed\<close> is how long \<open>connect\<close> took, \<open>jitter\<close> the random number; the result
  is the wait in milliseconds and the next \<open>delay\<close>, in the \<open>u64\<close> arithmetic of the code.
\<close>

definition backoff :: "u64 \<Rightarrow> u64 \<Rightarrow> duration \<Rightarrow> u64 \<Rightarrow> u64 \<times> u64" where
  "backoff base delay0 elapsed jitter =
     (let delay = (if from_secs 60 < elapsed then 1 else delay0);
          wait = (if base = 0 then 100 else max delay base * 1000 + jitter)
      in (wait, min (max delay base * 2) (max 30 base)))"

fun reconnects :: "u64 \<Rightarrow> u64 \<Rightarrow> (duration \<times> u64) list \<Rightarrow> u64 list" where
  "reconnects base delay [] = []"
| "reconnects base delay ((elapsed, jitter) # rounds) =
     (case backoff base delay elapsed jitter of (wait, next_delay) \<Rightarrow> wait # reconnects base next_delay rounds)"

definition client_run :: "side \<Rightarrow> (duration \<times> u64) list \<Rightarrow> u64 list" where
  "client_run cfg rounds = reconnects (sd_retry_interval cfg) 1 rounds"

text \<open>
  One attempt. \<open>endpoint bind\<close> creates the QUIC endpoint, \<open>dial\<close> starts connecting (which can fail at
  once) and yields the time it takes and its outcome, \<open>session_end\<close> is how long the session lasts and
  how it ends. The second component logs what has been closed.
\<close>

datatype closing = CloseConnection | CloseEndpoint

definition connect :: "(string \<Rightarrow> duration \<times> socket_addr list result) \<Rightarrow> (string \<Rightarrow> quic \<Rightarrow> 'e result)
    \<Rightarrow> ('e \<Rightarrow> socket_addr \<Rightarrow> string \<Rightarrow> (duration \<times> 'c result) result) \<Rightarrow> ('c \<Rightarrow> duration \<times> unit result)
    \<Rightarrow> side \<Rightarrow> unit result \<times> closing list" where
  "connect lookup endpoint dial session_end cfg =
     (case sd_remote_addr cfg of
        None \<Rightarrow> (Err Panicked, [])
      | Some addr \<Rightarrow>
          (case resolve lookup addr (sd_prefer_ipv6 cfg) of
             Err e \<Rightarrow> (Err e, [])
           | Ok remote \<Rightarrow>
               (case endpoint (if \<not> is_ipv6 remote then ''0.0.0.0:0'' else ''[::]:0'') (tr_quic (sd_transport cfg)) of
                  Err e \<Rightarrow> (Err e, [])
                | Ok ep \<Rightarrow>
                    (case dial ep remote (q_hostname (tr_quic (sd_transport cfg))) of
                       Err e \<Rightarrow> (Err e, [])
                     | Ok (took, outcome) \<Rightarrow>
                         (case timeout SETUP took outcome of
                            Err e \<Rightarrow> (Err e, [])
                          | Ok conn \<Rightarrow>
                              (timeout SESSION_LIFETIME (fst (session_end conn)) (snd (session_end conn)),
                               [CloseConnection, CloseEndpoint]))))))"

section \<open>The workers\<close>

text \<open>
  A queued packet carries its permit of the byte budget, \<open>payload.len().max(1)\<close> bytes. A worker has
  its destination, the receiving end of its queue, and its result once it has returned.
\<close>

type_synonym queued = "bytes \<times> nat"

record 'ch worker =
  wk_dest :: socket_addr
  wk_queue :: 'ch
  wk_result :: "unit result option"

text \<open>
  What a worker wakes up to: the outcome of binding and connecting its socket, the idle timer, a
  queued packet (with the outcome of \<open>socket.send\<close>), or a datagram from the local service.
\<close>

datatype wakeup = Started "unit result" | Idle | Queued "unit result" | FromService "bytes result"

text \<open>
  One round of \<open>udp_flow\<close>: the worker's return value if it returns, the packet it has taken off the
  queue, and the state.
\<close>

definition udp_flow_iter :: "('ch, queued) channel_api \<Rightarrow> 'k stateless_api \<Rightarrow> 'c datagram_conn \<Rightarrow> u16 \<times> u64 \<Rightarrow> wakeup
    \<Rightarrow> 'ch \<Rightarrow> 'k sender \<Rightarrow> 'c \<Rightarrow> unit result option \<times> queued option \<times> 'ch \<times> 'k sender \<times> 'c" where
  "udp_flow_iter C A N fk w q sender conn =
     (case w of
        Started x \<Rightarrow> ((case x of Ok _ \<Rightarrow> None | Err e \<Rightarrow> Some (Err e)), None, q, sender, conn)
      | Idle \<Rightarrow> (Some (Ok ()), None, q, sender, conn)
      | Queued x \<Rightarrow>
          (case ch_recv C q of
             None \<Rightarrow> (None, None, q, sender, conn)
           | Some (m, q') \<Rightarrow> ((case x of Ok _ \<Rightarrow> None | Err e \<Rightarrow> Some (Err e)), Some m, q', sender, conn))
      | FromService x \<Rightarrow>
          (case x of
             Err e \<Rightarrow> (Some (Err e), None, q, sender, conn)
           | Ok buf \<Rightarrow>
               if length buf \<le> MAX_PAYLOAD then
                 (case send_payload A N sender conn (fst fk) (snd fk) buf of
                    (Ok _, sender', conn') \<Rightarrow> (None, None, q, sender', conn')
                  | (Err e, sender', conn') \<Rightarrow> (Some (Err e), None, q, sender', conn'))
               else (None, None, q, sender, conn)))"

section \<open>A session\<close>

text \<open>
  \<open>cs_flows\<close> holds the sending ends of the queues by service and flow; a worker stays in it until
  \<open>join_next\<close> has reported its end. \<open>cs_streams\<close> counts the TCP tasks, each with a permit. The
  history \<open>cs_packets\<close> lists the packets \<open>read_packet\<close> has returned, \<open>cs_out\<close> what the workers have
  handed to their sockets.
\<close>

record ('k, 'c, 'ch, 'q) client_session =
  cs_sender :: "'k sender"
  cs_conn :: 'c
  cs_assembly :: reassembler
  cs_destinations :: "(u16, socket_addr) fmap"
  cs_flows :: "(u16 \<times> u64, 'ch worker) fmap"
  cs_budget :: 'q
  cs_slots :: 'q
  cs_streams :: nat
  cs_packets :: "packet list"
  cs_out :: "((u16 \<times> u64) \<times> socket_addr \<times> bytes) list"
  cs_result :: "error option"

definition QUEUE_BYTES :: nat where "QUEUE_BYTES = 8 * 1024 * 1024"

definition client_session_new :: "'q semaphore_api \<Rightarrow> side \<Rightarrow> 'c \<Rightarrow> 'k sender \<Rightarrow> (u16, socket_addr) fmap
    \<Rightarrow> ('k, 'c, 'ch, 'q) client_session" where
  "client_session_new S cfg conn sender dest = \<lparr>cs_sender = sender, cs_conn = conn, cs_assembly = ra_default,
     cs_destinations = dest, cs_flows = fmempty, cs_budget = sem_new S QUEUE_BYTES,
     cs_slots = sem_new S (unat (q_max_streams (tr_quic (sd_transport cfg)))), cs_streams = 0,
     cs_packets = [], cs_out = [], cs_result = None\<rparr>"

definition permits_for :: "bytes \<Rightarrow> nat" where
  "permits_for payload = max (length payload) 1"

text \<open>
  A packet for a UDP service: its flow is looked up or created, and the packet queued if the budget
  and the queue allow it. A permit that was taken for nothing is dropped again.
\<close>

definition client_packet :: "('ch, queued) channel_api \<Rightarrow> 'q semaphore_api \<Rightarrow> side \<Rightarrow> packet
    \<Rightarrow> ('k, 'c, 'ch, 'q) client_session \<Rightarrow> ('k, 'c, 'ch, 'q) client_session" where
  "client_packet C S cfg p st =
     (case fmlookup (cs_destinations st) (pk_service p) of
        None \<Rightarrow> st
      | Some dest \<Rightarrow>
          (let fk = (pk_service p, pk_flow p) in
           if \<not> hm_contains (cs_flows st) fk \<and> unat (q_max_udp_flows (tr_quic (sd_transport cfg))) \<le> hm_len (cs_flows st)
           then st
           else
             let w = (case fmlookup (cs_flows st) fk of Some w \<Rightarrow> w
                      | None \<Rightarrow> \<lparr>wk_dest = dest, wk_queue = ch_new C 8, wk_result = None\<rparr>);
                 st1 = st\<lparr>cs_flows := fmupd fk w (cs_flows st)\<rparr>
             in case sem_try_acquire S (cs_budget st) (permits_for (pk_payload p)) of
                  None \<Rightarrow> st1
                | Some budget \<Rightarrow>
                    (case (if wk_result w = None then ch_try_send C (wk_queue w) (pk_payload p, permits_for (pk_payload p)) else None) of
                       None \<Rightarrow> st1\<lparr>cs_budget := sem_release S budget (permits_for (pk_payload p))\<rparr>
                     | Some q \<Rightarrow> st\<lparr>cs_flows := fmupd fk (w\<lparr>wk_queue := q\<rparr>) (cs_flows st), cs_budget := budget\<rparr>)))"

datatype client_event =
    ConnClosed
  | StreamDone
  | WorkerJoined "u16 \<times> u64" bool
  | ClientTick instant
  | BiAccepted "unit result"
  | ClientDatagram "bytes result" instant
  | WorkerWakes "u16 \<times> u64" wakeup

definition queued_permits :: "('ch, queued) channel_api \<Rightarrow> 'ch \<Rightarrow> nat" where
  "queued_permits C q = sum_list (map snd (ch_dropped C q))"

definition worker_wakes :: "('ch, queued) channel_api \<Rightarrow> 'k stateless_api \<Rightarrow> 'c datagram_conn \<Rightarrow> 'q semaphore_api
    \<Rightarrow> u16 \<times> u64 \<Rightarrow> wakeup \<Rightarrow> ('k, 'c, 'ch, 'q) client_session \<Rightarrow> ('k, 'c, 'ch, 'q) client_session" where
  "worker_wakes C A N S fk wake st =
     (case fmlookup (cs_flows st) fk of
        None \<Rightarrow> st
      | Some w \<Rightarrow>
          if wk_result w \<noteq> None then st else
          (case udp_flow_iter C A N fk wake (wk_queue w) (cs_sender st) (cs_conn st) of
             (x, taken, q, sender, conn) \<Rightarrow>
               (let returned = (case taken of None \<Rightarrow> 0 | Some m \<Rightarrow> snd m) + (case x of None \<Rightarrow> 0 | Some _ \<Rightarrow> queued_permits C q);
                    q' = (case x of None \<Rightarrow> q | Some _ \<Rightarrow> ch_new C 8)
                in st\<lparr>cs_sender := sender, cs_conn := conn,
                      cs_flows := fmupd fk (w\<lparr>wk_queue := q', wk_result := x\<rparr>) (cs_flows st),
                      cs_budget := sem_release S (cs_budget st) returned,
                      cs_out := cs_out st @ (case taken of None \<Rightarrow> [] | Some m \<Rightarrow> [(fk, wk_dest w, fst m)])\<rparr>)))"

text \<open>
  \<open>WorkerJoined fk ok\<close>: \<open>join_next\<close> reports the end of the worker of \<open>fk\<close>; a worker that has
  panicked ends the session.
\<close>

fun client_step :: "('ch, queued) channel_api \<Rightarrow> 'k stateless_api \<Rightarrow> 'c datagram_conn \<Rightarrow> 'q semaphore_api \<Rightarrow> side
    \<Rightarrow> client_event \<Rightarrow> ('k, 'c, 'ch, 'q) client_session \<Rightarrow> ('k, 'c, 'ch, 'q) client_session" where
  "client_step C A N S cfg ConnClosed st = st\<lparr>cs_result := Some (ProxyError ConnectionClosed)\<rparr>"
| "client_step C A N S cfg StreamDone st =
     (if cs_streams st = 0 then st
      else st\<lparr>cs_slots := sem_release S (cs_slots st) 1, cs_streams := cs_streams st - 1\<rparr>)"
| "client_step C A N S cfg (WorkerJoined fk ok) st =
     (case fmlookup (cs_flows st) fk of
        None \<Rightarrow> st
      | Some w \<Rightarrow>
          if wk_result w = None then st
          else if \<not> ok then st\<lparr>cs_result := Some Panicked\<rparr>
          else st\<lparr>cs_flows := fmdrop fk (cs_flows st)\<rparr>)"
| "client_step C A N S cfg (ClientTick now) st = st\<lparr>cs_assembly := ra_expire (cs_assembly st) now\<rparr>"
| "client_step C A N S cfg (BiAccepted x) st =
     (case x of
        Err e \<Rightarrow> st\<lparr>cs_result := Some e\<rparr>
      | Ok _ \<Rightarrow>
          (case sem_try_acquire S (cs_slots st) 1 of
             None \<Rightarrow> st
           | Some q \<Rightarrow> st\<lparr>cs_slots := q, cs_streams := cs_streams st + 1\<rparr>))"
| "client_step C A N S cfg (ClientDatagram x now) st =
     (case x of
        Err e \<Rightarrow> st\<lparr>cs_result := Some e\<rparr>
      | Ok d \<Rightarrow>
          (case packet_iter A (sn_crypto (cs_sender st)) (cs_assembly st) d now of
             (y, c, ra) \<Rightarrow>
               (let st' = st\<lparr>cs_sender := (cs_sender st)\<lparr>sn_crypto := c\<rparr>, cs_assembly := ra\<rparr>
                in case y of
                     None \<Rightarrow> st'
                   | Some p \<Rightarrow> client_packet C S cfg p (st'\<lparr>cs_packets := cs_packets st @ [p]\<rparr>))))"
| "client_step C A N S cfg (WorkerWakes fk wake) st = worker_wakes C A N S fk wake st"

definition client_round :: "('ch, queued) channel_api \<Rightarrow> 'k stateless_api \<Rightarrow> 'c datagram_conn \<Rightarrow> 'q semaphore_api \<Rightarrow> side
    \<Rightarrow> client_event \<Rightarrow> ('k, 'c, 'ch, 'q) client_session \<Rightarrow> ('k, 'c, 'ch, 'q) client_session" where
  "client_round C A N S cfg ev st = (if cs_result st \<noteq> None then st else client_step C A N S cfg ev st)"

definition client_session_run :: "('ch, queued) channel_api \<Rightarrow> 'k stateless_api \<Rightarrow> 'c datagram_conn \<Rightarrow> 'q semaphore_api \<Rightarrow> side
    \<Rightarrow> client_event list \<Rightarrow> ('k, 'c, 'ch, 'q) client_session \<Rightarrow> ('k, 'c, 'ch, 'q) client_session" where
  "client_session_run C A N S cfg evs st = fold (client_round C A N S cfg) evs st"

section \<open>The backoff\<close>

lemma unat_max: "unat (max a b :: u64) = max (unat a) (unat b)"
  and unat_min: "unat (min a b :: u64) = min (unat a) (unat b)"
  by (simp_all add: max_def min_def word_le_nat_alt)

lemma backoff_nat:
  assumes "unat base \<le> 86400" "unat delay0 \<le> 86400" "unat jitter \<le> 1000" "backoff base delay0 elapsed jitter = (wait, next_delay)"
    and "delay = (if from_secs 60 < elapsed then 1 else unat delay0)"
  shows "unat wait = (if base = 0 then 100 else max delay (unat base) * 1000 + unat jitter)"
    and "unat next_delay = min (max delay (unat base) * 2) (max 30 (unat base))"
proof -
  let ?d = "if from_secs 60 < elapsed then 1 else delay0"
  have d: "unat ?d = delay" using assms(5) by simp
  let ?m = "max ?d base"
  have m: "unat ?m = max delay (unat base)" "unat ?m \<le> 86400" using assms(1,2,5) d unat_max [of ?d base] by (auto split: if_splits)
  have mult: "unat (?m * c) = unat ?m * unat c" if "unat c \<le> 1000" for c :: u64
  proof -
    have "unat ?m * unat c \<le> 86400 * 1000" using m(2) that by (rule mult_le_mono)
    then show ?thesis by (simp add: unat_mult_lem [THEN iffD1])
  qed
  have thousand: "unat (?m * 1000) = unat ?m * 1000" using mult [of 1000] by simp
  have "unat (?m * 1000 + jitter) = unat ?m * 1000 + unat jitter"
    using m(2) assms(3) thousand by (subst unat_add_lem [THEN iffD1]) simp_all
  then show "unat wait = (if base = 0 then 100 else max delay (unat base) * 1000 + unat jitter)"
    using assms(4) m(1) by (auto simp: backoff_def Let_def)
  show "unat next_delay = min (max delay (unat base) * 2) (max 30 (unat base))"
    using assms(4) m(1) mult [of 2] by (auto simp: backoff_def Let_def unat_max unat_min)
qed

lemma reconnects_length [simp]: "length (reconnects base delay rounds) = length rounds"
  by (induction base delay rounds rule: reconnects.induct) (auto split: prod.splits)

lemma reconnects_bounds:
  assumes base: "unat base \<le> 86400"
  shows "unat delay \<le> max 30 (unat base) \<Longrightarrow> \<forall>r \<in> set rounds. unat (snd r) \<le> 1000 \<Longrightarrow> i < length rounds \<Longrightarrow>
    (if base = 0 then unat (reconnects base delay rounds ! i) = 100
     else unat base * 1000 \<le> unat (reconnects base delay rounds ! i) \<and>
       unat (reconnects base delay rounds ! i) \<le> max 30 (unat base) * 1000 + 1000)"
proof (induction rounds arbitrary: delay i)
  case (Cons r rounds)
  obtain elapsed jitter where r: "r = (elapsed, jitter)" by (cases r)
  obtain wait nd where b: "backoff base delay elapsed jitter = (wait, nd)" by fastforce
  have j: "unat jitter \<le> 1000" using Cons.prems(2) r by simp
  have "unat delay \<le> 86400" using Cons.prems(1) base by (auto simp: max_def split: if_splits)
  note n = backoff_nat [OF base this j b refl]
  have nd: "unat nd \<le> max 30 (unat base)" using n(2) by simp
  show ?case
  proof (cases i)
    case 0
    have "max (if from_secs 60 < elapsed then 1 else unat delay) (unat base) \<le> max 30 (unat base)"
      using Cons.prems(1) by (auto simp: max_def split: if_splits)
    then show ?thesis using 0 r b n(1) j by (auto simp: max_def split: if_splits)
  next
    case (Suc k)
    then have eq: "reconnects base delay (r # rounds) ! i = reconnects base nd rounds ! k" using r b by simp
    show ?thesis unfolding eq by (rule Cons.IH [OF nd]) (use Cons.prems(2,3) Suc in simp_all)
  qed
qed simp

lemma min_double: "min (min (2 * m) M * 2 ^ k) M = min (m * 2 ^ Suc k) (M :: nat)"
proof (cases "2 * m \<le> M")
  case False
  have "M * 1 \<le> M * 2 ^ k" "2 * m * 1 \<le> 2 * m * 2 ^ k" by (rule mult_le_mono2, simp)+
  moreover have "2 * m * 2 ^ k = m * 2 ^ Suc k" by simp
  ultimately have "M \<le> M * 2 ^ k" "M \<le> m * 2 ^ Suc k" using False by linarith+
  moreover have "min (2 * m) M = M" using False by simp
  ultimately show ?thesis by (simp only: min.absorb2)
qed simp

lemma reconnects_doubling:
  assumes base: "unat base \<le> 86400" "0 < unat base"
  shows "unat delay \<le> max 30 (unat base) \<Longrightarrow> \<forall>r \<in> set rounds. unat (snd r) \<le> 1000 \<and> fst r \<le> from_secs 60 \<Longrightarrow>
    i < length rounds \<Longrightarrow> unat (reconnects base delay rounds ! i) =
      min (max (unat delay) (unat base) * 2 ^ i) (max 30 (unat base)) * 1000 + unat (snd (rounds ! i))"
proof (induction rounds arbitrary: delay i)
  case (Cons r rounds)
  obtain elapsed jitter where r: "r = (elapsed, jitter)" by (cases r)
  obtain wait nd where b: "backoff base delay elapsed jitter = (wait, nd)" by fastforce
  have j: "unat jitter \<le> 1000" "\<not> from_secs 60 < elapsed" using Cons.prems(2) r by simp_all
  have "unat delay \<le> 86400" using Cons.prems(1) base by (auto simp: max_def split: if_splits)
  note n = backoff_nat [OF base(1) this j(1) b refl, simplified if_not_P [OF j(2)]]
  let ?M = "max 30 (unat base)" and ?m = "max (unat delay) (unat base)"
  have m: "?m \<le> ?M" using Cons.prems(1) by simp
  have nd: "unat nd \<le> ?M" using n(2) by simp
  have nz: "base \<noteq> 0" using base(2) by auto
  show ?case
  proof (cases i)
    case 0
    have "min (?m * 2 ^ 0) ?M = ?m" using m by simp
    then show ?thesis using 0 r b n(1) nz by simp
  next
    case (Suc k)
    have "max (unat nd) (unat base) = min (2 * ?m) ?M" using n(2) by (simp add: max_def min_def)
    then show ?thesis using Cons.IH [OF nd, of k] Cons.prems(2,3) r b Suc min_double [of ?m ?M k] by simp
  qed
qed simp


section \<open>The invariant of a session\<close>

definition packet_for :: "u16 \<times> u64 \<Rightarrow> bytes \<Rightarrow> packet" where
  "packet_for fk payload = \<lparr>pk_service = fst fk, pk_flow = snd fk, pk_payload = payload\<rparr>"

definition worker_ok :: "('ch \<Rightarrow> queued list) \<Rightarrow> ('ch \<Rightarrow> nat) \<Rightarrow> (u16, socket_addr) fmap \<Rightarrow> packet list \<Rightarrow> u16 \<times> u64 \<Rightarrow> 'ch worker \<Rightarrow> bool" where
  "worker_ok items room dest packets fk w \<longleftrightarrow>
     room (wk_queue w) = 8 \<and> length (items (wk_queue w)) \<le> 8 \<and> fmlookup dest (fst fk) = Some (wk_dest w) \<and>
     (wk_result w \<noteq> None \<longrightarrow> items (wk_queue w) = []) \<and>
     (\<forall>m \<in> set (items (wk_queue w)). snd m = permits_for (fst m) \<and> packet_for fk (fst m) \<in> set packets)"

definition load :: "('ch \<Rightarrow> queued list) \<Rightarrow> 'ch worker \<Rightarrow> nat" where
  "load items w = sum_list (map snd (items (wk_queue w)))"

definition flows_ok :: "('ch \<Rightarrow> queued list) \<Rightarrow> ('ch \<Rightarrow> nat) \<Rightarrow> side \<Rightarrow> ('k, 'c, 'ch, 'q) client_session \<Rightarrow> bool" where
  "flows_ok items room cfg st \<longleftrightarrow>
     hm_len (cs_flows st) \<le> unat (q_max_udp_flows (tr_quic (sd_transport cfg))) \<and>
     (\<forall>fk w. fmlookup (cs_flows st) fk = Some w \<longrightarrow> worker_ok items room (cs_destinations st) (cs_packets st) fk w) \<and>
     (\<forall>fk d payload. (fk, d, payload) \<in> set (cs_out st) \<longrightarrow>
        fmlookup (cs_destinations st) (fst fk) = Some d \<and> packet_for fk payload \<in> set (cs_packets st))"

definition client_good :: "('ch, queued) channel_api \<Rightarrow> 'q semaphore_api \<Rightarrow> ('ch \<Rightarrow> queued list) \<Rightarrow> ('ch \<Rightarrow> nat) \<Rightarrow> ('q \<Rightarrow> nat) \<Rightarrow> side
    \<Rightarrow> ('k, 'c, 'ch, 'q) client_session \<Rightarrow> bool" where
  "client_good C S items room free cfg st \<longleftrightarrow> semaphore_counts S free \<and> channel_fifo C items room \<and>
     flows_ok items room cfg st \<and>
     free (cs_budget st) + hm_sum (load items) (cs_flows st) = QUEUE_BYTES \<and>
     free (cs_slots st) + cs_streams st = unat (q_max_streams (tr_quic (sd_transport cfg)))"

lemma worker_ok_mono: "worker_ok items room dest ps fk w \<Longrightarrow> set ps \<subseteq> set qs \<Longrightarrow> worker_ok items room dest qs fk w"
  unfolding worker_ok_def by blast

lemma client_goodD:
  assumes "client_good C S items room free cfg st"
  shows "semaphore_counts S free" "channel_fifo C items room" "flows_ok items room cfg st"
    "free (cs_budget st) + hm_sum (load items) (cs_flows st) = QUEUE_BYTES"
    "free (cs_slots st) + cs_streams st = unat (q_max_streams (tr_quic (sd_transport cfg)))"
  using assms unfolding client_good_def by blast+

text \<open>Replacing the worker of a flow, or adding one within the limit.\<close>

lemma flows_ok_upd:
  assumes "flows_ok items room cfg st" "worker_ok items room (cs_destinations st) (cs_packets st) fk w"
    and "hm_contains (cs_flows st) fk \<or> hm_len (cs_flows st) < unat (q_max_udp_flows (tr_quic (sd_transport cfg)))"
  shows "flows_ok items room cfg (st\<lparr>cs_flows := fmupd fk w (cs_flows st)\<rparr>)"
  using assms by (auto simp: flows_ok_def hm_len_upd split: if_splits)

text \<open>The worker a packet goes to: the one of its flow, or a new one.\<close>

definition worker_for :: "('ch, queued) channel_api \<Rightarrow> socket_addr \<Rightarrow> u16 \<times> u64 \<Rightarrow> ('k, 'c, 'ch, 'q) client_session \<Rightarrow> 'ch worker" where
  "worker_for C dest fk st = (case fmlookup (cs_flows st) fk of Some w \<Rightarrow> w
     | None \<Rightarrow> \<lparr>wk_dest = dest, wk_queue = ch_new C 8, wk_result = None\<rparr>)"

lemma worker_for_ok:
  assumes "channel_fifo C items room" "flows_ok items room cfg st" "fmlookup (cs_destinations st) (fst fk) = Some dest"
  shows "worker_ok items room (cs_destinations st) (cs_packets st) fk (worker_for C dest fk st)"
    and "load items (worker_for C dest fk st) = (case fmlookup (cs_flows st) fk of None \<Rightarrow> 0 | Some w \<Rightarrow> load items w)"
  using assms channel_fifoD(1,2) [OF assms(1)]
  by (cases fk, auto simp: worker_for_def flows_ok_def worker_ok_def load_def split: option.splits)

text \<open>Queueing a packet for a worker keeps the worker in order and charges the packet to it.\<close>

lemma worker_queued:
  assumes "channel_fifo C items room" "worker_ok items room dest ps fk w" "wk_result w = None"
    and "ch_try_send C (wk_queue w) (payload, n) = Some q" "packet_for fk payload \<in> set ps" "n = permits_for payload"
  shows "worker_ok items room dest ps fk (w\<lparr>wk_queue := q\<rparr>)" "load items (w\<lparr>wk_queue := q\<rparr>) = load items w + n"
proof -
  have "items q = items (wk_queue w) @ [(payload, n)]" "room q = room (wk_queue w)"
    "\<not> room (wk_queue w) \<le> length (items (wk_queue w))"
    using channel_fifoD(3,4) [OF assms(1), of "wk_queue w" "(payload, n)"] assms(4) by (auto split: if_splits)
  then show "worker_ok items room dest ps fk (w\<lparr>wk_queue := q\<rparr>)" "load items (w\<lparr>wk_queue := q\<rparr>) = load items w + n"
    using assms(2,3,5,6) by (auto simp: worker_ok_def load_def)
qed

lemma client_good_worker:
  assumes good: "client_good C S items room free cfg st"
    and "worker_ok items room (cs_destinations st) (cs_packets st) fk w"
    and "hm_contains (cs_flows st) fk \<or> hm_len (cs_flows st) < unat (q_max_udp_flows (tr_quic (sd_transport cfg)))"
    and "load items w + free b = (case fmlookup (cs_flows st) fk of None \<Rightarrow> 0 | Some w \<Rightarrow> load items w) + free (cs_budget st)"
  shows "client_good C S items room free cfg (st\<lparr>cs_flows := fmupd fk w (cs_flows st), cs_budget := b\<rparr>)"
  using client_goodD [OF good] flows_ok_upd [OF client_goodD(3) [OF good] assms(2,3)] assms(4)
    hm_sum_upd [of "load items" fk w "cs_flows st"]
  by (auto simp: client_good_def flows_ok_def)

lemma client_packet_good:
  assumes good: "client_good C S items room free cfg st" and p: "p \<in> set (cs_packets st)"
  shows "client_good C S items room free cfg (client_packet C S cfg p st)"
proof (cases "fmlookup (cs_destinations st) (pk_service p)")
  case None
  then show ?thesis using good by (simp add: client_packet_def)
next
  case (Some dest)
  let ?k = "(pk_service p, pk_flow p)" and ?n = "permits_for (pk_payload p)"
  let ?w = "worker_for C dest ?k st"
  let ?room = "hm_contains (cs_flows st) ?k \<or> hm_len (cs_flows st) < unat (q_max_udp_flows (tr_quic (sd_transport cfg)))"
  note S = client_goodD(1) [OF good] and C = client_goodD(2) [OF good]
  have w: "worker_ok items room (cs_destinations st) (cs_packets st) ?k ?w"
    "load items ?w = (case fmlookup (cs_flows st) ?k of None \<Rightarrow> 0 | Some w \<Rightarrow> load items w)"
    using worker_for_ok [OF C client_goodD(3) [OF good], of ?k dest] Some by simp_all
  have step: "client_packet C S cfg p st = (if \<not> ?room then st else
      case sem_try_acquire S (cs_budget st) ?n of
        None \<Rightarrow> st\<lparr>cs_flows := fmupd ?k ?w (cs_flows st)\<rparr>
      | Some budget \<Rightarrow>
          (case (if wk_result ?w = None then ch_try_send C (wk_queue ?w) (pk_payload p, ?n) else None) of
             None \<Rightarrow> st\<lparr>cs_flows := fmupd ?k ?w (cs_flows st), cs_budget := sem_release S budget ?n\<rparr>
           | Some q \<Rightarrow> st\<lparr>cs_flows := fmupd ?k (?w\<lparr>wk_queue := q\<rparr>) (cs_flows st), cs_budget := budget\<rparr>))"
    using Some by (simp add: client_packet_def worker_for_def Let_def not_less cong: option.case_cong)
  have keep: "client_good C S items room free cfg (st\<lparr>cs_flows := fmupd ?k ?w (cs_flows st), cs_budget := b\<rparr>)"
    if ?room "free b = free (cs_budget st)" for b
    using client_good_worker [OF good w(1) that(1), of b] w(2) that(2) by simp
  have "packet_for ?k (pk_payload p) = p" by (simp add: packet_for_def)
  then have pk: "packet_for ?k (pk_payload p) \<in> set (cs_packets st)" using p by simp
  have queue: "client_good C S items room free cfg (st\<lparr>cs_flows := fmupd ?k (?w\<lparr>wk_queue := q\<rparr>) (cs_flows st), cs_budget := b\<rparr>)"
    if ?room "free b + ?n = free (cs_budget st)" "wk_result ?w = None" "ch_try_send C (wk_queue ?w) (pk_payload p, ?n) = Some q" for b q
    using client_good_worker [OF good worker_queued(1) [OF C w(1) that(3,4) pk refl] that(1), of b]
      worker_queued(2) [OF C w(1) that(3,4) pk refl] w(2) that(2) by simp
  show ?thesis
    using good keep [of "cs_budget st"] keep queue semaphore_countsD(3,4) [OF S]
    unfolding step by (auto split: option.splits if_splits)
qed

text \<open>What a round of a worker does to its queue.\<close>

lemma udp_flow_iter_queue:
  assumes C: "channel_fifo C items room"
    and it: "udp_flow_iter C A N fk wake q sender conn = (x, taken, q', sender', conn')"
  shows "items q = (case taken of None \<Rightarrow> [] | Some m \<Rightarrow> [m]) @ items q' \<and> room q' = room q"
  using it channel_fifoD(6) [OF C, of q]
  by (auto simp: udp_flow_iter_def split: wakeup.splits option.splits result.splits if_splits prod.splits)

lemma worker_wakes_good:
  assumes good: "client_good C S items room free cfg st"
  shows "client_good C S items room free cfg (worker_wakes C A N S fk wake st)"
proof (cases "\<exists>w. fmlookup (cs_flows st) fk = Some w \<and> wk_result w = None")
  case False
  then have "worker_wakes C A N S fk wake st = st" by (auto simp: worker_wakes_def split: option.splits)
  then show ?thesis using good by simp
next
  case True
  then obtain w where w: "fmlookup (cs_flows st) fk = Some w" "wk_result w = None" by blast
  note S = client_goodD(1) [OF good] and C = client_goodD(2) [OF good] and ok = client_goodD(3) [OF good]
  have wok: "worker_ok items room (cs_destinations st) (cs_packets st) fk w" using ok w(1) unfolding flows_ok_def by blast
  obtain x taken q sender conn where it: "udp_flow_iter C A N fk wake (wk_queue w) (cs_sender st) (cs_conn st) = (x, taken, q, sender, conn)"
    by (metis prod_cases5)
  note q = udp_flow_iter_queue [OF C it]
  define q' where "q' = (case x of None \<Rightarrow> q | Some _ \<Rightarrow> ch_new C 8)"
  define freed where "freed = (case taken of None \<Rightarrow> 0 | Some m \<Rightarrow> snd m) + (case x of None \<Rightarrow> 0 | Some _ \<Rightarrow> queued_permits C q)"
  define outs where "outs = (case taken of None \<Rightarrow> [] | Some m \<Rightarrow> [(fk, wk_dest w, fst m)])"
  have st: "worker_wakes C A N S fk wake st = st\<lparr>cs_sender := sender, cs_conn := conn,
      cs_flows := fmupd fk (w\<lparr>wk_queue := q', wk_result := x\<rparr>) (cs_flows st),
      cs_budget := sem_release S (cs_budget st) freed, cs_out := cs_out st @ outs\<rparr>"
    using w it by (simp add: worker_wakes_def q'_def freed_def outs_def Let_def)
  have q': "items q' = (if x = None then items q else [])" "room q' = 8"
    using q wok channel_fifoD(1,2) [OF C] by (auto simp: q'_def worker_ok_def split: option.splits)
  have load: "load items w = load items (w\<lparr>wk_queue := q', wk_result := x\<rparr>) + freed"
    using q q'(1) channel_fifoD(7) [OF C] by (auto simp: load_def freed_def queued_permits_def split: option.splits)
  have ok': "worker_ok items room (cs_destinations st) (cs_packets st) fk (w\<lparr>wk_queue := q', wk_result := x\<rparr>)"
    using wok q q' by (auto simp: worker_ok_def split: option.splits)
  have outs: "fmlookup (cs_destinations st) (fst fk') = Some d \<and> packet_for fk' payload \<in> set (cs_packets st)"
    if "(fk', d, payload) \<in> set outs" for fk' d payload
    using that wok q by (auto simp: outs_def worker_ok_def split: option.splits)
  have flows: "flows_ok items room cfg (st\<lparr>cs_flows := fmupd fk (w\<lparr>wk_queue := q', wk_result := x\<rparr>) (cs_flows st)\<rparr>)"
    by (rule flows_ok_upd [OF ok ok']) (simp add: hm_contains_def w(1))
  then have "flows_ok items room cfg (worker_wakes C A N S fk wake st)"
    using outs unfolding st flows_ok_def by auto
  moreover have "free (sem_release S (cs_budget st) freed) + hm_sum (load items) (fmupd fk (w\<lparr>wk_queue := q', wk_result := x\<rparr>) (cs_flows st)) = QUEUE_BYTES"
    using client_goodD(4) [OF good] load hm_sum_upd [of "load items" fk "w\<lparr>wk_queue := q', wk_result := x\<rparr>" "cs_flows st"] w(1)
      semaphore_countsD(4) [OF S, of "cs_budget st" freed] by simp
  ultimately show ?thesis using good unfolding st client_good_def by simp
qed

lemma client_step_good:
  assumes good: "client_good C S items room free cfg st"
  shows "client_good C S items room free cfg (client_step C A N S cfg ev st)"
proof (cases ev)
  case (WorkerJoined fk ok)
  show ?thesis
  proof (cases "ok \<and> (\<exists>w. fmlookup (cs_flows st) fk = Some w \<and> wk_result w \<noteq> None)")
    case True
    then obtain w where w: "fmlookup (cs_flows st) fk = Some w" by blast
    have "worker_ok items room (cs_destinations st) (cs_packets st) fk w"
      using client_goodD(3) [OF good] w unfolding flows_ok_def by blast
    then have "load items w = 0" using True w by (auto simp: worker_ok_def load_def)
    then show ?thesis
      using True w WorkerJoined good hm_sum_drop [of "load items" fk "cs_flows st"] hm_len_drop [of fk "cs_flows st"]
      by (auto simp: client_good_def flows_ok_def)
  qed (use WorkerJoined good in \<open>auto simp: client_good_def flows_ok_def split: option.splits\<close>)
next
  case (ClientDatagram x now)
  show ?thesis
  proof (cases x)
    case (Ok d)
    obtain y c ra where it: "packet_iter A (sn_crypto (cs_sender st)) (cs_assembly st) d now = (y, c, ra)" by (metis prod_cases3)
    have st': "client_good C S items room free cfg (st\<lparr>cs_sender := sn, cs_assembly := ra, cs_packets := cs_packets st @ ps\<rparr>)" for sn ps
      using good worker_ok_mono [of items room "cs_destinations st" "cs_packets st" _ _ "cs_packets st @ ps"]
      by (auto simp: client_good_def flows_ok_def)
    show ?thesis
    proof (cases y)
      case None
      then show ?thesis using ClientDatagram Ok it st' [where ps = "[]"] by simp
    next
      case (Some p)
      then show ?thesis using ClientDatagram Ok it client_packet_good [OF st' [where ps = "[p]"], where p = p] by (simp add: Let_def)
    qed
  qed (use ClientDatagram good in \<open>auto simp: client_good_def flows_ok_def\<close>)
next
  case (WorkerWakes fk wake)
  then show ?thesis using worker_wakes_good [OF good] by simp
next
  case StreamDone
  then show ?thesis using good semaphore_countsD(4) [OF client_goodD(1) [OF good]]
    by (auto simp: client_good_def flows_ok_def)
next
  case (BiAccepted x)
  then show ?thesis using good semaphore_countsD(3) [OF client_goodD(1) [OF good]]
    by (fastforce simp: client_good_def flows_ok_def split: result.splits option.splits)
qed (use good in \<open>auto simp: client_good_def flows_ok_def\<close>)


text \<open>The two pools of a session: the byte budget of the queues and the stream slots.\<close>

interpretation budget: bounded_resource "client_round C A N S cfg" "client_good C S items room free cfg"
    "\<lambda>st. free (cs_budget st)" "\<lambda>st. hm_sum (load items) (cs_flows st)" QUEUE_BYTES
  for C :: "('ch, queued) channel_api" and A :: "'k stateless_api" and N :: "'c datagram_conn" and S :: "'q semaphore_api"
    and cfg items room free
  by unfold_locales (simp_all add: client_round_def client_step_good client_goodD(4))

interpretation tcp_slots: bounded_resource "client_round C A N S cfg" "client_good C S items room free cfg"
    "\<lambda>st. free (cs_slots st)" cs_streams "unat (q_max_streams (tr_quic (sd_transport cfg)))"
  for C :: "('ch, queued) channel_api" and A :: "'k stateless_api" and N :: "'c datagram_conn" and S :: "'q semaphore_api"
    and cfg items room free
  by unfold_locales (simp_all add: client_round_def client_step_good client_goodD(5))

lemma client_session_new_good:
  "semaphore_counts S free \<Longrightarrow> channel_fifo C items room \<Longrightarrow>
   client_good C S items room free cfg (client_session_new S cfg conn sender dest)"
  by (simp add: client_good_def flows_ok_def client_session_new_def semaphore_countsD(1))

lemma client_run_good:
  assumes "semaphore_counts S free" "channel_fifo C items room"
  shows "client_good C S items room free cfg (client_session_run C A N S cfg evs (client_session_new S cfg conn sender dest))"
  unfolding client_session_run_def by (rule budget.good_run [OF client_session_new_good [OF assms]])

lemma client_step_destinations: "cs_destinations (client_round C A N S cfg ev st) = cs_destinations st"
  by (cases ev) (auto simp: client_round_def client_packet_def worker_wakes_def Let_def
      split: result.splits option.splits prod.splits)

lemma client_run_destinations: "cs_destinations (client_session_run C A N S cfg evs st) = cs_destinations st"
  by (induction evs arbitrary: st) (simp_all add: client_session_run_def client_step_destinations)

lemma length_le_permits: "\<forall>m \<in> set ms. snd m = permits_for (fst m) \<Longrightarrow>
    sum_list (map (\<lambda>m. length (fst m)) ms) \<le> sum_list (map snd ms)"
  by (induction ms) (auto simp: permits_for_def)

section \<open>Properties\<close>

text \<open>
  C32: Reconnecting is paced. With a valid retry interval and jitter of at most a second, no wait
  overflows: with interval 0 every wait is 100 ms; otherwise it lies between the interval and the
  larger of the interval and 30 s, plus the jitter. As long as no session lasted more than a
  minute, the \<open>i\<close>-th wait is the interval doubled \<open>i\<close> times, capped.
\<close>

theorem client_backoff:
  assumes "unat (sd_retry_interval cfg) \<le> 86400" "\<forall>r \<in> set rounds. unat (snd r) \<le> 1000" "i < length rounds"
    and "base = unat (sd_retry_interval cfg)" "wait = unat (client_run cfg rounds ! i)"
  shows "(base = 0 \<longrightarrow> wait = 100) \<and>
    (0 < base \<longrightarrow> base * 1000 \<le> wait \<and> wait \<le> max 30 base * 1000 + 1000 \<and>
       ((\<forall>r \<in> set rounds. fst r \<le> from_secs 60) \<longrightarrow> wait = min (base * 2 ^ i) (max 30 base) * 1000 + unat (snd (rounds ! i))))"
proof -
  have one: "unat (1 :: u64) \<le> max 30 (unat (sd_retry_interval cfg))" by simp
  note bounds = reconnects_bounds [OF assms(1) one assms(2,3)]
  have zero: "(sd_retry_interval cfg = 0) = (base = 0)" by (simp add: assms(4) unat_eq_0)
  have "wait = min (base * 2 ^ i) (max 30 base) * 1000 + unat (snd (rounds ! i))"
    if "0 < base" "\<forall>r \<in> set rounds. fst r \<le> from_secs 60"
  proof -
    have "max (unat (1::u64)) base = base" using that(1) by simp
    then show ?thesis
      using reconnects_doubling [OF assms(1) _ one _ assms(3)] that assms(2,4,5) unfolding client_run_def by force
  qed
  then show ?thesis using bounds zero unfolding assms(4,5) client_run_def by (auto split: if_splits)
qed

theorem client_backoff_witness:
  "unat (client_run (sample_side False) (replicate 6 (0, 500)) ! 5) = 30500"
  using client_backoff [of "sample_side False" "replicate 6 (0, 500)" 5, OF _ _ _ refl refl]
  by (simp add: sample_side_def retry_interval_def)

text \<open>
  C20: A client session's memory is bounded. After any sequence of events a session holds at most
  \<open>max_udp_flows\<close> flows, 8 packets per flow, 8 MiB of queued payload over all flows and
  \<open>max_streams\<close> TCP connections.
\<close>

theorem client_session_bounded:
  assumes "semaphore_counts S free" "channel_fifo C items room"
    and "st = client_session_run C A N S cfg evs (client_session_new S cfg conn sender dest)"
  shows "hm_len (cs_flows st) \<le> unat (q_max_udp_flows (tr_quic (sd_transport cfg))) \<and>
    (\<forall>fk w. fmlookup (cs_flows st) fk = Some w \<longrightarrow> length (items (wk_queue w)) \<le> 8) \<and>
    hm_sum (\<lambda>w. sum_list (map (\<lambda>m. length (fst m)) (items (wk_queue w)))) (cs_flows st) \<le> 8 * 1024 * 1024 \<and>
    cs_streams st \<le> unat (q_max_streams (tr_quic (sd_transport cfg)))"
proof -
  have good: "client_good C S items room free cfg st" unfolding assms(3) by (rule client_run_good [OF assms(1,2)])
  note ok = client_goodD(3) [OF good, unfolded flows_ok_def]
  have "hm_sum (\<lambda>w. sum_list (map (\<lambda>m. length (fst m)) (items (wk_queue w)))) (cs_flows st) \<le> hm_sum (load items) (cs_flows st)"
    unfolding hm_sum_def
  proof (rule sum_mono)
    fix fk assume "fk \<in> fset (fmdom (cs_flows st))"
    then obtain w where w: "fmlookup (cs_flows st) fk = Some w" by (auto simp: fmlookup_dom_iff)
    then have "worker_ok items room (cs_destinations st) (cs_packets st) fk w" using ok by blast
    then show "sum_list (map (\<lambda>m. length (fst m)) (items (wk_queue (the (fmlookup (cs_flows st) fk))))) \<le>
        load items (the (fmlookup (cs_flows st) fk))"
      unfolding w load_def option.sel by (intro length_le_permits) (simp add: worker_ok_def)
  qed
  moreover have "hm_sum (load items) (cs_flows st) \<le> QUEUE_BYTES" using budget.balance [OF good] by simp
  moreover have "length (items (wk_queue w)) \<le> 8" if "fmlookup (cs_flows st) fk = Some w" for fk w
    using ok that unfolding worker_ok_def by blast
  moreover have "cs_streams st \<le> unat (q_max_streams (tr_quic (sd_transport cfg)))"
    using tcp_slots.balance [OF good] by simp
  ultimately show ?thesis using ok unfolding QUEUE_BYTES_def by (meson order_trans)
qed

theorem client_session_bounded_witness:
  "\<exists>st. st = client_session_run list_channel sample_aead log_conn count_semaphore (sample_side False)
       [ClientDatagram (Ok sample_datagram) 0, BiAccepted (Ok ())]
       (client_session_new count_semaphore (sample_side False) [] (sender_new (dc_new ())) (fmupd 3 (V4 1 2) fmempty)) \<and>
     cs_streams st \<le> 256"
proof -
  have "unat (q_max_streams (tr_quic (sd_transport (sample_side False)))) = 256"
    by (simp add: sample_side_def transport_default_def quic_default_def)
  then show ?thesis
    using client_session_bounded [OF count_semaphore_counts list_channel_fifo refl, of sample_aead log_conn "sample_side False"
        "[ClientDatagram (Ok sample_datagram) 0, BiAccepted (Ok ())]" "[]" "sender_new (dc_new ())" "fmupd 3 (V4 1 2) fmempty"]
    by simp
qed

text \<open>
  C18: The client forwards only to its own services. Whatever a worker hands to its socket goes to
  the destination of the service in the packet's header, taken from the client's own table, and
  is the payload of a packet of that very service and flow that the session has received.
\<close>

theorem client_forwards_only_configured:
  assumes "semaphore_counts S free" "channel_fifo C items room"
    and "st = client_session_run C A N S cfg evs (client_session_new S cfg conn sender dest)"
    and "(fk, target, payload) \<in> set (cs_out st)"
  shows "fmlookup dest (fst fk) = Some target \<and>
    \<lparr>pk_service = fst fk, pk_flow = snd fk, pk_payload = payload\<rparr> \<in> set (cs_packets st)"
proof -
  have "client_good C S items room free cfg st" unfolding assms(3) by (rule client_run_good [OF assms(1,2)])
  note ok = client_goodD(3) [OF this, unfolded flows_ok_def]
  have "cs_destinations st = dest" by (simp add: assms(3) client_run_destinations) (simp add: client_session_new_def)
  then show ?thesis using ok assms(4) unfolding packet_for_def by blast
qed

text \<open>A packet comes in, and the worker it starts forwards it.\<close>

definition sample_client :: "(unit, bytes list, nat \<times> queued list, nat) client_session" where
  "sample_client = client_session_new count_semaphore (sample_side False) [] (sender_new (dc_new ())) (fmupd 3 (V4 1 2) fmempty)"

lemma sample_packet:
  "packet_iter sample_aead (dc_new ()) ra_default sample_datagram 0 =
     (Some \<lparr>pk_service = 3, pk_flow = 4, pk_payload = [7, 8]\<rparr>, (dc_new ())\<lparr>dc_replay := record_nonce rw_default 0\<rparr>, ra_default)"
proof -
  have "dc_open sample_aead (dc_new ()) sample_datagram = (Ok sample_fragment, (dc_new ())\<lparr>dc_replay := record_nonce rw_default 0\<rparr>)"
  proof (rule first_seal [OF sample_aead_correct, of sample_fragment "dc_new ()" "dc_new ()" 0])
    fix d
    assume "dc_seal sample_aead (dc_new ()) sample_fragment = (Ok d, dc_new ()\<lparr>dc_next := 1\<rparr>)"
      and opn: "dc_open sample_aead (dc_new ()) d = (Ok sample_fragment, dc_new ()\<lparr>dc_replay := record_nonce rw_default 0\<rparr>)"
    then have "d = sample_datagram" using sample_seal by simp
    then show ?thesis using opn by simp
  qed (simp_all add: sample_fragment_def length_fragment HEADER_def CHUNK_def)
  then show ?thesis by (simp add: packet_iter_def sample_fragment_def ra_push_single CHUNK_def)
qed

lemma sample_forwarded:
  "((3, 4), V4 1 2, [7, 8]) \<in> set (cs_out (client_session_run list_channel sample_aead log_conn count_semaphore (sample_side False)
     [ClientDatagram (Ok sample_datagram) 0, WorkerWakes (3, 4) (Queued (Ok ()))] sample_client))"
proof -
  have "unat (q_max_udp_flows (tr_quic (sd_transport (sample_side False)))) = 4096"
    by (simp add: sample_side_def transport_default_def quic_default_def)
  then show ?thesis
    using sample_packet
    by (simp add: client_session_run_def client_round_def sample_client_def client_session_new_def sender_new_def
        client_packet_def count_semaphore_def list_channel_def permits_for_def QUEUE_BYTES_def worker_wakes_def
        udp_flow_iter_def Let_def)
qed

theorem client_forwards_only_configured_witness:
  "\<lparr>pk_service = 3, pk_flow = 4, pk_payload = [7, 8]\<rparr> \<in> set (cs_packets (client_session_run list_channel sample_aead log_conn
     count_semaphore (sample_side False) [ClientDatagram (Ok sample_datagram) 0, WorkerWakes (3, 4) (Queued (Ok ()))] sample_client))"
  using client_forwards_only_configured [OF count_semaphore_counts list_channel_fifo refl sample_forwarded [unfolded sample_client_def]]
  by (simp add: sample_client_def)

end
