(* ===== verification/Transport.thy ===== *)
theory Transport
  imports Proxy
begin

text \<open>
  The QUIC endpoints of \<open>src/transport.rs\<close>: the transport parameters derived from a
  configuration, the UDP socket below an endpoint, the endpoints of both roles with their TLS
  identities, and the certificate verifier of a client that has no trust root. Quinn, rustls,
  rcgen, socket2 and the file system are parameters; what is handed to them is a record with one
  field per setting.
\<close>

section \<open>Transport parameters\<close>

record settings =
  ts_keep_alive_interval :: "duration option"
  ts_max_idle_timeout :: "nat option"
  ts_max_concurrent_bidi_streams :: u32
  ts_max_concurrent_uni_streams :: u32
  ts_stream_receive_window :: u32
  ts_receive_window :: u32
  ts_send_window :: u64
  ts_datagram_receive_buffer :: "usize option"
  ts_datagram_send_buffer :: usize

text \<open>
  \<open>to_idle\<close> is Quinn's conversion of a \<open>Duration\<close> into an \<open>IdleTimeout\<close>, a number of
  milliseconds. The sum \<open>max_streams + 1\<close> is the \<open>u32\<close> sum of the code.
\<close>

definition transport_settings :: "(duration \<Rightarrow> nat result) \<Rightarrow> quic \<Rightarrow> settings result" where
  "transport_settings to_idle q =
     rbind (if 0 < q_max_idle_timeout q
            then rbind (to_idle (from_secs (unat (q_max_idle_timeout q)))) (\<lambda>ms. Ok (Some ms))
            else Ok None) (\<lambda>idle.
     Ok \<lparr>ts_keep_alive_interval = (if 0 < q_keep_alive_interval q
           then Some (from_secs (unat (q_keep_alive_interval q))) else None),
         ts_max_idle_timeout = idle,
         ts_max_concurrent_bidi_streams = q_max_streams q + 1,
         ts_max_concurrent_uni_streams = 0,
         ts_stream_receive_window = q_stream_receive_window q,
         ts_receive_window = q_receive_window q,
         ts_send_window = ucast (q_send_window q),
         ts_datagram_receive_buffer = Some (1024 * 1024),
         ts_datagram_send_buffer = 1024 * 1024\<rparr>)"

section \<open>The socket\<close>

record 'sk socket_api =
  sk_new :: "bool \<Rightarrow> 'sk result"
  sk_set_recv_buffer_size :: "'sk \<Rightarrow> usize \<Rightarrow> 'sk result"
  sk_set_send_buffer_size :: "'sk \<Rightarrow> usize \<Rightarrow> 'sk result"
  sk_recv_buffer_size :: "'sk \<Rightarrow> usize result"
  sk_send_buffer_size :: "'sk \<Rightarrow> usize result"
  sk_set_nonblocking :: "'sk \<Rightarrow> bool \<Rightarrow> 'sk result"
  sk_bind :: "'sk \<Rightarrow> socket_addr \<Rightarrow> 'sk result"

text \<open>
  The second component tells whether the code warns that the operating system has capped the
  buffers, which is not an error.
\<close>

definition udp_socket :: "'sk socket_api \<Rightarrow> socket_addr \<Rightarrow> quic \<Rightarrow> ('sk \<times> bool) result" where
  "udp_socket K addr q =
     rbind (sk_new K (is_ipv6 addr)) (\<lambda>s0.
     rbind (sk_set_recv_buffer_size K s0 (q_socket_buffer q)) (\<lambda>s1.
     rbind (sk_set_send_buffer_size K s1 (q_socket_buffer q)) (\<lambda>s2.
     rbind (sk_recv_buffer_size K s2) (\<lambda>receive.
     rbind (sk_send_buffer_size K s2) (\<lambda>send.
     rbind (sk_set_nonblocking K s2 True) (\<lambda>s3.
     rbind (sk_bind K s3 addr) (\<lambda>s4.
     Ok (s4, receive < q_socket_buffer q \<or> send < q_socket_buffer q))))))))"

section \<open>Certificate verification\<close>

text \<open>
  A rustls \<open>ServerCertVerifier\<close>. \<open>vf_server_cert\<close> gets the end-entity certificate, the
  intermediates, the server name, the OCSP response and the time; the signature checks get the
  message, the certificate and the signature.
\<close>

record verifier =
  vf_server_cert :: "bytes \<Rightarrow> bytes list \<Rightarrow> string \<Rightarrow> bytes \<Rightarrow> nat \<Rightarrow> unit result"
  vf_tls12_signature :: "bytes \<Rightarrow> bytes \<Rightarrow> bytes \<Rightarrow> unit result"
  vf_tls13_signature :: "bytes \<Rightarrow> bytes \<Rightarrow> bytes \<Rightarrow> unit result"
  vf_schemes :: "u16 list"

text \<open>The signature checks of the \<open>ring\<close> provider that rustls offers to verifiers.\<close>

record tls_provider =
  tp_verify_tls12 :: "bytes \<Rightarrow> bytes \<Rightarrow> bytes \<Rightarrow> unit result"
  tp_verify_tls13 :: "bytes \<Rightarrow> bytes \<Rightarrow> bytes \<Rightarrow> unit result"
  tp_schemes :: "u16 list"

definition noise_authenticated_outer_tls :: "tls_provider \<Rightarrow> verifier" where
  "noise_authenticated_outer_tls P = \<lparr>
     vf_server_cert = (\<lambda>_ _ _ _ _. Ok ()),
     vf_tls12_signature = (\<lambda>message cert dss. tp_verify_tls12 P message cert dss),
     vf_tls13_signature = (\<lambda>message cert dss. tp_verify_tls13 P message cert dss),
     vf_schemes = tp_schemes P\<rparr>"

section \<open>The endpoints\<close>

datatype 'r trust = Roots 'r | Custom verifier

record server_tls =
  st_cert :: bytes
  st_key :: bytes
  st_alpn :: "bytes list"

record 'r client_tls =
  ct_trust :: "'r trust"
  ct_alpn :: "bytes list"

text \<open>
  What the code calls in rcgen (a fresh certificate with its key), rustls (accepting an identity,
  adding a root) and Quinn (accepting a TLS configuration, creating an endpoint).
\<close>

record ('r, 'sk, 'ep) quic_api =
  qa_self_signed :: "string \<Rightarrow> (bytes \<times> bytes) result"
  qa_single_cert :: "bytes \<Rightarrow> bytes \<Rightarrow> unit result"
  qa_add_root :: "bytes \<Rightarrow> 'r result"
  qa_quic_server :: "server_tls \<Rightarrow> unit result"
  qa_quic_client :: "'r client_tls \<Rightarrow> unit result"
  qa_idle_timeout :: "duration \<Rightarrow> nat result"
  qa_server_endpoint :: "server_tls \<Rightarrow> settings \<Rightarrow> 'sk \<Rightarrow> 'ep result"
  qa_client_endpoint :: "'r client_tls \<Rightarrow> settings \<Rightarrow> 'sk \<Rightarrow> 'ep result"

definition ALPN :: "bytes list" where "ALPN = [ascii ''cathole/1'']"

text \<open>\<open>read\<close> is \<open>std::fs::read\<close>.\<close>

definition server_identity :: "('r, 'sk, 'ep) quic_api \<Rightarrow> (string \<Rightarrow> bytes result) \<Rightarrow> quic \<Rightarrow> (bytes \<times> bytes) result" where
  "server_identity Q read q =
     (case (q_certificate q, q_private_key q) of
        (Some cert, Some k) \<Rightarrow> rbind (read cert) (\<lambda>c. rbind (read k) (\<lambda>p. Ok (c, p)))
      | _ \<Rightarrow> qa_self_signed Q (q_hostname q))"

definition transport_server :: "('r, 'sk, 'ep) quic_api \<Rightarrow> 'sk socket_api \<Rightarrow> (string \<Rightarrow> bytes result)
    \<Rightarrow> socket_addr \<Rightarrow> quic \<Rightarrow> 'ep result" where
  "transport_server Q K read addr q =
     rbind (server_identity Q read q) (\<lambda>(cert, k).
     rbind (qa_single_cert Q cert k) (\<lambda>_.
     let tls = \<lparr>st_cert = cert, st_key = k, st_alpn = ALPN\<rparr> in
     rbind (qa_quic_server Q tls) (\<lambda>_.
     rbind (transport_settings (qa_idle_timeout Q) q) (\<lambda>t.
     rbind (udp_socket K addr q) (\<lambda>(s, _).
     qa_server_endpoint Q tls t s)))))"

definition client_trust :: "('r, 'sk, 'ep) quic_api \<Rightarrow> tls_provider \<Rightarrow> (string \<Rightarrow> bytes result) \<Rightarrow> quic \<Rightarrow> 'r trust result" where
  "client_trust Q P read q =
     (case q_trusted_root q of
        Some root \<Rightarrow> rbind (read root) (\<lambda>c. rbind (qa_add_root Q c) (\<lambda>roots. Ok (Roots roots)))
      | None \<Rightarrow> Ok (Custom (noise_authenticated_outer_tls P)))"

definition transport_client :: "('r, 'sk, 'ep) quic_api \<Rightarrow> 'sk socket_api \<Rightarrow> tls_provider \<Rightarrow> (string \<Rightarrow> bytes result)
    \<Rightarrow> socket_addr \<Rightarrow> quic \<Rightarrow> 'ep result" where
  "transport_client Q K P read addr q =
     rbind (client_trust Q P read q) (\<lambda>trust.
     let tls = \<lparr>ct_trust = trust, ct_alpn = ALPN\<rparr> in
     rbind (qa_quic_client Q tls) (\<lambda>_.
     rbind (transport_settings (qa_idle_timeout Q) q) (\<lambda>t.
     rbind (udp_socket K addr q) (\<lambda>(s, _).
     qa_client_endpoint Q tls t s))))"

section \<open>Contracts and instances\<close>

text \<open>
  Quinn's documented conversion: an idle timeout is a number of milliseconds below \<open>2\<^sup>6\<^sup>2\<close>, the
  range of a QUIC variable-length integer.
\<close>

definition idle_in_millis :: "(duration \<Rightarrow> nat result) \<Rightarrow> bool" where
  "idle_in_millis to_idle \<longleftrightarrow> (\<forall>d. d div 1000000 < 2 ^ 62 \<longrightarrow> to_idle d = Ok (d div 1000000))"

text \<open>The timers and limits that \<open>validate_side\<close> leaves in a validated configuration.\<close>

definition valid_quic :: "quic \<Rightarrow> bool" where
  "valid_quic q \<longleftrightarrow> valid_limits q \<and> unat (q_keep_alive_interval q) \<le> 86400 \<and> unat (q_max_idle_timeout q) \<le> 86400"

definition sample_to_idle :: "duration \<Rightarrow> nat result" where
  "sample_to_idle d = (if d div 1000000 < 2 ^ 62 then Ok (d div 1000000) else Err (External ''VarIntBoundsExceeded''))"

text \<open>
  A socket that remembers its address, and an endpoint that is what it was created from: either
  TLS configuration, the parameters and the socket.
\<close>

type_synonym sample_endpoint = "(server_tls + bytes client_tls) \<times> settings \<times> socket_addr option"

definition sample_sockets :: "socket_addr option socket_api" where
  "sample_sockets = \<lparr>sk_new = (\<lambda>_. Ok None), sk_set_recv_buffer_size = (\<lambda>s _. Ok s),
     sk_set_send_buffer_size = (\<lambda>s _. Ok s), sk_recv_buffer_size = (\<lambda>_. Ok 212992),
     sk_send_buffer_size = (\<lambda>_. Ok 212992), sk_set_nonblocking = (\<lambda>s _. Ok s), sk_bind = (\<lambda>_ a. Ok (Some a))\<rparr>"

definition sample_quic :: "(bytes, socket_addr option, sample_endpoint) quic_api" where
  "sample_quic = \<lparr>qa_self_signed = (\<lambda>name. Ok (ascii name, ascii ''key'')),
     qa_single_cert = (\<lambda>cert k. if cert = [] then Err (External ''bad certificate'') else Ok ()),
     qa_add_root = Ok, qa_quic_server = (\<lambda>_. Ok ()), qa_quic_client = (\<lambda>_. Ok ()),
     qa_idle_timeout = sample_to_idle,
     qa_server_endpoint = (\<lambda>tls t s. Ok (Inl tls, t, s)),
     qa_client_endpoint = (\<lambda>tls t s. Ok (Inr tls, t, s))\<rparr>"

definition sample_provider :: tls_provider where
  "sample_provider = \<lparr>tp_verify_tls12 = (\<lambda>_ _ _. Err (External ''tls12'')),
     tp_verify_tls13 = (\<lambda>message cert dss. if dss = message @ cert then Ok () else Err (External ''signature'')),
     tp_schemes = [0x0807]\<rparr>"

text \<open>A side without a trust root.\<close>

definition rootless :: "side \<Rightarrow> side" where
  "rootless s = s\<lparr>sd_transport := (sd_transport s)\<lparr>tr_quic := (tr_quic (sd_transport s))\<lparr>q_trusted_root := None\<rparr>\<rparr>\<rparr>"

section \<open>The parameters of a valid configuration\<close>

lemma rootless_valid: "valid_side sample_b64 (rootless (sample_side server)) server"
proof -
  have noise: "valid_noise sample_b64 (tr_noise (sd_transport (sample_side server))) server pinned" for pinned
    by (subst valid_noise_pattern [where p = "''NK''"])
       (simp_all add: sample_side_def noise_default_def PATTERN_def valid_key_def sample_b64_def)
  show ?thesis
    using sample_valid [of server] noise
    by (auto simp: valid_side_def rootless_def valid_role_def valid_limits_def keep_alive_def idle_timeout_def
        valid_service_def token_def service_retry_def)
qed

lemma valid_side_quic:
  "valid_side b64 s server \<Longrightarrow> valid_quic (tr_quic (sd_transport (effective s server)))"
  by (simp add: valid_side_def valid_quic_def)

lemma idle_in_millisD: "idle_in_millis to_idle \<Longrightarrow> s \<le> 86400 \<Longrightarrow> to_idle (from_secs s) = Ok (s * 1000)"
  unfolding idle_in_millis_def
  by (drule spec [of _ "from_secs s"]) simp

lemma sample_to_idle_contract: "idle_in_millis sample_to_idle"
  by (simp add: idle_in_millis_def sample_to_idle_def)

lemma timer_positive: "(0 < (t :: u64)) = (unat t \<noteq> 0)"
  by (simp add: word_gt_0 unat_eq_zero)

lemma streams_plus_control: "unat m \<le> 4096 \<Longrightarrow> unat (m + 1 :: u32) = unat m + 1"
  by (simp add: unat_word_ariths)

lemma unat_ucast_u64: "unat (ucast (w :: u32) :: u64) = unat w"
  by (simp add: unsigned_ucast_eq take_bit_nat_eq_self less_trans [OF unsigned_less])

lemma transport_settings_valid:
  assumes "idle_in_millis to_idle" "valid_quic q"
  shows "\<exists>t. transport_settings to_idle q = Ok t"
  using idle_in_millisD [OF assms(1), of "unat (q_max_idle_timeout q)"] assms(2)
  by (simp add: transport_settings_def valid_quic_def)

lemma transport_settings_timers:
  assumes "idle_in_millis to_idle" "valid_quic q" "transport_settings to_idle q = Ok t"
  shows "ts_keep_alive_interval t = (if unat (q_keep_alive_interval q) = 0 then None
      else Some (from_secs (unat (q_keep_alive_interval q))))"
    and "ts_max_idle_timeout t = (if unat (q_max_idle_timeout q) = 0 then None
      else Some (unat (q_max_idle_timeout q) * 1000))"
  using idle_in_millisD [OF assms(1), of "unat (q_max_idle_timeout q)"] assms(2,3)
  by (auto simp: transport_settings_def valid_quic_def timer_positive result_simps split: if_splits)

lemma transport_settings_limits:
  assumes "valid_quic q" "transport_settings to_idle q = Ok t"
  shows "unat (ts_max_concurrent_bidi_streams t) = unat (q_max_streams q) + 1"
    and "ts_max_concurrent_uni_streams t = 0"
    and "unat (ts_stream_receive_window t) \<le> unat (ts_receive_window t)"
    and "unat (ts_receive_window t) \<le> 2 ^ 29" "unat (ts_send_window t) = unat (q_send_window q)"
  using assms
  by (auto simp: transport_settings_def result_simps valid_quic_def valid_limits_def
      streams_plus_control unat_ucast_u64)

lemma validated_quic: "validate_side b64 s0 server = Ok s \<Longrightarrow> valid_quic (tr_quic (sd_transport s))"
  by (auto simp: validate_side_Ok valid_side_quic)

section \<open>Who is authenticated\<close>

lemma server_identity_cases:
  assumes "server_identity Q read q = Ok (cert, k)" "(q_certificate q = None) = (q_private_key q = None)"
  shows "case q_certificate q of None \<Rightarrow> qa_self_signed Q (q_hostname q) = Ok (cert, k)
    | Some p \<Rightarrow> read p = Ok cert \<and> (\<exists>p'. q_private_key q = Some p' \<and> read p' = Ok k)"
  using assms by (auto simp: server_identity_def result_simps split: option.splits)

lemma transport_server_Ok:
  "transport_server Q K read addr q = Ok ep \<longleftrightarrow>
     (\<exists>cert k t s w. server_identity Q read q = Ok (cert, k) \<and> qa_single_cert Q cert k = Ok () \<and>
        qa_quic_server Q \<lparr>st_cert = cert, st_key = k, st_alpn = ALPN\<rparr> = Ok () \<and>
        transport_settings (qa_idle_timeout Q) q = Ok t \<and> udp_socket K addr q = Ok (s, w) \<and>
        qa_server_endpoint Q \<lparr>st_cert = cert, st_key = k, st_alpn = ALPN\<rparr> t s = Ok ep)"
  by (auto simp: transport_server_def Let_def rbind_eq_Ok split: prod.splits)

lemma transport_client_Ok:
  "transport_client Q K P read addr q = Ok ep \<longleftrightarrow>
     (\<exists>trust t s w. client_trust Q P read q = Ok trust \<and>
        qa_quic_client Q \<lparr>ct_trust = trust, ct_alpn = ALPN\<rparr> = Ok () \<and>
        transport_settings (qa_idle_timeout Q) q = Ok t \<and> udp_socket K addr q = Ok (s, w) \<and>
        qa_client_endpoint Q \<lparr>ct_trust = trust, ct_alpn = ALPN\<rparr> t s = Ok ep)"
  unfolding transport_client_def Let_def rbind_eq_Ok by (auto split: prod.splits)

text \<open>Without a pinned certificate the pattern is \<open>NK\<close> or \<open>KK\<close>, and a client then pins the server's Noise key.\<close>

lemma unpinned_client_pins_noise_key:
  assumes "valid_side b64 s False" "q_trusted_root (tr_quic (sd_transport s)) = None"
  shows "noise_pattern (tr_noise (sd_transport s)) \<in> {noise_name ''NK'', noise_name ''KK''}"
    and "valid_key b64 (noise_remote_public_key (tr_noise (sd_transport s)))"
  using assms by (auto simp: valid_side_def valid_noise_def)

section \<open>Properties\<close>

text \<open>
  C37: Transport parameters. For a validated side the QUIC parameters can always be built; there is
  one bidirectional stream more than \<open>max_streams\<close>, for the registration, and the \<open>u32\<close> sum does
  not wrap; unidirectional streams are off; a stream's window never exceeds the connection's; and
  a timer of 0 seconds is off, any other is passed on exactly.
\<close>

theorem transport_settings_exact:
  assumes "idle_in_millis to_idle" "validate_side b64 s0 server = Ok s"
    and "q = tr_quic (sd_transport s)"
  shows "\<exists>t. transport_settings to_idle q = Ok t \<and>
    unat (ts_max_concurrent_bidi_streams t) = unat (q_max_streams q) + 1 \<and>
    ts_max_concurrent_bidi_streams t \<le> 4097 \<and> ts_max_concurrent_uni_streams t = 0 \<and>
    unat (ts_stream_receive_window t) \<le> unat (ts_receive_window t) \<and> unat (ts_receive_window t) \<le> 2 ^ 29 \<and>
    unat (ts_send_window t) = unat (q_send_window q) \<and>
    ts_keep_alive_interval t = (if unat (keep_alive s0 server) = 0 then None
      else Some (from_secs (unat (keep_alive s0 server)))) \<and>
    ts_max_idle_timeout t = (if unat (idle_timeout s0 server) = 0 then None
      else Some (unat (idle_timeout s0 server) * 1000))"
proof -
  have q: "valid_quic q" using assms(2,3) validated_quic by simp
  obtain t where t: "transport_settings to_idle q = Ok t" using transport_settings_valid [OF assms(1) q] ..
  have timers: "q_keep_alive_interval q = keep_alive s0 server" "q_max_idle_timeout q = idle_timeout s0 server"
    using assms(2,3) by (simp_all add: validate_side_Ok)
  have "ts_max_concurrent_bidi_streams t \<le> 4097"
    using transport_settings_limits(1) [OF q t] q by (simp add: word_le_nat_alt valid_quic_def valid_limits_def)
  then show ?thesis
    using t transport_settings_limits [OF q t] transport_settings_timers [OF assms(1) q t] timers by auto
qed

theorem transport_settings_exact_witness:
  "\<exists>t. transport_settings sample_to_idle (tr_quic (sd_transport (effective (sample_side True) True))) = Ok t \<and>
     unat (ts_max_concurrent_bidi_streams t) = 257 \<and> ts_max_idle_timeout t = Some 60000"
proof -
  have "validate_side sample_b64 (sample_side True) True = Ok (effective (sample_side True) True)"
    by (simp add: validate_side_Ok sample_valid)
  from transport_settings_exact [OF sample_to_idle_contract this refl]
  have "\<exists>t. transport_settings sample_to_idle (tr_quic (sd_transport (effective (sample_side True) True))) = Ok t \<and>
     unat (ts_max_concurrent_bidi_streams t) = unat (q_max_streams (tr_quic (sd_transport (effective (sample_side True) True)))) + 1 \<and>
     ts_max_idle_timeout t = (if unat (idle_timeout (sample_side True) True) = 0 then None
      else Some (unat (idle_timeout (sample_side True) True) * 1000))" by blast
  then show ?thesis
    by (simp add: effective_def sample_side_def transport_default_def quic_default_def idle_timeout_def)
qed



end
