(* ===== verification/Process.thy ===== *)
theory Process
  imports Transport Registration
begin

text \<open>
  The program, \<open>src/main.rs\<close>: the command line, \<open>--genkey\<close>, \<open>--init\<close> with the files it
  creates, the selection and validation of a configuration, and the loop that runs one server or
  client at a time, reloads the configuration when its file changes and restores the previous one
  when a reloaded task ends. One event is one branch of the loop's \<open>select!\<close>.
\<close>

section \<open>Arguments\<close>

datatype keypair_type = X25519

record args =
  ar_config :: "string option"
  ar_check :: bool
  ar_genkey :: "keypair_type option"
  ar_init :: "string option"
  ar_server :: bool
  ar_client :: bool

section \<open>Files\<close>

text \<open>
  The file system as \<open>--init\<close> uses it: directories, and files with their contents and the mode
  they were created with. \<open>fault path\<close> is an I/O error of the operating system at that path: the
  open fails, or the write fails after some bytes.
\<close>

record stored =
  fl_bytes :: bytes
  fl_mode :: nat

record fs =
  fs_dirs :: "string set"
  fs_files :: "(string, stored) fmap"

datatype fault = OpenFails error | WriteFails nat error

definition path_exists :: "fs \<Rightarrow> string \<Rightarrow> bool" where
  "path_exists fs p \<longleftrightarrow> p \<in> fs_dirs fs \<or> fmlookup (fs_files fs) p \<noteq> None"

definition create_dir :: "(string \<Rightarrow> fault option) \<Rightarrow> string \<Rightarrow> fs \<Rightarrow> unit result \<times> fs" where
  "create_dir fault p fs =
     (if path_exists fs p \<or> fault p \<noteq> None then (Err (MainError IdentityDirectory), fs)
      else (Ok (), fs\<lparr>fs_dirs := insert p (fs_dirs fs)\<rparr>))"

text \<open>\<open>create\<close> opens with \<open>create_new\<close> and mode \<open>0o600\<close>, then writes everything.\<close>

definition create :: "(string \<Rightarrow> fault option) \<Rightarrow> string \<Rightarrow> bytes \<Rightarrow> fs \<Rightarrow> unit result \<times> fs" where
  "create fault p bs fs =
     (if path_exists fs p then (Err (External ''AlreadyExists''), fs)
      else case fault p of
        Some (OpenFails e) \<Rightarrow> (Err e, fs)
      | Some (WriteFails n e) \<Rightarrow>
          (Err e, fs\<lparr>fs_files := fmupd p \<lparr>fl_bytes = take n bs, fl_mode = 0x180\<rparr> (fs_files fs)\<rparr>)
      | None \<Rightarrow> (Ok (), fs\<lparr>fs_files := fmupd p \<lparr>fl_bytes = bs, fl_mode = 0x180\<rparr> (fs_files fs)\<rparr>))"

text \<open>Sequencing of file operations with early return.\<close>

definition fs_then :: "unit result \<times> fs \<Rightarrow> (fs \<Rightarrow> unit result \<times> fs) \<Rightarrow> unit result \<times> fs" where
  "fs_then r f = (case r of (Ok _, fs) \<Rightarrow> f fs | (Err e, fs) \<Rightarrow> (Err e, fs))"

text \<open>
  \<open>std::fs::read\<close> and \<open>read_to_string\<close>; \<open>utf8\<close> is the validity check for contents that are not
  plain ASCII.
\<close>

definition fs_read :: "fs \<Rightarrow> string \<Rightarrow> bytes result" where
  "fs_read fs p = (case fmlookup (fs_files fs) p of
     None \<Rightarrow> Err (External ''NotFound'') | Some f \<Rightarrow> Ok (fl_bytes f))"

definition text_of :: "bytes \<Rightarrow> string" where
  "text_of bs = map (\<lambda>b. char_of (unat b)) bs"

definition fs_read_to_string :: "(bytes \<Rightarrow> bool) \<Rightarrow> fs \<Rightarrow> string \<Rightarrow> string result" where
  "fs_read_to_string utf8 fs p = rbind (fs_read fs p) (\<lambda>bs.
     ensure (list_all (\<lambda>b. b < 128) bs \<or> utf8 bs) (External ''InvalidData'') (Ok (text_of bs)))"

section \<open>The example configurations\<close>

definition quoted :: "string \<Rightarrow> string" where
  "quoted v = CHR 0x22 # v @ [CHR 0x22]"

definition setting :: "string \<Rightarrow> string \<Rightarrow> string" where
  "setting k v = k @ '' = '' @ quoted v"

definition text_lines :: "string list \<Rightarrow> string" where
  "text_lines ls = concat (map (\<lambda>l. l @ [CHR 0x0A]) ls)"

definition server_toml :: "string \<Rightarrow> string \<Rightarrow> string" where
  "server_toml tok k = text_lines [
     ''[server]'',
     setting ''bind_addr'' ''127.0.0.1:2333'',
     setting ''default_token'' tok,
     '''',
     ''[server.transport]'',
     setting ''type'' ''quic'',
     ''[server.transport.noise]'',
     setting ''local_private_key'' k,
     ''[server.transport.quic]'',
     setting ''certificate'' ''server.der'',
     setting ''private_key'' ''server-key.der'',
     ''keep_alive_interval = 15'',
     ''max_idle_timeout = 60'',
     '''',
     ''[server.services.echo]'',
     setting ''type'' ''tcp'',
     setting ''bind_addr'' ''127.0.0.1:5202'',
     ''[server.services.echo_udp]'',
     setting ''type'' ''udp'',
     setting ''bind_addr'' ''127.0.0.1:5202'']"

definition client_toml :: "string \<Rightarrow> string \<Rightarrow> string" where
  "client_toml tok k = text_lines [
     ''[client]'',
     setting ''remote_addr'' ''127.0.0.1:2333'',
     setting ''default_token'' tok,
     '''',
     ''[client.transport]'',
     setting ''type'' ''quic'',
     ''[client.transport.noise]'',
     setting ''remote_public_key'' k,
     ''[client.transport.quic]'',
     setting ''trusted_root'' ''server.der'',
     setting ''hostname'' ''cathole'',
     ''keep_alive_interval = 15'',
     ''max_idle_timeout = 60'',
     '''',
     ''[client.services.echo]'',
     setting ''type'' ''tcp'',
     setting ''local_addr'' ''127.0.0.1:5201'',
     ''[client.services.echo_udp]'',
     setting ''type'' ''udp'',
     setting ''local_addr'' ''127.0.0.1:5201'']"

text \<open>
  \<open>initialize\<close>. Its parameters are snow's parser of pattern names and key generator (private and
  public key), rcgen's certificate, the 32 random bytes of the token and the Base64 encoder.
\<close>

record generators =
  gn_pattern :: "string \<Rightarrow> unit result"
  gn_keypair :: "(bytes \<times> bytes) result"
  gn_self_signed :: "string \<Rightarrow> (bytes \<times> bytes) result"
  gn_random :: bytes
  gn_encode :: "bytes \<Rightarrow> string"

definition initialize :: "generators \<Rightarrow> (string \<Rightarrow> fault option) \<Rightarrow> string \<Rightarrow> fs \<Rightarrow> unit result \<times> fs" where
  "initialize G fault dir fs =
     fs_then (create_dir fault dir fs) (\<lambda>fs.
     case rbind (gn_pattern G PATTERN) (\<lambda>_.
          rbind (gn_keypair G) (\<lambda>keys.
          rbind (gn_self_signed G ''cathole'') (\<lambda>cert. Ok (keys, cert)))) of
       Err e \<Rightarrow> (Err e, fs)
     | Ok ((private, public), (der, pkcs8)) \<Rightarrow>
         fs_then (create fault (path_join dir ''server.der'') der fs) (\<lambda>fs.
         fs_then (create fault (path_join dir ''server-key.der'') pkcs8 fs) (\<lambda>fs.
         let tok = gn_encode G (gn_random G);
             server = server_toml tok (gn_encode G private);
             client = client_toml tok (gn_encode G public) in
         fs_then (create fault (path_join dir ''server.toml'') (ascii server) fs) (\<lambda>fs.
         fs_then (create fault (path_join dir ''client.toml'') (ascii client) fs) (\<lambda>fs.
         (Ok (), fs))))))"

section \<open>Loading a configuration\<close>

text \<open>The libraries the program is linked with, and what the file system holds at one moment.\<close>

record ('r, 'sk, 'ep) platform =
  pf_b64 :: "string \<Rightarrow> bytes option"
  pf_from_str :: "string \<Rightarrow> config option"
  pf_quic :: "('r, 'sk, 'ep) quic_api"
  pf_sockets :: "'sk socket_api"
  pf_tls :: tls_provider

record files =
  vw_read :: "string \<Rightarrow> bytes result"
  vw_read_to_string :: "string \<Rightarrow> string result"

definition LOOPBACK :: socket_addr where "LOOPBACK = V4 0x7F000001 0"

definition validate_files :: "('r, 'sk, 'ep) platform \<Rightarrow> files \<Rightarrow> config \<Rightarrow> unit result" where
  "validate_files pf v c =
     rbind (ok_or (option_or (cf_server c) (cf_client c)) Panicked) (\<lambda>s.
     let q = tr_quic (sd_transport s) in
     rbind (if cf_server c \<noteq> None
            then transport_server (pf_quic pf) (pf_sockets pf) (vw_read v) LOOPBACK q
            else transport_client (pf_quic pf) (pf_sockets pf) (pf_tls pf) (vw_read v) LOOPBACK q) (\<lambda>_.
     Ok ()))"

definition load :: "('r, 'sk, 'ep) platform \<Rightarrow> files \<Rightarrow> bool \<Rightarrow> string \<Rightarrow> config result" where
  "load pf v role path =
     rbind (read_config (pf_b64 pf) (pf_from_str pf) (vw_read_to_string v) path) (\<lambda>c.
     rbind (select_role c role) (\<lambda>c.
     rbind (validate_files pf v c) (\<lambda>_. Ok c)))"

section \<open>The process\<close>

text \<open>
  The task \<open>launch\<close> spawns; the last case is the \<open>unwrap\<close> of a missing client. \<open>ps_log\<close> records
  when a task has been launched and when it has been awaited to its end.
\<close>

datatype task = ServerTask side | ClientTask side | PanickedTask

definition launch :: "config \<Rightarrow> task" where
  "launch c = (case cf_server c of Some s \<Rightarrow> ServerTask s
     | None \<Rightarrow> (case cf_client c of Some s \<Rightarrow> ClientTask s | None \<Rightarrow> PanickedTask))"

datatype entry = Launched task | Awaited

record process =
  ps_current :: config
  ps_rollback :: "config option"
  ps_seen :: bytes
  ps_log :: "entry list"
  ps_exit :: "unit result option"

text \<open>
  The branches of the loop: the interrupt, the end of the running task with its result, and a
  tick, with the files at the first read of the configuration and at its reload.
\<close>

datatype event = CtrlC | TaskEnded "unit result" | Tick files files

definition restart :: "config \<Rightarrow> process \<Rightarrow> process" where
  "restart c st = st\<lparr>ps_current := c, ps_log := ps_log st @ [Awaited, Launched (launch c)]\<rparr>"

definition process_step :: "('r, 'sk, 'ep) platform \<Rightarrow> bool \<Rightarrow> string \<Rightarrow> event \<Rightarrow> process \<Rightarrow> process" where
  "process_step pf role path ev st =
     (if ps_exit st \<noteq> None then st
      else case ev of
        CtrlC \<Rightarrow> st\<lparr>ps_exit := Some (Ok ()), ps_log := ps_log st @ [Awaited]\<rparr>
      | TaskEnded r \<Rightarrow>
          (case ps_rollback st of
             Some old \<Rightarrow> restart old (st\<lparr>ps_rollback := None\<rparr>)
           | None \<Rightarrow> st\<lparr>ps_exit := Some r, ps_log := ps_log st @ [Awaited]\<rparr>)
      | Tick v v' \<Rightarrow>
          (case vw_read v path of
             Err e \<Rightarrow> st
           | Ok bs \<Rightarrow>
               if bs = ps_seen st then st
               else (let st = st\<lparr>ps_seen := bs\<rparr> in
                 case load pf v' role path of
                   Err e \<Rightarrow> st
                 | Ok c \<Rightarrow> restart c (st\<lparr>ps_rollback := Some (ps_current st)\<rparr>))))"

text \<open>
  \<open>main\<close> up to the loop: what it prints, or the process that runs. \<open>v\<close> holds the files when the
  configuration is read and checked, \<open>v'\<close> when its bytes are read again.
\<close>

datatype outcome = Printed string | Finished "unit result" | Serving bool string process

definition role_of :: "args \<Rightarrow> config \<Rightarrow> bool result" where
  "role_of a parsed =
     (if ar_server a then Ok True
      else if ar_client a then Ok False
      else if (cf_server parsed \<noteq> None) \<noteq> (cf_client parsed \<noteq> None) then Ok (cf_server parsed \<noteq> None)
      else Err (MainError BothRoles))"

definition genkey :: "generators \<Rightarrow> keypair_type \<Rightarrow> string result" where
  "genkey G curve =
     (let pattern = (case curve of X25519 \<Rightarrow> PATTERN) in
      rbind (gn_pattern G pattern) (\<lambda>_.
      rbind (gn_keypair G) (\<lambda>(private, public).
      Ok (text_lines [''Private Key:'', gn_encode G private, ''Public Key:'', gn_encode G public]))))"

definition serve :: "('r, 'sk, 'ep) platform \<Rightarrow> args \<Rightarrow> files \<Rightarrow> files \<Rightarrow> outcome result" where
  "serve pf a v v' =
     rbind (ok_or (ar_config a) (MainError NothingToDo)) (\<lambda>path.
     rbind (read_config (pf_b64 pf) (pf_from_str pf) (vw_read_to_string v) path) (\<lambda>parsed.
     rbind (role_of a parsed) (\<lambda>role.
     rbind (select_role parsed role) (\<lambda>current.
     rbind (validate_files pf v current) (\<lambda>_.
     if ar_check a then Ok (Printed ''Configuration and identity files are valid'')
     else rbind (vw_read v' path) (\<lambda>seen.
       Ok (Serving role path \<lparr>ps_current = current, ps_rollback = None, ps_seen = seen,
             ps_log = [Launched (launch current)], ps_exit = None\<rparr>)))))))"

definition main_start :: "('r, 'sk, 'ep) platform \<Rightarrow> generators \<Rightarrow> (string \<Rightarrow> fault option) \<Rightarrow> args \<Rightarrow> files \<Rightarrow> files
    \<Rightarrow> fs \<Rightarrow> outcome \<times> fs" where
  "main_start pf G fault a v v' fs =
     (case ar_genkey a of
        Some curve \<Rightarrow> ((case genkey G curve of Ok s \<Rightarrow> Printed s | Err e \<Rightarrow> Finished (Err e)), fs)
      | None \<Rightarrow>
          (case ar_init a of
             Some dir \<Rightarrow> (case initialize G fault dir fs of (r, fs') \<Rightarrow> (Finished r, fs'))
           | None \<Rightarrow> ((case serve pf a v v' of Ok x \<Rightarrow> x | Err e \<Rightarrow> Finished (Err e)), fs)))"

section \<open>What a run promises\<close>

text \<open>A configuration the program has accepted for a role, with the files as they were then.\<close>

definition accepted :: "('r, 'sk, 'ep) platform \<Rightarrow> bool \<Rightarrow> string \<Rightarrow> config \<Rightarrow> bool" where
  "accepted pf role path c \<longleftrightarrow> (\<exists>v. load pf v role path = Ok c)"

text \<open>A log in which every task but the last has been awaited before the next is launched.\<close>

fun one_at_a_time :: "entry list \<Rightarrow> bool" where
  "one_at_a_time [] = True"
| "one_at_a_time [Launched t] = True"
| "one_at_a_time (Launched t # Awaited # rest) = one_at_a_time rest"
| "one_at_a_time _ = False"

text \<open>A tick that finds the file as it was last seen, or unreadable.\<close>

definition quiet :: "string \<Rightarrow> bytes \<Rightarrow> event \<Rightarrow> bool" where
  "quiet path bs ev \<longleftrightarrow> (\<exists>v v'. ev = Tick v v' \<and> (\<forall>x. vw_read v path = Ok x \<longrightarrow> x = bs))"

lemma resolve_side_simps [simp]:
  "sd_services (resolve_side dir s) = sd_services s"
  "tr_noise (sd_transport (resolve_side dir s)) = tr_noise (sd_transport s)"
  "tr_kind (sd_transport (resolve_side dir s)) = tr_kind (sd_transport s)"
  "tr_tcp (sd_transport (resolve_side dir s)) = tr_tcp (sd_transport s)"
  "sd_retry_interval (resolve_side dir s) = sd_retry_interval s"
  "token (resolve_side dir s) sv = token s sv"
  "service_retry (resolve_side dir s) sv = service_retry s sv"
  "keep_alive (resolve_side dir s) server = keep_alive s server"
  "idle_timeout (resolve_side dir s) server = idle_timeout s server"
  "valid_limits (tr_quic (sd_transport (resolve_side dir s))) = valid_limits (tr_quic (sd_transport s))"
  by (simp_all add: resolve_side_def token_def service_retry_def keep_alive_def idle_timeout_def valid_limits_def)

lemma resolve_path_None [simp]: "resolve_path dir v = None \<longleftrightarrow> v = None"
  by (simp add: resolve_path_def split: option.splits)

lemma resolve_side_options [simp]:
  "q_certificate (tr_quic (sd_transport (resolve_side dir s))) = None \<longleftrightarrow> q_certificate (tr_quic (sd_transport s)) = None"
  "q_trusted_root (tr_quic (sd_transport (resolve_side dir s))) = None \<longleftrightarrow> q_trusted_root (tr_quic (sd_transport s)) = None"
  "valid_role (resolve_side dir s) server = valid_role s server"
  by (simp_all add: resolve_side_def valid_role_def)

lemma valid_side_resolve: "valid_side b64 (resolve_side dir s) server = valid_side b64 s server"
  unfolding valid_side_def valid_service_def by (cases server) simp_all

lemma read_config_valid:
  assumes "read_config b64 from_str read_to_string path = Ok c"
  shows "\<forall>s. cf_server c = Some s \<longrightarrow> valid_side b64 s True" "\<forall>s. cf_client c = Some s \<longrightarrow> valid_side b64 s False"
  using assms by (auto simp: read_config_def result_simps parse_Ok Let_def valid_side_resolve valid_side_effective)

lemma load_Ok:
  assumes "load pf v role path = Ok c"
  shows "\<exists>s. valid_side (pf_b64 pf) s role \<and> launch c = (if role then ServerTask s else ClientTask s)"
proof -
  obtain c0 where c0: "read_config (pf_b64 pf) (pf_from_str pf) (vw_read_to_string v) path = Ok c0"
    "select_role c0 role = Ok c"
    using assms by (auto simp: load_def result_simps)
  then show ?thesis
    using read_config_valid [OF c0(1)] by (auto simp: select_role_def result_simps launch_def split: if_splits)
qed

lemma accepted_task:
  "accepted pf role path c \<Longrightarrow>
   \<exists>s. valid_side (pf_b64 pf) s role \<and> launch c = (if role then ServerTask s else ClientTask s)"
  unfolding accepted_def using load_Ok by blast

lemma one_at_a_time_await: "one_at_a_time (l @ [Launched t]) \<Longrightarrow> one_at_a_time (l @ [Launched t, Awaited])"
  by (induction l rule: one_at_a_time.induct) auto

lemma one_at_a_time_more: "one_at_a_time (l @ [Awaited]) \<Longrightarrow> one_at_a_time (l @ [Awaited, Launched t])"
  by (induction l rule: one_at_a_time.induct) auto

lemma one_at_a_time_restart:
  "one_at_a_time (l @ [Launched t]) \<Longrightarrow> one_at_a_time (l @ [Launched t, Awaited, Launched t'])"
  using one_at_a_time_more [of "l @ [Launched t]" t'] one_at_a_time_await [of l t] by simp

text \<open>The invariant: the log ends with the running task unless the process has ended.\<close>

definition process_good :: "('r, 'sk, 'ep) platform \<Rightarrow> bool \<Rightarrow> string \<Rightarrow> process \<Rightarrow> bool" where
  "process_good pf role path st \<longleftrightarrow>
     accepted pf role path (ps_current st) \<and> (\<forall>c. ps_rollback st = Some c \<longrightarrow> accepted pf role path c) \<and>
     one_at_a_time (ps_log st) \<and>
     (\<forall>t. Launched t \<in> set (ps_log st) \<longrightarrow> (\<exists>c. accepted pf role path c \<and> t = launch c)) \<and>
     (\<exists>l. ps_log st = l @ Launched (launch (ps_current st)) # (if ps_exit st = None then [] else [Awaited]))"

lemma restart_good:
  assumes "process_good pf role path st" "ps_exit st = None" "accepted pf role path c"
    and "\<And>c. r = Some c \<Longrightarrow> accepted pf role path c"
  shows "process_good pf role path (restart c (st\<lparr>ps_seen := bs, ps_rollback := r\<rparr>))"
  using assms by (auto simp: process_good_def restart_def one_at_a_time_restart)

lemma process_step_good:
  assumes "process_good pf role path st"
  shows "process_good pf role path (process_step pf role path ev st)"
proof (cases "ps_exit st")
  case None
  have stop: "process_good pf role path (st\<lparr>ps_exit := Some x, ps_log := ps_log st @ [Awaited]\<rparr>)" for x
    using assms None by (auto simp: process_good_def one_at_a_time_await)
  have seen: "process_good pf role path (st\<lparr>ps_seen := bs\<rparr>)" for bs
    using assms by (simp add: process_good_def)
  show ?thesis
  proof (cases ev)
    case CtrlC
    then show ?thesis using None stop by (simp add: process_step_def)
  next
    case (TaskEnded r)
    have "process_good pf role path (restart old (st\<lparr>ps_rollback := None\<rparr>))" if "ps_rollback st = Some old" for old
      using restart_good [OF assms None, of old None "ps_seen st"] assms that by (simp add: process_good_def)
    then show ?thesis
      using TaskEnded None stop by (simp add: process_step_def split: option.splits)
  next
    case (Tick v v')
    have "process_good pf role path (restart c (st\<lparr>ps_seen := bs, ps_rollback := Some (ps_current st)\<rparr>))"
      if "load pf v' role path = Ok c" for c bs
    proof (rule restart_good [OF assms None])
      show "accepted pf role path c" using that by (auto simp: accepted_def)
      show "accepted pf role path c'" if "Some (ps_current st) = Some c'" for c'
        using that assms by (simp add: process_good_def)
    qed
    then show ?thesis
      using Tick None assms seen by (simp add: process_step_def Let_def split: result.splits)
  qed
qed (use assms in \<open>simp add: process_step_def\<close>)

interpretation supervisor: event_machine "process_step pf role path" "process_good pf role path" for pf role path
  by unfold_locales (rule process_step_good)

lemma serve_load:
  assumes "serve pf a v v' = Ok (Serving role path st)"
  shows "load pf v role path = Ok (ps_current st) \<and> ar_config a = Some path \<and> vw_read v' path = Ok (ps_seen st) \<and>
    ps_rollback st = None \<and> ps_log st = [Launched (launch (ps_current st))] \<and> ps_exit st = None"
  using assms by (auto simp: serve_def load_def result_simps split: if_splits)

lemma main_start_good:
  assumes "main_start pf G fault a v v' fs = (Serving role path st, fs')"
  shows "process_good pf role path st"
proof -
  have "serve pf a v v' = Ok (Serving role path st)"
    using assms by (auto simp: main_start_def split: option.splits result.splits prod.splits)
  from serve_load [OF this] show ?thesis by (auto simp: process_good_def accepted_def)
qed

lemma process_step_quiet:
  "quiet path (ps_seen st) ev \<Longrightarrow> process_step pf role path ev st = st"
  by (auto simp: quiet_def process_step_def split: result.splits)

lemma process_run_quiet:
  "list_all (quiet path (ps_seen st)) evs \<Longrightarrow> fold (process_step pf role path) evs st = st"
  by (induction evs) (simp_all add: process_step_quiet)

lemma process_step_ended:
  "ps_exit st = None \<Longrightarrow> process_step pf role path (TaskEnded r) st =
     (case ps_rollback st of Some old \<Rightarrow> restart old (st\<lparr>ps_rollback := None\<rparr>)
      | None \<Rightarrow> st\<lparr>ps_exit := Some r, ps_log := ps_log st @ [Awaited]\<rparr>)"
  by (simp add: process_step_def)

lemma process_step_reload:
  assumes "ps_exit st = None" "vw_read v path = Ok bs" "bs \<noteq> ps_seen st"
  shows "process_step pf role path (Tick v v') st = (case load pf v' role path of
     Err e \<Rightarrow> st\<lparr>ps_seen := bs\<rparr>
   | Ok c \<Rightarrow> restart c (st\<lparr>ps_seen := bs, ps_rollback := Some (ps_current st)\<rparr>))"
  using assms by (simp add: process_step_def Let_def split: result.splits)

text \<open>
  Concrete instances: the server of the sample configuration, whose file can hold any bytes.
\<close>

definition sample_platform :: "(bytes, socket_addr option, sample_endpoint) platform" where
  "sample_platform = \<lparr>pf_b64 = sample_b64, pf_from_str = (\<lambda>_. Some sample_config),
     pf_quic = sample_quic, pf_sockets = sample_sockets, pf_tls = sample_provider\<rparr>"

definition sample_path :: string where "sample_path = ''/etc/cathole.toml''"

definition sample_files :: "bytes \<Rightarrow> files" where
  "sample_files bs = \<lparr>vw_read = (\<lambda>_. Ok bs), vw_read_to_string = (\<lambda>_. Ok (text_of bs))\<rparr>"

definition sample_running :: config where
  "sample_running = \<lparr>cf_server = Some (resolve_side ''/etc'' (effective (sample_side True) True)), cf_client = None\<rparr>"

definition server_args :: args where
  "server_args = \<lparr>ar_config = Some sample_path, ar_check = False, ar_genkey = None, ar_init = None,
     ar_server = True, ar_client = False\<rparr>"

definition sample_process :: process where
  "sample_process = \<lparr>ps_current = sample_running, ps_rollback = None, ps_seen = [1],
     ps_log = [Launched (launch sample_running)], ps_exit = None\<rparr>"

lemma sample_read:
  "read_config sample_b64 (\<lambda>_. Some sample_config) (\<lambda>_. Ok text) sample_path =
     Ok \<lparr>cf_server = cf_server sample_running,
         cf_client = Some (resolve_side ''/etc'' (effective (sample_side False) False))\<rparr>"
proof -
  have "path_parent sample_path = Some ''/etc''"
    by (simp add: path_parent_def path_prefix_def is_absolute_def sample_path_def)
  then show ?thesis by (simp add: read_config_def sample_parse Let_def sample_running_def)
qed

lemma sample_validate_files: "validate_files sample_platform (sample_files bs) sample_running = Ok ()"
proof -
  let ?q = "tr_quic (sd_transport (resolve_side ''/etc'' (effective (sample_side True) True)))"
  have "valid_quic ?q"
    using valid_side_quic [OF sample_valid [of True]]
    by (simp add: valid_quic_def) (simp add: resolve_side_def)
  from transport_settings_valid [OF sample_to_idle_contract this]
  obtain t where t: "transport_settings sample_to_idle ?q = Ok t" ..
  have identity: "server_identity sample_quic (vw_read (sample_files bs)) ?q = Ok (ascii ''cathole'', ascii ''key'')"
    by (simp add: server_identity_def sample_quic_def resolve_side_def resolve_path_def effective_def sample_side_def
        transport_default_def quic_default_def)
  have sock: "\<exists>w. udp_socket sample_sockets LOOPBACK ?q = Ok (Some LOOPBACK, w)"
    by (simp add: udp_socket_def sample_sockets_def)
  have "\<exists>ep. transport_server sample_quic sample_sockets (vw_read (sample_files bs)) LOOPBACK ?q = Ok ep"
    unfolding transport_server_Ok using t identity sock by (auto simp: sample_quic_def ascii_def)
  then show ?thesis
    by (auto simp: validate_files_def sample_platform_def sample_running_def Let_def)
qed

lemma sample_load: "load sample_platform (sample_files bs) True sample_path = Ok sample_running"
  using sample_validate_files [of bs]
  by (simp add: load_def sample_platform_def sample_files_def sample_read select_role_def sample_running_def)

lemma sample_start:
  "main_start sample_platform G fault server_args (sample_files bs) (sample_files [1]) fs =
     (Serving True sample_path sample_process, fs)"
  using sample_validate_files [of bs]
  by (simp add: main_start_def serve_def server_args_def role_of_def sample_platform_def sample_files_def sample_read
      select_role_def sample_running_def sample_process_def)

section \<open>Properties of a run\<close>

text \<open>
  C23: Only accepted configurations run, one task at a time. Whatever happens to the process (ticks
  with any file contents, tasks ending, an interrupt), every task it ever launched runs the
  selected role with a side that is valid for it, from a configuration that passed parsing,
  selection and the check of its identity files; so the \<open>unwrap\<close> in \<open>launch\<close> never fails. A task is
  awaited before the next is launched, and one is running exactly while the process has not ended.
\<close>

theorem only_accepted_configurations_run:
  assumes "main_start pf G fault a v v' fs = (Serving role path st0, fs')"
    and "st = fold (process_step pf role path) evs st0"
  shows "one_at_a_time (ps_log st) \<and> (ps_exit st = None \<longleftrightarrow> last (ps_log st) \<noteq> Awaited) \<and>
    (ps_exit st = None \<longrightarrow> last (ps_log st) = Launched (launch (ps_current st))) \<and>
    (\<forall>t. Launched t \<in> set (ps_log st) \<longrightarrow> (\<exists>c u s. load pf u role path = Ok c \<and> t = launch c \<and>
       t = (if role then ServerTask s else ClientTask s) \<and> valid_side (pf_b64 pf) s role))"
proof -
  have good: "process_good pf role path st"
    using supervisor.good_run [OF main_start_good [OF assms(1)]] assms(2) by simp
  then have "\<exists>c u s. load pf u role path = Ok c \<and> t = launch c \<and>
      t = (if role then ServerTask s else ClientTask s) \<and> valid_side (pf_b64 pf) s role"
    if "Launched t \<in> set (ps_log st)" for t
    using that accepted_task unfolding process_good_def accepted_def by metis
  with good show ?thesis by (auto simp: process_good_def split: if_splits)
qed

theorem only_accepted_configurations_run_witness:
  "\<exists>st. st = fold (process_step sample_platform True sample_path)
       [Tick (sample_files [2]) (sample_files [2]), TaskEnded (Err Elapsed), CtrlC] sample_process \<and>
     one_at_a_time (ps_log st) \<and> length (ps_log st) = 6 \<and> ps_exit st = Some (Ok ())"
proof -
  let ?evs = "[Tick (sample_files [2]) (sample_files [2]), TaskEnded (Err Elapsed), CtrlC]"
  let ?st = "fold (process_step sample_platform True sample_path) ?evs sample_process"
  have load: "load sample_platform \<lparr>vw_read = \<lambda>_. Ok [2], vw_read_to_string = \<lambda>_. Ok (text_of [2])\<rparr> True sample_path = Ok sample_running"
    using sample_load [of "[2]"] by (simp add: sample_files_def)
  have "length (ps_log ?st) = 6 \<and> ps_exit ?st = Some (Ok ())"
    by (simp add: process_step_def sample_process_def sample_files_def load restart_def)
  then show ?thesis
    using only_accepted_configurations_run [OF sample_start [where fs = "\<lparr>fs_dirs = {}, fs_files = fmempty\<rparr>"], of ?st ?evs] by blast
qed

text \<open>
  C24: Reloading. A changed file that does not load is noted and otherwise ignored: the running task
  and both configurations stay. A changed file that loads is run; whenever its task ends, however
  long the file has been quiet since, the configuration before it is run again, once: the next end
  without a reload ends the process with that task's result.
\<close>

theorem reload_rolls_back_once:
  assumes "ps_exit st = None" "vw_read v path = Ok bs" "bs \<noteq> ps_seen st"
    and "list_all (quiet path bs) idle1" "list_all (quiet path bs) idle2"
  shows "case load pf v' role path of
      Err e \<Rightarrow> fold (process_step pf role path) (Tick v v' # idle1) st = st\<lparr>ps_seen := bs\<rparr>
    | Ok c \<Rightarrow>
        (let run = fold (process_step pf role path);
             reloaded = run (Tick v v' # idle1) st;
             restored = run (TaskEnded r # idle2) reloaded;
             ended = run [TaskEnded r'] restored in
         ps_current reloaded = c \<and> ps_log reloaded = ps_log st @ [Awaited, Launched (launch c)] \<and>
         ps_current restored = ps_current st \<and> ps_exit restored = None \<and>
         ps_log restored = ps_log reloaded @ [Awaited, Launched (launch (ps_current st))] \<and>
         ps_exit ended = Some r' \<and> ps_log ended = ps_log restored @ [Awaited])"
proof (cases "load pf v' role path")
  case (Err e)
  then show ?thesis
    using process_run_quiet [of path "st\<lparr>ps_seen := bs\<rparr>" idle1] assms by (simp add: process_step_reload)
next
  case (Ok c)
  let ?st1 = "restart c (st\<lparr>ps_seen := bs, ps_rollback := Some (ps_current st)\<rparr>)"
  let ?st2 = "restart (ps_current st) (?st1\<lparr>ps_rollback := None\<rparr>)"
  have "fold (process_step pf role path) (Tick v v' # idle1) st = ?st1"
    using process_run_quiet [of path ?st1 idle1] assms Ok by (simp add: process_step_reload restart_def)
  moreover have "fold (process_step pf role path) (TaskEnded r # idle2) ?st1 = ?st2"
    using process_run_quiet [of path ?st2 idle2] assms by (simp add: process_step_ended restart_def)
  ultimately show ?thesis
    using Ok assms(1) by (simp add: Let_def process_step_ended restart_def)
qed

theorem reload_rolls_back_once_witness:
  "\<exists>st. st = fold (process_step sample_platform True sample_path)
       [Tick (sample_files [2]) (sample_files [2]), Tick (sample_files [2]) (sample_files [3]), TaskEnded (Ok ())] sample_process \<and>
     ps_current st = sample_running \<and> ps_exit st = None"
  using reload_rolls_back_once [where st = sample_process and v = "sample_files [2]" and path = sample_path
      and bs = "[2]" and ?idle1.0 = "[Tick (sample_files [2]) (sample_files [3])]" and ?idle2.0 = "[]"
      and pf = sample_platform and v' = "sample_files [2]" and role = True and r = "Ok ()"]
  by (simp add: sample_load quiet_def) (simp add: sample_process_def sample_files_def Let_def)

text \<open>
  The bytes that later reads are compared with are read after the configuration. If the file
  changes between the two reads, the process runs the old contents and, as long as the file stays
  as it is, never loads the new ones.
\<close>

lemma change_during_startup_missed:
  assumes "main_start pf G fault a v v' fs = (Serving role path st, fs')" "vw_read v' path = Ok bs"
    and "list_all (quiet path bs) evs"
  shows "load pf v role path = Ok (ps_current st) \<and> fold (process_step pf role path) evs st = st"
proof -
  have "serve pf a v v' = Ok (Serving role path st)"
    using assms(1) by (auto simp: main_start_def split: option.splits result.splits prod.splits)
  from serve_load [OF this] show ?thesis using assms(2,3) process_run_quiet [of path st evs] by simp
qed

section \<open>Creating identities\<close>

text \<open>
  What file operations below a directory may do: keep every directory and every file as it is, and
  add files of the given names in the directory, readable by the owner only.
\<close>

definition IDENTITY_FILES :: "string set" where
  "IDENTITY_FILES = {''server.der'', ''server-key.der'', ''server.toml'', ''client.toml''}"

definition adds_identity :: "string \<Rightarrow> fs \<Rightarrow> fs \<Rightarrow> bool" where
  "adds_identity dir fs fs' \<longleftrightarrow> fs_dirs fs \<subseteq> fs_dirs fs' \<and> fs_dirs fs' \<subseteq> insert dir (fs_dirs fs) \<and>
     (\<forall>p. path_exists fs p \<longrightarrow> fmlookup (fs_files fs') p = fmlookup (fs_files fs) p) \<and>
     (\<forall>p f. \<not> path_exists fs p \<longrightarrow> fmlookup (fs_files fs') p = Some f \<longrightarrow>
        fl_mode f = 0x180 \<and> p \<in> path_join dir ` IDENTITY_FILES)"

lemma adds_identity_trans:
  assumes "adds_identity dir fs1 fs2" "adds_identity dir fs2 fs3"
  shows "adds_identity dir fs1 fs3"
proof -
  have mono: "path_exists fs2 p" if "path_exists fs1 p" for p
    using assms(1) that by (auto simp: adds_identity_def path_exists_def)
  have "fl_mode f = 0x180 \<and> p \<in> path_join dir ` IDENTITY_FILES"
    if "\<not> path_exists fs1 p" "fmlookup (fs_files fs3) p = Some f" for p f
    using assms that by (cases "path_exists fs2 p") (simp_all add: adds_identity_def)
  moreover have "fmlookup (fs_files fs3) p = fmlookup (fs_files fs1) p" if "path_exists fs1 p" for p
    using assms mono that by (simp add: adds_identity_def)
  moreover have "fs_dirs fs1 \<subseteq> fs_dirs fs3" "fs_dirs fs3 \<subseteq> insert dir (fs_dirs fs1)"
    using assms by (auto simp: adds_identity_def)
  ultimately show ?thesis by (simp add: adds_identity_def)
qed

lemma adds_identity_refl: "adds_identity dir fs fs"
  by (auto simp: adds_identity_def path_exists_def)

lemma create_dir_adds: "adds_identity dir fs (snd (create_dir fault dir fs))"
  by (auto simp: create_dir_def adds_identity_def path_exists_def)

lemma create_adds:
  "n \<in> IDENTITY_FILES \<Longrightarrow> adds_identity dir fs (snd (create fault (path_join dir n) bs fs))"
  by (auto simp: create_def adds_identity_def path_exists_def split: option.splits fault.splits)

lemma fs_then_adds:
  assumes "adds_identity dir fs (snd r)" "\<And>fs'. adds_identity dir fs' (snd (f fs'))"
  shows "adds_identity dir fs (snd (fs_then r f))"
  using assms adds_identity_trans by (fastforce simp: fs_then_def split: prod.splits result.splits)

lemma initialize_adds: "adds_identity dir fs (snd (initialize G fault dir fs))"
  unfolding initialize_def Let_def
  by (auto intro!: fs_then_adds create_dir_adds create_adds adds_identity_refl
      simp: IDENTITY_FILES_def split: result.splits)

lemma fs_then_Ok: "fs_then r f = (Ok (), fs') \<longleftrightarrow> (\<exists>fs. r = (Ok (), fs) \<and> f fs = (Ok (), fs'))"
  by (auto simp: fs_then_def split: prod.splits result.splits)

lemma create_Ok:
  "create fault p bs fs = (Ok (), fs') \<longleftrightarrow> \<not> path_exists fs p \<and> fault p = None \<and>
     fs' = fs\<lparr>fs_files := fmupd p \<lparr>fl_bytes = bs, fl_mode = 0x180\<rparr> (fs_files fs)\<rparr>"
  by (auto simp: create_def split: option.splits fault.splits)

lemma create_dir_Ok:
  "create_dir fault p fs = (Ok (), fs') \<longleftrightarrow> \<not> path_exists fs p \<and> fault p = None \<and>
     fs' = fs\<lparr>fs_dirs := insert p (fs_dirs fs)\<rparr>"
  by (auto simp: create_dir_def)

text \<open>
  What the two example files say, with the defaults of everything they leave out; this is what a
  TOML deserialiser reads from them.
\<close>

definition echo_services :: "bool \<Rightarrow> (string \<times> service) list" where
  "echo_services server = map (\<lambda>(name, k). (name, \<lparr>sv_kind = k, sv_token = None,
       sv_bind_addr = (if server then Some ''127.0.0.1:5202'' else None),
       sv_local_addr = (if server then None else Some ''127.0.0.1:5201''),
       sv_prefer_ipv6 = False, sv_nodelay = None, sv_retry_interval = None\<rparr>))
     [(''echo'', Tcp), (''echo_udp'', Udp)]"

definition example_side :: "bool \<Rightarrow> string \<Rightarrow> string \<Rightarrow> side" where
  "example_side server tok k = \<lparr>
     sd_bind_addr = (if server then Some ''127.0.0.1:2333'' else None),
     sd_remote_addr = (if server then None else Some ''127.0.0.1:2333''),
     sd_default_token = Some tok, sd_prefer_ipv6 = False,
     sd_heartbeat_timeout = heartbeat_timeout, sd_heartbeat_interval = heartbeat_interval,
     sd_retry_interval = retry_interval,
     sd_transport = transport_default\<lparr>tr_kind := ''quic'',
       tr_noise := noise_default\<lparr>
         noise_local_private_key := (if server then Some k else None),
         noise_remote_public_key := (if server then None else Some k)\<rparr>,
       tr_quic := quic_default\<lparr>
         q_certificate := (if server then Some ''server.der'' else None),
         q_private_key := (if server then Some ''server-key.der'' else None),
         q_trusted_root := (if server then None else Some ''server.der''),
         q_hostname := ''cathole'', q_keep_alive_interval := 15, q_max_idle_timeout := 60\<rparr>\<rparr>,
     sd_services = echo_services server\<rparr>"

definition reads_examples :: "(string \<Rightarrow> config option) \<Rightarrow> string \<Rightarrow> string \<Rightarrow> string \<Rightarrow> bool" where
  "reads_examples from_str tok private public \<longleftrightarrow>
     from_str (server_toml tok private) = Some \<lparr>cf_server = Some (example_side True tok private), cf_client = None\<rparr> \<and>
     from_str (client_toml tok public) = Some \<lparr>cf_server = None, cf_client = Some (example_side False tok public)\<rparr>"

text \<open>Base64: decoding inverts encoding, which yields ASCII text between one and four times as long.\<close>

definition base64_codec :: "(bytes \<Rightarrow> string) \<Rightarrow> (string \<Rightarrow> bytes option) \<Rightarrow> bool" where
  "base64_codec encode decode \<longleftrightarrow> (\<forall>bs. decode (encode bs) = Some bs \<and>
     length bs \<le> length (encode bs) \<and> length (encode bs) \<le> 4 * length bs \<and>
     list_all (\<lambda>c. (of_char c :: nat) < 128) (encode bs))"

text \<open>A directory name that does not end in a separator or a dot.\<close>

definition plain_dir :: "string \<Rightarrow> bool" where
  "plain_dir dir \<longleftrightarrow> dir \<noteq> [] \<and> last dir \<noteq> CHR ''/'' \<and> last dir \<noteq> CHR ''.''"

lemma example_services: "sd_services (example_side server tok k) = echo_services server"
  by (simp add: example_side_def)

lemma example_valid:
  assumes "length tok \<in> {1..512}" "valid_key b64 (Some k)"
  shows "valid_side b64 (example_side server tok k) server"
proof -
  have quic: "valid_limits (tr_quic (sd_transport (example_side server tok k)))"
    by (simp add: limits_words example_side_def transport_default_def quic_default_def)
  have noise: "valid_noise b64 (tr_noise (sd_transport (example_side server tok k))) server pinned" for pinned
    by (subst valid_noise_pattern [where p = "''NK''"])
       (use assms(2) in \<open>simp_all add: example_side_def noise_default_def PATTERN_def\<close>)
  have services: "\<forall>e \<in> set (sd_services (example_side server tok k)). valid_service (example_side server tok k) server e"
    using assms(1) by (simp add: valid_service_def token_def service_retry_def example_side_def echo_services_def
        retry_interval_def)
  show ?thesis
    unfolding valid_side_def using quic noise services
    by (simp add: example_side_def transport_default_def tcp_compat_default_def keep_alive_def echo_services_def
        idle_timeout_def valid_role_def quic_default_def heartbeat_timeout_def heartbeat_interval_def retry_interval_def)
qed

lemma trim_back_plain: "c \<noteq> CHR ''/'' \<Longrightarrow> c \<noteq> CHR ''.'' \<Longrightarrow> trim_back (c # r) = c # r"
  by (cases r) simp_all

lemma plain_dir_prefix:
  "plain_dir dir \<Longrightarrow> path_prefix (dir @ CHR ''/'' # n) = path_prefix dir \<and> path_prefix dir < length dir"
proof -
  assume plain: "plain_dir dir"
  then obtain c r where dir: "dir = c # r" by (cases dir) (auto simp: plain_dir_def)
  show ?thesis
  proof (cases r)
    case Nil
    then show ?thesis using plain dir by (simp add: path_prefix_def is_absolute_def plain_dir_def)
  next
    case (Cons d r')
    then show ?thesis using dir by (simp add: path_prefix_def is_absolute_def)
  qed
qed

lemma path_parent_file:
  assumes "plain_dir dir" "n = a @ [c, d]" "CHR ''/'' \<notin> set n" "d \<noteq> CHR ''.''"
  shows "path_parent (path_join dir n) = Some dir"
proof -
  have n: "path_join dir n = dir @ CHR ''/'' # n"
    using assms by (cases a) (auto simp: path_join_def is_absolute_def plain_dir_def)
  let ?k = "path_prefix dir"
  have k: "path_prefix (dir @ CHR ''/'' # n) = ?k" "?k < length dir" using plain_dir_prefix [OF assms(1)] by auto
  have rest: "rev (drop ?k dir) = last dir # rev (butlast (drop ?k dir))"
    using k(2) by (metis append_butlast_last_id drop_eq_Nil last_drop not_le rev_eq_Cons_iff rev_rev_ident rev.simps(2) rev_append)
  have body: "trim_back (rev (drop ?k (dir @ CHR ''/'' # n))) = rev n @ CHR ''/'' # rev (drop ?k dir)"
    using k(2) assms(2-4) by (auto simp: trim_back_plain)
  have "dropWhile (\<lambda>c. c \<noteq> CHR ''/'') (rev n @ CHR ''/'' # rev (drop ?k dir)) = CHR ''/'' # rev (drop ?k dir)"
    using assms(3) by (subst dropWhile_append2) (auto simp: in_set_conv_decomp)
  moreover have "trim_back (CHR ''/'' # rev (drop ?k dir)) = rev (drop ?k dir)"
    using assms(1) by (simp add: rest plain_dir_def trim_back_plain)
  ultimately show ?thesis
    unfolding n path_parent_def Let_def k(1) body using k(2) by simp
qed

lemma text_of_ascii [simp]: "text_of (ascii s) = s"
  by (induction s) (simp_all add: text_of_def ascii_def unat_of_nat)

lemma byte_ascii: "(word_of_nat (of_char c) :: byte) < 128 \<longleftrightarrow> (of_char c :: nat) < 128"
  by (simp add: word_less_nat_alt unat_of_nat)

lemma list_all_ascii: "list_all (\<lambda>b. b < 128) (ascii s) = list_all (\<lambda>c. (of_char c :: nat) < 128) s"
  by (induction s) (simp_all add: ascii_def byte_ascii)

lemma examples_ascii:
  assumes "list_all (\<lambda>c. (of_char c :: nat) < 128) tok" "list_all (\<lambda>c. (of_char c :: nat) < 128) k"
  shows "list_all (\<lambda>c. (of_char c :: nat) < 128) (server_toml tok k)"
    and "list_all (\<lambda>c. (of_char c :: nat) < 128) (client_toml tok k)"
  using assms by (simp_all add: server_toml_def client_toml_def text_lines_def setting_def quoted_def)

lemma path_join_plain: "plain_dir dir \<Longrightarrow> \<not> is_absolute n \<Longrightarrow> path_join dir n = dir @ CHR ''/'' # n"
  by (simp add: path_join_def plain_dir_def)

text \<open>The file system after a successful \<open>initialize\<close>.\<close>

lemma initialize_files:
  assumes "initialize G fault dir fs = (Ok (), fs')" "plain_dir dir" "gn_keypair G = Ok (private, public)"
  defines "tok \<equiv> gn_encode G (gn_random G)"
  shows "\<exists>der pkcs8. gn_self_signed G ''cathole'' = Ok (der, pkcs8) \<and>
    fs_read fs' (path_join dir ''server.der'') = Ok der \<and>
    fs_read fs' (path_join dir ''server-key.der'') = Ok pkcs8 \<and>
    fs_read fs' (path_join dir ''server.toml'') = Ok (ascii (server_toml tok (gn_encode G private))) \<and>
    fs_read fs' (path_join dir ''client.toml'') = Ok (ascii (client_toml tok (gn_encode G public)))"
proof -
  obtain der pkcs8 where cert: "gn_self_signed G ''cathole'' = Ok (der, pkcs8)" "gn_pattern G PATTERN = Ok ()"
    using assms(1,3)
    by (cases "gn_pattern G PATTERN"; cases "gn_self_signed G ''cathole''") (auto simp: initialize_def fs_then_Ok)
  have names: "path_join dir n = dir @ CHR ''/'' # n" if "n \<in> IDENTITY_FILES" for n
    using that path_join_plain [OF assms(2)] by (auto simp: IDENTITY_FILES_def is_absolute_def)
  let ?put = "\<lambda>n bs. fmupd (path_join dir n) \<lparr>fl_bytes = bs, fl_mode = 0x180\<rparr>"
  have "fs_files fs' = ?put ''client.toml'' (ascii (client_toml tok (gn_encode G public)))
      (?put ''server.toml'' (ascii (server_toml tok (gn_encode G private)))
      (?put ''server-key.der'' pkcs8 (?put ''server.der'' der (fs_files fs))))"
    using assms(1,3) cert unfolding initialize_def tok_def Let_def
    by (auto simp: fs_then_Ok create_Ok create_dir_Ok)
  then show ?thesis
    using cert(1) by (simp add: fs_read_def names IDENTITY_FILES_def)
qed

text \<open>Reading an example file gives the side it describes, validated and with its paths resolved.\<close>

lemma read_example:
  assumes "from_str text = Some c" "fs_read fs path = Ok (ascii text)" "list_all (\<lambda>c. (of_char c :: nat) < 128) text"
    and "path_parent path = Some dir"
    and "c = (if server then \<lparr>cf_server = Some s, cf_client = None\<rparr> else \<lparr>cf_server = None, cf_client = Some s\<rparr>)"
    and "valid_side b64 s server"
  shows "\<exists>s'. read_config b64 from_str (fs_read_to_string utf8 fs) path =
      Ok (if server then \<lparr>cf_server = Some s', cf_client = None\<rparr> else \<lparr>cf_server = None, cf_client = Some s'\<rparr>) \<and>
    s' = resolve_side dir (effective s server)"
proof -
  have "fs_read_to_string utf8 fs path = Ok text"
    using assms(2,3) by (simp add: fs_read_to_string_def list_all_ascii)
  moreover have "parse b64 from_str text =
      Ok (if server then \<lparr>cf_server = Some (effective s server), cf_client = None\<rparr>
          else \<lparr>cf_server = None, cf_client = Some (effective s server)\<rparr>)"
    unfolding parse_Ok using assms(1,5,6) by (cases server) auto
  ultimately show ?thesis using assms(4) by (simp add: read_config_def Let_def)
qed

text \<open>
  Concrete generators: fixed keys, and an encoder that writes each half of a byte as a letter.
\<close>

definition sample_encode :: "bytes \<Rightarrow> string" where
  "sample_encode bs = concat (map (\<lambda>b. [char_of (65 + unat b div 16), char_of (65 + unat b mod 16)]) bs)"

fun sample_decode :: "string \<Rightarrow> bytes option" where
  "sample_decode [] = Some []"
| "sample_decode [c] = None"
| "sample_decode (c # d # r) =
     map_option ((#) (word_of_nat ((of_char c - 65) * 16 + (of_char d - 65)))) (sample_decode r)"

definition sample_generators :: generators where
  "sample_generators = \<lparr>gn_pattern = (\<lambda>_. Ok ()), gn_keypair = Ok (replicate 32 7, replicate 32 9),
     gn_self_signed = (\<lambda>name. Ok (ascii name, ascii ''key'')), gn_random = replicate 32 5, gn_encode = sample_encode\<rparr>"

definition sample_from_str :: "string \<Rightarrow> config option" where
  "sample_from_str text =
     (let tok = sample_encode (replicate 32 5); private = sample_encode (replicate 32 7);
          public = sample_encode (replicate 32 9) in
      if text = server_toml tok private then Some \<lparr>cf_server = Some (example_side True tok private), cf_client = None\<rparr>
      else if text = client_toml tok public then Some \<lparr>cf_server = None, cf_client = Some (example_side False tok public)\<rparr>
      else None)"

definition empty_fs :: fs where
  "empty_fs = \<lparr>fs_dirs = {}, fs_files = fmempty\<rparr>"

lemma sample_decode_byte:
  "sample_decode (char_of (65 + unat (b :: byte) div 16) # char_of (65 + unat b mod 16) # r) =
     map_option ((#) b) (sample_decode r)"
proof -
  have "unat b < 256" using unsigned_less [of b, where ?'a = nat] by simp
  then have "(65 + unat b div 16) mod 256 = 65 + unat b div 16" "(65 + unat b mod 16) mod 256 = 65 + unat b mod 16"
    by auto
  then show ?thesis by simp
qed

lemma sample_codec: "base64_codec sample_encode sample_decode"
proof -
  have ascii: "(of_char (char_of (65 + unat (b :: byte) div 16) :: char) :: nat) < 128"
    "(of_char (char_of (65 + unat b mod 16) :: char) :: nat) < 128" for b
    using unsigned_less [of b, where ?'a = nat] by auto
  have "sample_decode (sample_encode bs) = Some bs \<and> length (sample_encode bs) = 2 * length bs \<and>
      list_all (\<lambda>c. (of_char c :: nat) < 128) (sample_encode bs)" for bs
  proof (induction bs)
    case (Cons b bs)
    have "sample_encode (b # bs) = char_of (65 + unat b div 16) # char_of (65 + unat b mod 16) # sample_encode bs"
      by (simp add: sample_encode_def)
    then show ?case using Cons ascii [of b] by (simp add: sample_decode_byte del: sample_decode.simps of_char_of)
  qed (simp add: sample_encode_def)
  then show ?thesis by (simp add: base64_codec_def)
qed

lemma sample_reads_examples:
  "reads_examples sample_from_str (sample_encode (replicate 32 5)) (sample_encode (replicate 32 7))
     (sample_encode (replicate 32 9))"
proof -
  have "client_toml tok k \<noteq> server_toml tok' k'" for tok k tok' k'
    by (simp add: client_toml_def server_toml_def text_lines_def)
  then show ?thesis by (simp add: reads_examples_def sample_from_str_def Let_def)
qed

lemma sample_initialize: "\<exists>fs'. initialize sample_generators (\<lambda>_. None) ''id'' empty_fs = (Ok (), fs')"
  unfolding initialize_def Let_def
  by (simp add: sample_generators_def create_dir_def create_def fs_then_def path_exists_def empty_fs_def path_join_def
      is_absolute_def)

text \<open>
  C38: \<open>--init\<close> never overwrites. Whatever goes wrong, \<open>initialize\<close> leaves every existing file and
  directory as it was; all it can add are its four files in the new directory, with mode
  \<open>0o600\<close>; and if the directory exists it fails at once and adds nothing.
\<close>

theorem init_never_overwrites:
  "case initialize G fault dir fs of (r, fs') \<Rightarrow>
     adds_identity dir fs fs' \<and>
     (path_exists fs dir \<longrightarrow> r = Err (MainError IdentityDirectory) \<and> fs' = fs) \<and>
     (r = Ok () \<longrightarrow> dir \<in> fs_dirs fs' \<and> (\<forall>n \<in> IDENTITY_FILES. fmlookup (fs_files fs') (path_join dir n) \<noteq> None))"
proof (cases "initialize G fault dir fs")
  case (Pair r fs')
  have "adds_identity dir fs fs'" using initialize_adds [of dir fs G fault] Pair by simp
  moreover have "r = Err (MainError IdentityDirectory) \<and> fs' = fs" if "path_exists fs dir"
    using Pair that by (simp add: initialize_def create_dir_def fs_then_def)
  moreover have "dir \<in> fs_dirs fs' \<and> (\<forall>n \<in> IDENTITY_FILES. fmlookup (fs_files fs') (path_join dir n) \<noteq> None)"
    if "r = Ok ()"
    using Pair that
    by (auto simp: initialize_def Let_def fs_then_Ok create_Ok create_dir_Ok IDENTITY_FILES_def split: result.splits)
  ultimately show ?thesis using Pair by simp
qed

theorem init_never_overwrites_witness:
  "snd (initialize sample_generators (\<lambda>_. None) ''id'' (empty_fs\<lparr>fs_dirs := {''id''}\<rparr>)) = empty_fs\<lparr>fs_dirs := {''id''}\<rparr>"
  using init_never_overwrites [where G = sample_generators and fault = "\<lambda>_. None" and dir = "''id''"
      and fs = "empty_fs\<lparr>fs_dirs := {''id''}\<rparr>"]
  by (simp add: path_exists_def split: prod.splits)




end
