(* ===== verification/Spec2Isabelle.thy ===== *)
theory Spec2Isabelle
  imports Tcp_Tunnel Server Client Process
begin

text \<open>
  Verification of Cathole, a reverse proxy that tunnels TCP and UDP services over QUIC.

  \<^bold>\<open>The program.\<close> A client behind a NAT keeps one QUIC connection to a public server. It registers
  the services of its configuration; the server checks names, kinds and tokens, opens a public
  port per service, and forwards what arrives there. A public TCP connection becomes a QUIC stream
  with a Noise handshake of its own, after which both ends bridge bytes. UDP messages are cut into
  fragments, sealed one by one with the session's Noise keys and sent as QUIC datagrams; the other
  end opens them behind a replay window, reassembles them and hands them to the socket of their
  flow. \<open>src/main.rs\<close> runs one of the two roles and restarts it when the configuration changes.

  \<^bold>\<open>The theories\<close>, from the bottom up; each has its definitions named after the functions they
  translate.
  \<^item> \<open>Base\<close>: machine integers, errors, early returns, big-endian codecs, hash maps. A raised error is
    a value \<open>Err\<close>; a Rust panic is the value \<open>Err Panicked\<close>, so that its absence can be proved.
  \<^item> \<open>Replay_Window\<close>, \<open>Datagram_Crypto\<close> (\<open>src/crypto.rs\<close>): the bitmap of accepted nonces refines a
    window over the set of nonces; sealing never reuses a nonce, opening accepts only authentic
    messages and each at most once, in any order within the window.
  \<^item> \<open>Datagram\<close>, \<open>Udp_Tunnel\<close> (\<open>src/datagram.rs\<close>, \<open>read_packet\<close> in \<open>src/proxy.rs\<close>): fragmentation and
    bounded reassembly, then the whole UDP path over a network that loses, duplicates, reorders and
    injects: what comes out was sent, at most once, and a message whose fragments arrive comes out.
  \<^item> \<open>Config\<close> (\<open>src/config.rs\<close>): validation accepts exactly the documented configurations.
  \<^item> \<open>Frames\<close>, \<open>Bridge\<close> (\<open>src/crypto.rs\<close>): frames over a byte stream, and the two copy loops of a
    bridged connection, which deliver a prefix of the bytes in order and everything at the end.
  \<^item> \<open>Handshake\<close> (\<open>src/crypto.rs\<close>): building and running a Noise handshake; two honest parties never
    wait for each other, and completing proves the same keys, connection and purpose.
  \<^item> \<open>Proxy\<close>, \<open>Registration\<close>, \<open>Session_Setup\<close> (\<open>src/proxy.rs\<close>, \<open>src/proxy/client.rs\<close>,
    \<open>src/proxy/server.rs\<close>): addresses, the registration and its check, and the exchange that sets up
    a session at both ends with agreed service numbers.
  \<^item> \<open>Tcp_Tunnel\<close> (\<open>src/proxy.rs\<close>): opening one TCP connection through the tunnel, from the public
    socket to the configured local address, and its bridge.
  \<^item> \<open>Flow_Table\<close>, \<open>Tokio\<close>, \<open>Server\<close> (\<open>src/proxy/server.rs\<close>): the accept loop, and a session's
    listeners, flow table and datagram loop; replies go only to peers that have written, and every
    table and slot stays within its configured limit.
  \<^item> \<open>Client\<close> (\<open>src/proxy/client.rs\<close>): the reconnect loop with its backoff, and a session's flow
    workers, queues and byte budget; packets go only to configured destinations.
  \<^item> \<open>Transport\<close> (\<open>src/transport.rs\<close>): the QUIC parameters, sockets and TLS identities; a client
    always authenticates the server, by a pinned certificate or by a pinned Noise key.
  \<^item> \<open>Process\<close> (\<open>src/main.rs\<close>): the command line, \<open>--init\<close>, and the reload loop; only accepted
    configurations ever run, one task at a time.

  \<^bold>\<open>How programs are modelled.\<close> A struct is a record with the source's fields, an operation a
  function from its state to a result and the new state. Concurrent tasks are modelled by events: an
  event is one round of one of the loops (a datagram, a tick, a finished task, a scheduler's choice),
  a run is a fold over any list of events, and an invariant is preserved by every event: this is the
  locale \<open>event_machine\<close>, which the process interprets. \<open>bounded_resource\<close> extends it by the
  accounting of permits, for the server and the client, and \<open>fresh_keys\<close> by identifiers that are
  never reused, for the flow table. The locales \<open>replay_filter\<close> and \<open>self_delimiting\<close> are
  interpreted by the replay window and the frames. Time is an argument (nanoseconds).

  \<^bold>\<open>Parameters.\<close> Code outside the repository is an argument: the Noise library (building, handshake
  and transport states), the TLS exporter, QUIC streams, datagrams and endpoints, certificates,
  Base64, TOML, JSON, the resolver, sockets, the file system, tokio's semaphores and channels.
  Properties that need their documented behaviour state it as a hypothesis, and a witness gives a
  concrete instance that has it.

  \<^bold>\<open>Fuel and bounds.\<close> Only the handshake loop needs fuel; a handshake of the three supported
  patterns has at most three messages, so fuel 4 always suffices, as
  \<open>Handshake\<close> proves. Retrying a local connection ends with the setup limit.
  All other loops are recursions over their input or events. Sizes are kept at their machine width
  where the code computes with them, and the limits of the configuration rule out wrap-around.

  \<^bold>\<open>Not modelled.\<close> Log lines, the parsing of command-line arguments, the installation of the TLS
  provider, and the scheduling inside tokio and Quinn, which the events leave open. Cryptography is
  symbolic: what authenticated decryption returns is a hypothesis, not a probability.
\<close>

end
